(* ===== verification/Prelude.thy ===== *)
theory Prelude
  imports Main "HOL-Library.Word"
begin

text \<open>
  Shared vocabulary of the development: the outcomes of a C function that may stop the process
  or never return, the sequencing operator over such outcomes, a weakest-precondition predicate
  with one postcondition for a normal return and one for each way of not returning, and the
  facts on words, maps and lists that several components use.
\<close>

unbundle bit_operations_syntax

section \<open>Outcomes of a C function\<close>

text \<open>
  A function of the library either returns, or stops in one of the following ways:
  \<^item> \<open>Assert_failed\<close>: an \<open>assert\<close> about the library's own data fails;
  \<^item> \<open>Null_deref\<close>: a null pointer is followed;
  \<^item> \<open>Deadlock\<close>: a mutex is locked that is already held;
  \<^item> \<open>Spin\<close>: a loop is entered that no step of the running thread can end;
  \<^item> \<open>Kernel_failed\<close>: a system call or liburing call reports an error and the
    following \<open>assert(0)\<close> stops the process;
  \<^item> \<open>Out_of_memory\<close>, \<open>No_disk_page\<close>: the policy's explicit \<open>assert(!"Out of memory")\<close>
    and \<open>assert(!"no disk page found")\<close>.
\<close>

datatype c_error =
    Assert_failed | Null_deref | Deadlock | Spin | Kernel_failed | Out_of_memory | No_disk_page

definition bindE :: "'e + 'a \<Rightarrow> ('a \<Rightarrow> 'e + 'b) \<Rightarrow> 'e + 'b" where
  "bindE r f = (case r of Inl e \<Rightarrow> Inl e | Inr x \<Rightarrow> f x)"

lemma bindE_simps [simp]: "bindE (Inl e) f = Inl e" "bindE (Inr x) f = f x"
  by (simp_all add: bindE_def)

lemma bindE_cong [fundef_cong]:
  "r = r' \<Longrightarrow> (\<And>x. r' = Inr x \<Longrightarrow> f x = f' x) \<Longrightarrow> bindE r f = bindE r' f'"
  by (auto simp: bindE_def split: sum.splits)

lemma bindE_Inr_iff: "bindE r f = Inr y \<longleftrightarrow> (\<exists>x. r = Inr x \<and> f x = Inr y)"
  by (auto simp: bindE_def split: sum.splits)

lemma bindE_assoc: "bindE (bindE r f) g = bindE r (\<lambda>x. bindE (f x) g)"
  by (simp add: bindE_def split: sum.splits)

definition assertE :: "bool \<Rightarrow> c_error + unit" where
  "assertE b = (if b then Inr () else Inl Assert_failed)"

definition failE :: "bool \<Rightarrow> c_error \<Rightarrow> c_error + unit" where
  "failE b e = (if b then Inl e else Inr ())"

definition derefE :: "'a option \<Rightarrow> c_error + 'a" where
  "derefE x = (case x of None \<Rightarrow> Inl Null_deref | Some p \<Rightarrow> Inr p)"

lemma assertE_simps [simp]: "assertE True = Inr ()" "assertE False = Inl Assert_failed"
  by (simp_all add: assertE_def)

lemma failE_simps [simp]: "failE False e = Inr ()" "failE True e = Inl e"
  by (simp_all add: failE_def)

lemma derefE_simps [simp]: "derefE (Some p) = Inr p" "derefE None = Inl Null_deref"
  by (simp_all add: derefE_def)

section \<open>Weakest preconditions\<close>

named_theorems wp_simps \<open>equations that push \<open>wpE\<close> through a construct\<close>

definition wpE :: "'e + 'a \<Rightarrow> ('a \<Rightarrow> bool) \<Rightarrow> ('e \<Rightarrow> bool) \<Rightarrow> bool" where
  "wpE r Q E = (case r of Inl e \<Rightarrow> E e | Inr x \<Rightarrow> Q x)"

lemma wpE_Inl [wp_simps]: "wpE (Inl e) Q E = E e"
  by (simp add: wpE_def)

lemma wpE_Inr [wp_simps]: "wpE (Inr x) Q E = Q x"
  by (simp add: wpE_def)

lemma wpE_bindE [wp_simps]: "wpE (bindE r f) Q E = wpE r (\<lambda>x. wpE (f x) Q E) E"
  by (simp add: wpE_def bindE_def split: sum.splits)

lemma wpE_assertE [wp_simps]:
  "wpE (assertE b) Q E = ((b \<longrightarrow> Q ()) \<and> (\<not> b \<longrightarrow> E Assert_failed))"
  by (simp add: wpE_def assertE_def)

lemma wpE_failE [wp_simps]: "wpE (failE b e) Q E = ((b \<longrightarrow> E e) \<and> (\<not> b \<longrightarrow> Q ()))"
  by (simp add: wpE_def failE_def)

lemma wpE_derefE [wp_simps]:
  "wpE (derefE x) Q E = ((x = None \<longrightarrow> E Null_deref) \<and> (\<forall>p. x = Some p \<longrightarrow> Q p))"
  by (cases x) (auto simp: wpE_def)

lemma wpE_if [wp_simps]:
  "wpE (if b then r else r') Q E = ((b \<longrightarrow> wpE r Q E) \<and> (\<not> b \<longrightarrow> wpE r' Q E))"
  by simp

lemma wpE_Let [wp_simps]: "wpE (Let x f) Q E = wpE (f x) Q E"
  by (simp add: Let_def)

lemma wpE_case_prod [wp_simps]: "wpE (case x of (a, b) \<Rightarrow> f a b) Q E = wpE (f (fst x) (snd x)) Q E"
  by (simp add: case_prod_beta)

lemma wpE_case_option [wp_simps]:
  "wpE (case x of None \<Rightarrow> r | Some y \<Rightarrow> f y) Q E =
     ((x = None \<longrightarrow> wpE r Q E) \<and> (\<forall>y. x = Some y \<longrightarrow> wpE (f y) Q E))"
  by (cases x) auto

lemma wpE_mono:
  "wpE r Q E \<Longrightarrow> (\<And>x. Q x \<Longrightarrow> Q' x) \<Longrightarrow> (\<And>e. E e \<Longrightarrow> E' e) \<Longrightarrow> wpE r Q' E'"
  by (auto simp: wpE_def split: sum.splits)

lemma wpE_conj: "wpE r Q E \<Longrightarrow> wpE r Q' E' \<Longrightarrow> wpE r (\<lambda>x. Q x \<and> Q' x) (\<lambda>e. E e \<and> E' e)"
  by (auto simp: wpE_def split: sum.splits)

lemma wpE_iff: "wpE r Q E \<longleftrightarrow> (\<forall>x. r = Inr x \<longrightarrow> Q x) \<and> (\<forall>e. r = Inl e \<longrightarrow> E e)"
  by (cases r) (auto simp: wpE_def)

lemma wpE_remember: "wpE r (\<lambda>x. r = Inr x \<longrightarrow> Q x) E \<Longrightarrow> wpE r Q E"
  by (auto simp: wpE_iff)

lemma wpE_returns: "wpE r Q (\<lambda>_. False) \<longleftrightarrow> (\<exists>x. r = Inr x \<and> Q x)"
  by (cases r) (auto simp: wpE_def)

section \<open>Words and functions\<close>

type_synonym u64 = "64 word"
type_synonym u32 = "32 word"

abbreviation PAGE_SIZE :: u64 where "PAGE_SIZE \<equiv> 4096"
abbreviation BASEPAGE_SIZE :: u64 where "BASEPAGE_SIZE \<equiv> 4096"
abbreviation HUGEPAGE_SIZE :: u64 where "HUGEPAGE_SIZE \<equiv> 2097152"

definition page_aligned :: "u64 \<Rightarrow> bool" where
  "page_aligned a \<longleftrightarrow> a mod PAGE_SIZE = 0"

lemma fun_upd_twist2: "a \<noteq> b \<Longrightarrow> f(a := x, b := y) = f(b := y, a := x)"
  by (simp add: fun_upd_twist)

end
