(* ===== verification/Machine.thy ===== *)
theory Machine
  imports Prelude
begin

text \<open>
  The state the library keeps, split as the source splits it: the page descriptors of
  \<open>core.h\<close>, the links and heads of the policy's queues (\<open>fifo.h\<close>), the hash index of
  \<open>core.c\<close>, the mutexes, the thread-local variables, the counters, and the state of the
  kernel and of liburing, which are parameters (a record of functions, see
  \<open>kernel\<close> below).
\<close>

section \<open>Page descriptors (core.h)\<close>

datatype pagetypes = HUGEP | BASEP

type_synonym page_ptr = nat

text \<open>
  \<open>struct user_page\<close>, without the link fields \<open>next\<close>, \<open>prev\<close>, \<open>list\<close> and without the hash
  handle \<open>hh\<close>: those live in heaps of their own (\<open>page_link\<close> and \<open>uthash\<close> below), one heap per
  group of fields.
\<close>

record user_page =
  va :: u64
  virtual_offset :: u64
  in_dram :: bool
  swapped_out :: bool
  pt :: pagetypes
  migrating :: bool
  has_reserve :: bool
  present :: bool
  naccesses :: u64
  reserve :: "page_ptr option"

text \<open>What \<open>calloc\<close> returns: every field zero, and the page type with number zero is \<open>HUGEP\<close>.\<close>

definition calloc_page :: user_page where
  "calloc_page = \<lparr>va = 0, virtual_offset = 0, in_dram = False, swapped_out = False, pt = HUGEP,
     migrating = False, has_reserve = False, present = False, naccesses = 0, reserve = None\<rparr>"

definition pt_to_pagesize :: "pagetypes \<Rightarrow> u64" where
  "pt_to_pagesize p = (case p of HUGEP \<Rightarrow> HUGEPAGE_SIZE | BASEP \<Rightarrow> BASEPAGE_SIZE)"

definition pagesize_to_pt :: "u64 \<Rightarrow> c_error + pagetypes" where
  "pagesize_to_pt sz = (if sz = BASEPAGE_SIZE then Inr BASEP
     else if sz = HUGEPAGE_SIZE then Inr HUGEP else Inl Assert_failed)"

section \<open>Queues (fifo.h) and the queues of the policy\<close>

datatype list_id =
    Active_list | Inactive_list | Disk_active_list | Disk_written_list
  | Dram_free_list | Disk_free_list | Disk_reserve_list | Eviction_list

record page_link =
  next_p :: "page_ptr option"
  prev_p :: "page_ptr option"
  list_p :: "list_id option"

record fifo_list =
  first_p :: "page_ptr option"
  last_p :: "page_ptr option"
  numentries :: nat

record fifo_state =
  link :: "page_ptr \<Rightarrow> page_link"
  queue :: "list_id \<Rightarrow> fifo_list"

section \<open>The hash index (uthash.h)\<close>

text \<open>
  A bucket's chain, linked by \<open>hh_prev\<close> and \<open>hh_next\<close> in the source, is the list of its
  elements from \<open>hh_head\<close> on; the order list linked by \<open>prev\<close> and \<open>next\<close> is the list
  \<open>app_order\<close> from the head of the table to its tail. \<open>hashv\<close> is the field of that name of
  every element's hash handle. The handle's \<open>key\<close> points at the element's \<open>va\<close>, so the key is
  read from the page heap when a chain is walked.
\<close>

record UT_hash_bucket =
  hh_chain :: "page_ptr list"
  bkt_count :: u32
  expand_mult :: u32

record UT_hash_table =
  buckets :: "u32 \<Rightarrow> UT_hash_bucket"
  num_buckets :: u32
  log2_num_buckets :: u32
  num_items :: u32
  ideal_chain_maxlen :: u32
  nonideal_items :: u32
  ineff_expands :: u32
  noexpand :: u32

record uthash =
  app_order :: "page_ptr list"
  tbl :: UT_hash_table
  hashv :: "page_ptr \<Rightarrow> u32"

section \<open>Threads, locks, counters\<close>

type_synonym tid = nat

record thread_local =
  internal_call :: bool
  buffer_space :: u64
  buffer_allocated :: bool
  prefetch_buffer :: u64
  prefetch_buffer_allocated :: bool
  prev_fault_1 :: u64
  prev_fault_2 :: u64
  uring_init :: bool
  uring_read_init :: bool

datatype mutex = Pages_lock | Allocator_lock | Handler_lock | Kswapd_lock | List_lock list_id

record counters =
  mem_mmaped :: u64
  mem_allocated :: u64
  pages_allocated :: u64
  pages_freed :: u64
  first_faults_handled :: u64
  major_faults_handled :: u64
  migrations_up :: u64
  migrations_down :: u64
  bytes_migrated :: u64
  migration_waits :: u64

text \<open>\<open>kswapd\<close> is either at the top of its loop or inside \<open>pthread_cond_wait\<close>.\<close>

datatype kswapd_pc = Kswapd_top | Kswapd_waiting | Kswapd_signalled

record uswap_vma =
  vma_va :: u64
  vma_priority :: int
  vma_size :: u64

section \<open>The kernel and liburing as parameters\<close>

text \<open>
  The calls the library makes into the kernel (its patched \<open>userfaultfd\<close>, \<open>madvise\<close>, \<open>mmap\<close>,
  \<open>pread\<close>/\<open>pwrite\<close>, opening files, \<open>sigaction\<close>, \<open>pthread_create\<close>) and into liburing are functions over a kernel state of an arbitrary type
  \<open>'k\<close>. A call that can fail returns a flag (\<open>True\<close> for success) or an option. A ring is named
  by the thread that owns it and by which of its two rings it is.
\<close>

datatype ring_id = Io_ring tid | Io_read_ring tid

record 'k kernel =
  k_mmap :: "u64 \<Rightarrow> u64 \<Rightarrow> u32 \<Rightarrow> u32 \<Rightarrow> u64 \<Rightarrow> 'k \<Rightarrow> u64 option \<times> 'k"
  k_munmap :: "u64 \<Rightarrow> u64 \<Rightarrow> 'k \<Rightarrow> bool \<times> 'k"
  k_memset0 :: "u64 \<Rightarrow> u64 \<Rightarrow> 'k \<Rightarrow> 'k"
  k_madvise_dontneed :: "u64 \<Rightarrow> u64 \<Rightarrow> 'k \<Rightarrow> bool \<times> 'k"
  k_fopen :: "string \<Rightarrow> 'k \<Rightarrow> bool \<times> 'k"
  k_open_disk :: "string \<Rightarrow> 'k \<Rightarrow> int \<times> 'k"
  k_sigaction :: "'k \<Rightarrow> bool \<times> 'k"
  k_pthread_create :: "'k \<Rightarrow> bool \<times> 'k"
  k_uffd_open :: "'k \<Rightarrow> bool \<times> 'k"
  k_uffd_api :: "'k \<Rightarrow> bool \<times> 'k"
  k_uffd_register :: "u64 \<Rightarrow> u64 \<Rightarrow> 'k \<Rightarrow> bool \<times> 'k"
  k_uffd_copy :: "u64 \<Rightarrow> u64 \<Rightarrow> u64 \<Rightarrow> 'k \<Rightarrow> bool \<times> 'k"
  k_uffd_writeprotect :: "u64 \<Rightarrow> u64 \<Rightarrow> bool \<Rightarrow> 'k \<Rightarrow> bool \<times> 'k"
  k_uffd_get_flag :: "u64 \<Rightarrow> u64 \<Rightarrow> u64 \<Rightarrow> 'k \<Rightarrow> (u64 \<times> u64) option \<times> 'k"
  k_uffd_clear_flag :: "u64 \<Rightarrow> u64 \<Rightarrow> u64 \<Rightarrow> 'k \<Rightarrow> bool \<times> 'k"
  k_uffd_tlbflush :: "u64 \<Rightarrow> u64 \<Rightarrow> 'k \<Rightarrow> bool \<times> 'k"
  k_pread :: "int \<Rightarrow> u64 \<Rightarrow> u64 \<Rightarrow> u64 \<Rightarrow> 'k \<Rightarrow> bool \<times> 'k"
  k_pwrite :: "int \<Rightarrow> u64 \<Rightarrow> u64 \<Rightarrow> u64 \<Rightarrow> 'k \<Rightarrow> bool \<times> 'k"
  u_queue_init :: "ring_id \<Rightarrow> 'k \<Rightarrow> bool \<times> 'k"
  u_get_sqe :: "ring_id \<Rightarrow> 'k \<Rightarrow> bool \<times> 'k"
  u_prep_read :: "ring_id \<Rightarrow> int \<Rightarrow> u64 \<Rightarrow> u64 \<Rightarrow> u64 \<Rightarrow> 'k \<Rightarrow> 'k"
  u_prep_write :: "ring_id \<Rightarrow> int \<Rightarrow> u64 \<Rightarrow> u64 \<Rightarrow> u64 \<Rightarrow> 'k \<Rightarrow> 'k"
  u_submit :: "ring_id \<Rightarrow> 'k \<Rightarrow> bool \<times> 'k"
  u_wait_cqe :: "ring_id \<Rightarrow> 'k \<Rightarrow> bool \<times> 'k"
  u_cqe_seen :: "ring_id \<Rightarrow> 'k \<Rightarrow> 'k"

section \<open>The state of the library\<close>

record 'k ext =
  heap :: "page_ptr \<Rightarrow> user_page"
  nalloc :: nat
  lists :: fifo_state
  pages :: uthash
  held :: "mutex \<Rightarrow> bool"
  tls :: "tid \<Rightarrow> thread_local"
  cur :: tid
  stats :: counters
  dramsize :: u64
  disksize :: u64
  diskfd :: int
  is_init :: bool
  main_mmap :: u64
  page_cache :: u64
  prev_fault_global_1 :: u64
  prev_fault_global_2 :: u64
  kswapd_running :: bool
  shrinkage_running :: bool
  kswapd_at :: kswapd_pc
  safe_to_free :: u64
  main_vma :: uswap_vma
  kst :: 'k

abbreviation me :: "'k ext \<Rightarrow> thread_local" where
  "me s \<equiv> tls s (cur s)"

definition upd_me :: "(thread_local \<Rightarrow> thread_local) \<Rightarrow> 'k ext \<Rightarrow> 'k ext" where
  "upd_me f s = s\<lparr>tls := (tls s)(cur s := f (tls s (cur s)))\<rparr>"

definition upd_page :: "page_ptr \<Rightarrow> (user_page \<Rightarrow> user_page) \<Rightarrow> 'k ext \<Rightarrow> 'k ext" where
  "upd_page p f s = s\<lparr>heap := (heap s)(p := f (heap s p))\<rparr>"

definition count :: "(counters \<Rightarrow> counters) \<Rightarrow> 'k ext \<Rightarrow> 'k ext" where
  "count f s = s\<lparr>stats := f (stats s)\<rparr>"

abbreviation page_list :: "'k ext \<Rightarrow> page_ptr \<Rightarrow> list_id option" where
  "page_list s p \<equiv> list_p (link (lists s) p)"

abbreviation entries :: "'k ext \<Rightarrow> list_id \<Rightarrow> nat" where
  "entries s l \<equiv> numentries (queue (lists s) l)"

text \<open>\<open>pthread_mutex_lock\<close> on a mutex that is not recursive, and \<open>pthread_mutex_unlock\<close>.\<close>

definition lock :: "mutex \<Rightarrow> 'k ext \<Rightarrow> c_error + 'k ext" where
  "lock m s = (if held s m then Inl Deadlock else Inr (s\<lparr>held := (held s)(m := True)\<rparr>))"

definition unlock :: "mutex \<Rightarrow> 'k ext \<Rightarrow> 'k ext" where
  "unlock m s = s\<lparr>held := (held s)(m := False)\<rparr>"

text \<open>A call of the kernel whose failure stops the process, and one that cannot fail.\<close>

definition kcall :: "('k \<Rightarrow> bool \<times> 'k) \<Rightarrow> 'k ext \<Rightarrow> c_error + 'k ext" where
  "kcall f s = (let (ok, k) = f (kst s) in
     if ok then Inr (s\<lparr>kst := k\<rparr>) else Inl Kernel_failed)"

definition kdo :: "('k \<Rightarrow> 'k) \<Rightarrow> 'k ext \<Rightarrow> 'k ext" where
  "kdo f s = s\<lparr>kst := f (kst s)\<rparr>"

lemma wpE_lock [wp_simps]:
  "wpE (lock m s) Q E =
     ((held s m \<longrightarrow> E Deadlock) \<and> (\<not> held s m \<longrightarrow> Q (s\<lparr>held := (held s)(m := True)\<rparr>)))"
  by (simp add: lock_def wpE_def)

lemma wpE_kcall [wp_simps]:
  "wpE (kcall f s) Q E =
     ((fst (f (kst s)) \<longrightarrow> Q (s\<lparr>kst := snd (f (kst s))\<rparr>)) \<and>
      (\<not> fst (f (kst s)) \<longrightarrow> E Kernel_failed))"
  by (simp add: kcall_def wpE_def case_prod_beta Let_def)

lemma pt_to_pagesize_simps [simp]:
  "pt_to_pagesize BASEP = PAGE_SIZE" "pt_to_pagesize HUGEP = HUGEPAGE_SIZE"
  by (simp_all add: pt_to_pagesize_def)

text \<open>The two directions of the page-type conversion are inverse on the sizes that exist.\<close>

lemma pagesize_roundtrip [simp]: "pagesize_to_pt (pt_to_pagesize p) = Inr p"
  by (cases p) (simp_all add: pagesize_to_pt_def)

end
