(* ===== verification/Storage.thy ===== *)
theory Storage
  imports Machine
begin

text \<open>
  The two storage back ends: \<open>storage_iouring.c\<close>, which the default build uses, and
  \<open>storagemanager.c\<close>. Each thread owns two rings, opened at first use. The functions change the
  state of the kernel and the thread's own ring flags only; that frame, with the way they stop when
  a call fails, is what the migration functions of \<open>core.c\<close> use.
\<close>

section \<open>storage_iouring.c\<close>

definition uswap_init_iouring :: "'k kernel \<Rightarrow> 'k ext \<Rightarrow> c_error + 'k ext" where
  "uswap_init_iouring K s =
     bindE (kcall (u_queue_init K (Io_ring (cur s))) s) (\<lambda>s.
     Inr (upd_me (\<lambda>t. t\<lparr>uring_init := True\<rparr>) s))"

definition thread_init_iouring :: "'k kernel \<Rightarrow> 'k ext \<Rightarrow> c_error + 'k ext" where
  "thread_init_iouring K s =
     bindE (kcall (u_queue_init K (Io_ring (cur s))) s) (\<lambda>s.
     Inr (upd_me (\<lambda>t. t\<lparr>uring_init := True\<rparr>) s))"

definition thread_init_read_iouring :: "'k kernel \<Rightarrow> 'k ext \<Rightarrow> c_error + 'k ext" where
  "thread_init_read_iouring K s =
     bindE (kcall (u_queue_init K (Io_read_ring (cur s))) s) (\<lambda>s.
     Inr (upd_me (\<lambda>t. t\<lparr>uring_read_init := True\<rparr>) s))"

definition ioring_read_store :: "'k kernel \<Rightarrow> int \<Rightarrow> u64 \<Rightarrow> u64 \<Rightarrow> u64 \<Rightarrow> 'k ext \<Rightarrow> c_error + 'k ext" where
  "ioring_read_store K fd offset buffer sz s =
     bindE (if \<not> uring_init (me s)
            then bindE (thread_init_iouring K s) (\<lambda>s. Inr (upd_me (\<lambda>t. t\<lparr>uring_init := True\<rparr>) s))
            else Inr s) (\<lambda>s.
     let io_ring = Io_ring (cur s) in
     bindE (kcall (u_get_sqe K io_ring) s) (\<lambda>s.
     let s = kdo (u_prep_read K io_ring fd buffer sz offset) s in
     bindE (kcall (u_submit K io_ring) s) (\<lambda>s.
     bindE (kcall (u_wait_cqe K io_ring) s) (\<lambda>s.
     Inr (kdo (u_cqe_seen K io_ring) s)))))"

definition ioring_write_store :: "'k kernel \<Rightarrow> int \<Rightarrow> u64 \<Rightarrow> u64 \<Rightarrow> u64 \<Rightarrow> 'k ext \<Rightarrow> c_error + 'k ext" where
  "ioring_write_store K fd offset data sz s =
     bindE (if \<not> uring_init (me s)
            then bindE (thread_init_iouring K s) (\<lambda>s. Inr (upd_me (\<lambda>t. t\<lparr>uring_init := True\<rparr>) s))
            else Inr s) (\<lambda>s.
     let io_ring = Io_ring (cur s) in
     bindE (kcall (u_get_sqe K io_ring) s) (\<lambda>s.
     let s = kdo (u_prep_write K io_ring fd data sz offset) s in
     bindE (kcall (u_submit K io_ring) s) (\<lambda>s.
     bindE (kcall (u_wait_cqe K io_ring) s) (\<lambda>s.
     Inr (kdo (u_cqe_seen K io_ring) s)))))"

definition ioring_start_read :: "'k kernel \<Rightarrow> int \<Rightarrow> u64 \<Rightarrow> u64 \<Rightarrow> u64 \<Rightarrow> 'k ext \<Rightarrow> c_error + 'k ext" where
  "ioring_start_read K fd offset buffer sz s =
     bindE (if \<not> uring_read_init (me s)
            then bindE (thread_init_read_iouring K s) (\<lambda>s. Inr (upd_me (\<lambda>t. t\<lparr>uring_read_init := True\<rparr>) s))
            else Inr s) (\<lambda>s.
     let io_read_ring = Io_read_ring (cur s) in
     bindE (kcall (u_get_sqe K io_read_ring) s) (\<lambda>s.
     let s = kdo (u_prep_read K io_read_ring fd buffer sz offset) s in
     kcall (u_submit K io_read_ring) s))"

definition ioring_prepare_read :: "'k kernel \<Rightarrow> int \<Rightarrow> u64 \<Rightarrow> u64 \<Rightarrow> u64 \<Rightarrow> 'k ext \<Rightarrow> c_error + 'k ext" where
  "ioring_prepare_read K fd offset buffer sz s =
     bindE (if \<not> uring_read_init (me s)
            then bindE (thread_init_read_iouring K s) (\<lambda>s. Inr (upd_me (\<lambda>t. t\<lparr>uring_read_init := True\<rparr>) s))
            else Inr s) (\<lambda>s.
     let io_read_ring = Io_read_ring (cur s) in
     bindE (kcall (u_get_sqe K io_read_ring) s) (\<lambda>s.
     Inr (kdo (u_prep_read K io_read_ring fd buffer sz offset) s)))"

definition ioring_submit_all_reads :: "'k kernel \<Rightarrow> 'k ext \<Rightarrow> c_error + 'k ext" where
  "ioring_submit_all_reads K s = kcall (u_submit K (Io_read_ring (cur s))) s"

definition ioring_finish_read :: "'k kernel \<Rightarrow> int \<Rightarrow> u64 \<Rightarrow> u64 \<Rightarrow> u64 \<Rightarrow> 'k ext \<Rightarrow> c_error + 'k ext" where
  "ioring_finish_read K fd offset buffer sz s =
     bindE (assertE (uring_read_init (me s))) (\<lambda>_.
     let io_read_ring = Io_read_ring (cur s) in
     bindE (kcall (u_wait_cqe K io_read_ring) s) (\<lambda>s.
     Inr (kdo (u_cqe_seen K io_read_ring) s)))"

definition ioring_prepare_write :: "'k kernel \<Rightarrow> int \<Rightarrow> u64 \<Rightarrow> u64 \<Rightarrow> u64 \<Rightarrow> 'k ext \<Rightarrow> c_error + 'k ext" where
  "ioring_prepare_write K fd offset data sz s =
     bindE (if \<not> uring_init (me s)
            then bindE (thread_init_iouring K s) (\<lambda>s. Inr (upd_me (\<lambda>t. t\<lparr>uring_init := True\<rparr>) s))
            else Inr s) (\<lambda>s.
     let io_ring = Io_ring (cur s) in
     bindE (kcall (u_get_sqe K io_ring) s) (\<lambda>s.
     Inr (kdo (u_prep_write K io_ring fd data sz offset) s)))"

definition ioring_submit_all_writes :: "'k kernel \<Rightarrow> 'k ext \<Rightarrow> c_error + 'k ext" where
  "ioring_submit_all_writes K s = kcall (u_submit K (Io_ring (cur s))) s"

definition ioring_finish_write :: "'k kernel \<Rightarrow> 'k ext \<Rightarrow> c_error + 'k ext" where
  "ioring_finish_write K s =
     (let io_ring = Io_ring (cur s) in
     bindE (kcall (u_wait_cqe K io_ring) s) (\<lambda>s.
     Inr (kdo (u_cqe_seen K io_ring) s)))"

section \<open>storagemanager.c and its callers in core.c\<close>

text \<open>A failed \<open>pread\<close> stops the process; a failed \<open>pwrite\<close> only prints a message.\<close>

definition read_page :: "'k kernel \<Rightarrow> int \<Rightarrow> u64 \<Rightarrow> u64 \<Rightarrow> u64 \<Rightarrow> 'k ext \<Rightarrow> c_error + 'k ext" where
  "read_page K fd file_offset dest pagesize s = kcall (k_pread K fd dest pagesize file_offset) s"

definition write_page :: "'k kernel \<Rightarrow> int \<Rightarrow> u64 \<Rightarrow> u64 \<Rightarrow> u64 \<Rightarrow> 'k ext \<Rightarrow> c_error + 'k ext" where
  "write_page K fd file_offset src pagesize s =
     Inr (kdo (\<lambda>k. snd (k_pwrite K fd src pagesize file_offset k)) s)"

definition extmem_disk_write :: "'k kernel \<Rightarrow> int \<Rightarrow> u64 \<Rightarrow> u64 \<Rightarrow> u64 \<Rightarrow> 'k ext \<Rightarrow> c_error + 'k ext" where
  "extmem_disk_write K storage_fd src dest pagesize s = write_page K storage_fd dest src pagesize s"

definition extmem_disk_read :: "'k kernel \<Rightarrow> int \<Rightarrow> u64 \<Rightarrow> u64 \<Rightarrow> u64 \<Rightarrow> 'k ext \<Rightarrow> c_error + 'k ext" where
  "extmem_disk_read K storage_fd src dest pagesize s = read_page K storage_fd src dest pagesize s"

section \<open>What a storage call may change\<close>

text \<open>
  A thread's buffers and rings, once set up, stay set up.
\<close>

definition tls_le :: "(tid \<Rightarrow> thread_local) \<Rightarrow> (tid \<Rightarrow> thread_local) \<Rightarrow> bool" where
  "tls_le t t' \<longleftrightarrow> (\<forall>i. (buffer_allocated (t i) \<longrightarrow> buffer_allocated (t' i)) \<and>
     (prefetch_buffer_allocated (t i) \<longrightarrow> prefetch_buffer_allocated (t' i)) \<and>
     (uring_init (t i) \<longrightarrow> uring_init (t' i)) \<and> (uring_read_init (t i) \<longrightarrow> uring_read_init (t' i)))"

lemma tls_le_refl [simp]: "tls_le t t"
  by (simp add: tls_le_def)

lemma tls_le_trans [trans]: "tls_le t t' \<Longrightarrow> tls_le t' t'' \<Longrightarrow> tls_le t t''"
  by (auto simp: tls_le_def)

lemma tls_le_upd: "tls_le t (t(i := x)) \<longleftrightarrow>
   (buffer_allocated (t i) \<longrightarrow> buffer_allocated x) \<and>
   (prefetch_buffer_allocated (t i) \<longrightarrow> prefetch_buffer_allocated x) \<and>
   (uring_init (t i) \<longrightarrow> uring_init x) \<and> (uring_read_init (t i) \<longrightarrow> uring_read_init x)"
  by (auto simp: tls_le_def)

text \<open>\<open>io_only s s'\<close>: nothing but the kernel and the running thread's set-up flags changed.\<close>

definition io_only :: "'k ext \<Rightarrow> 'k ext \<Rightarrow> bool" where
  "io_only s s' \<longleftrightarrow> s' = s\<lparr>kst := kst s', tls := tls s'\<rparr> \<and> tls_le (tls s) (tls s')"

lemma io_only_refl [simp]: "io_only s s"
  by (simp add: io_only_def)

lemma io_onlyE:
  assumes "io_only s s'"
  obtains k t where "s' = s\<lparr>kst := k, tls := t\<rparr>" "tls_le (tls s) t"
  using assms unfolding io_only_def by blast

lemma io_onlyI: "tls_le (tls s) t \<Longrightarrow> io_only s (s\<lparr>kst := k, tls := t\<rparr>)"
  by (simp add: io_only_def)

lemma io_only_trans [trans]: "io_only s s' \<Longrightarrow> io_only s' s'' \<Longrightarrow> io_only s s''"
  by (elim io_onlyE) (simp add: io_only_def tls_le_trans)

lemma io_only_kst [simp]: "io_only s (s\<lparr>kst := k\<rparr>)"
  by (simp add: io_only_def)

lemma io_only_kst_trans: "io_only s (s'\<lparr>kst := k\<rparr>) \<longleftrightarrow> io_only s s'"
proof
  assume "io_only s (s'\<lparr>kst := k\<rparr>)"
  from io_only_trans [OF this, of s'] show "io_only s s'"
    using io_only_kst [of "s'\<lparr>kst := k\<rparr>" "kst s'"] by simp
qed (auto intro: io_only_trans)

lemma io_only_kdo [simp]: "io_only s (kdo f s') \<longleftrightarrow> io_only s s'"
  by (simp add: kdo_def io_only_kst_trans)

lemma io_only_flags:
  "io_only s (upd_me (\<lambda>t. t\<lparr>uring_init := True\<rparr>) s)"
  "io_only s (upd_me (\<lambda>t. t\<lparr>uring_read_init := True\<rparr>) s)"
  by (simp_all add: io_only_def upd_me_def tls_le_upd)

text \<open>The calls of a storage function compose along \<open>io_only\<close>.\<close>

lemma wpE_io:
  "wpE r (io_only s) E \<Longrightarrow> (\<And>s'. io_only s s' \<Longrightarrow> Q s') \<Longrightarrow> wpE r Q E"
  by (erule wpE_mono)

lemma io_bind:
  assumes "wpE r (io_only s) (\<lambda>e. e = Kernel_failed)"
    and "\<And>s'. r = Inr s' \<Longrightarrow> io_only s s' \<Longrightarrow> wpE (f s') (io_only s') (\<lambda>e. e = Kernel_failed)"
  shows "wpE (bindE r f) (io_only s) (\<lambda>e. e = Kernel_failed)"
  using assms by (cases r) (auto simp: wpE_def split: sum.splits intro: io_only_trans)

lemma io_kcall: "wpE (kcall f s) (io_only s) (\<lambda>e. e = Kernel_failed)"
  by (simp add: wp_simps)

lemma io_kcall_kdo: "wpE (kcall g (kdo f s)) (io_only s) (\<lambda>e. e = Kernel_failed)"
  by (simp add: wp_simps io_only_kst_trans)

lemma io_Inr: "io_only s s' \<Longrightarrow> wpE (Inr s') (io_only s) E"
  by (simp add: wp_simps)

lemma io_if: "(b \<Longrightarrow> wpE r (io_only s) E) \<Longrightarrow> (\<not> b \<Longrightarrow> wpE r' (io_only s) E) \<Longrightarrow> wpE (if b then r else r') (io_only s) E"
  by simp

lemmas io_rules = io_bind io_kcall io_kcall_kdo io_Inr io_if io_only_flags

lemma thread_init_io:
  "wpE (uswap_init_iouring K s) (io_only s) (\<lambda>e. e = Kernel_failed)"
  "wpE (thread_init_iouring K s) (io_only s) (\<lambda>e. e = Kernel_failed)"
  "wpE (thread_init_read_iouring K s) (io_only s) (\<lambda>e. e = Kernel_failed)"
  unfolding uswap_init_iouring_def thread_init_iouring_def thread_init_read_iouring_def
  by (intro io_rules; simp)+

lemma ioring_io:
  "wpE (ioring_read_store K fd offset buffer sz s) (io_only s) (\<lambda>e. e = Kernel_failed)"
  "wpE (ioring_write_store K fd offset buffer sz s) (io_only s) (\<lambda>e. e = Kernel_failed)"
  "wpE (ioring_start_read K fd offset buffer sz s) (io_only s) (\<lambda>e. e = Kernel_failed)"
  "wpE (ioring_prepare_read K fd offset buffer sz s) (io_only s) (\<lambda>e. e = Kernel_failed)"
  "wpE (ioring_prepare_write K fd offset buffer sz s) (io_only s) (\<lambda>e. e = Kernel_failed)"
  "wpE (ioring_submit_all_reads K s) (io_only s) (\<lambda>e. e = Kernel_failed)"
  "wpE (ioring_submit_all_writes K s) (io_only s) (\<lambda>e. e = Kernel_failed)"
  "wpE (ioring_finish_write K s) (io_only s) (\<lambda>e. e = Kernel_failed)"
  unfolding ioring_read_store_def ioring_write_store_def ioring_start_read_def
    ioring_prepare_read_def ioring_prepare_write_def ioring_submit_all_reads_def
    ioring_submit_all_writes_def ioring_finish_write_def Let_def
  by (intro io_rules thread_init_io; simp)+

lemma ioring_finish_read_io:
  "uring_read_init (me s) \<Longrightarrow>
     wpE (ioring_finish_read K fd offset buffer sz s) (io_only s) (\<lambda>e. e = Kernel_failed)"
  unfolding ioring_finish_read_def Let_def by (simp, intro io_rules; simp)

text \<open>A read that was started or prepared leaves the read ring open, as \<open>ioring_finish_read\<close> asserts.\<close>

lemma read_ring_open:
  "wpE (ioring_start_read K fd offset buffer sz s) (\<lambda>s'. uring_read_init (me s')) (\<lambda>_. True)"
  "wpE (ioring_prepare_read K fd offset buffer sz s) (\<lambda>s'. uring_read_init (me s')) (\<lambda>_. True)"
  by (auto simp: ioring_start_read_def ioring_prepare_read_def thread_init_read_iouring_def Let_def
      wp_simps upd_me_def kdo_def)

lemma io_only_read_ring: "io_only s s' \<Longrightarrow> uring_read_init (me s) \<Longrightarrow> uring_read_init (me s')"
  by (elim io_onlyE) (auto simp: tls_le_def)

end
