(* ===== verification/Observability.thy ===== *)
theory Observability
  imports Storage
begin

text \<open>
  \<open>observability.c\<close>: reading and clearing the accessed and dirty bits of a page through the
  extended \<open>userfaultfd\<close>, and the TLB flush.
\<close>

definition PT_ACCESSED_FLAG :: u64 where "PT_ACCESSED_FLAG = 0x20"
definition PT_DIRTY_FLAG :: u64 where "PT_DIRTY_FLAG = 0x40"

definition kernel_tlb_shootdown :: "'k kernel \<Rightarrow> u64 \<Rightarrow> 'k ext \<Rightarrow> c_error + 'k ext" where
  "kernel_tlb_shootdown K v s =
     (let page_boundry = v AND NOT (PAGE_SIZE - 1) in
      kcall (k_uffd_tlbflush K page_boundry PAGE_SIZE) s)"

definition pt_clear_bits :: "'k kernel \<Rightarrow> page_ptr \<Rightarrow> 'k ext \<Rightarrow> c_error + 'k ext" where
  "pt_clear_bits K p s =
     (let v = va (heap s p) in
      bindE (assertE (v mod PAGE_SIZE = 0)) (\<lambda>_.
      kcall (k_uffd_clear_flag K v PT_ACCESSED_FLAG PT_DIRTY_FLAG) s))"

definition pt_clear_accessed_flag :: "'k kernel \<Rightarrow> page_ptr \<Rightarrow> 'k ext \<Rightarrow> c_error + 'k ext" where
  "pt_clear_accessed_flag K p s =
     (let v = va (heap s p) in
      bindE (assertE (v mod PAGE_SIZE = 0)) (\<lambda>_.
      kcall (k_uffd_clear_flag K v PT_ACCESSED_FLAG 0) s))"

definition pt_clear_dirty_flag :: "'k kernel \<Rightarrow> page_ptr \<Rightarrow> 'k ext \<Rightarrow> c_error + 'k ext" where
  "pt_clear_dirty_flag K p s =
     (let v = va (heap s p) in
      bindE (assertE (v mod PAGE_SIZE = 0)) (\<lambda>_.
      kcall (k_uffd_clear_flag K v PT_DIRTY_FLAG 0) s))"

text \<open>The call reports the two flags in \<open>res1\<close> and \<open>res2\<close>; the function returns their union.\<close>

definition pt_get_bits :: "'k kernel \<Rightarrow> page_ptr \<Rightarrow> 'k ext \<Rightarrow> c_error + u64 \<times> 'k ext" where
  "pt_get_bits K p s =
     (let v = va (heap s p) in
      bindE (assertE (v mod PAGE_SIZE = 0)) (\<lambda>_.
      case k_uffd_get_flag K v PT_ACCESSED_FLAG PT_DIRTY_FLAG (kst s) of
        (None, k) \<Rightarrow> Inl Kernel_failed
      | (Some (res1, res2), k) \<Rightarrow> Inr (res1 OR res2, s\<lparr>kst := k\<rparr>)))"

section \<open>Frames\<close>

lemma pt_clear_io:
  assumes "page_aligned (va (heap s p))"
  shows "wpE (pt_clear_bits K p s) (io_only s) (\<lambda>e. e = Kernel_failed)"
    "wpE (pt_clear_accessed_flag K p s) (io_only s) (\<lambda>e. e = Kernel_failed)"
    "wpE (pt_clear_dirty_flag K p s) (io_only s) (\<lambda>e. e = Kernel_failed)"
  using assms
  by (simp_all add: pt_clear_bits_def pt_clear_accessed_flag_def pt_clear_dirty_flag_def
      page_aligned_def Let_def wp_simps)

lemma kernel_tlb_shootdown_io: "wpE (kernel_tlb_shootdown K v s) (io_only s) (\<lambda>e. e = Kernel_failed)"
  by (simp add: kernel_tlb_shootdown_def wp_simps)

lemma pt_get_bits_io:
  "page_aligned (va (heap s p)) \<Longrightarrow>
     wpE (pt_get_bits K p s) (\<lambda>(_, s'). io_only s s') (\<lambda>e. e = Kernel_failed)"
  by (auto simp: pt_get_bits_def page_aligned_def Let_def wp_simps split: prod.splits option.splits)

end
