(* ===== verification/Fifo.thy ===== *)
theory Fifo
  imports Machine
begin

text \<open>
  The intrusive doubly linked queues of \<open>fifo.c\<close>: the operations on the link fields of the page
  descriptors and on the queue heads, the predicate that says which sequence of pages a queue
  holds, and the proof that every operation is the sequence operation it stands for. The
  interface the policy relies on is the locale \<open>page_queues\<close>.
\<close>

section \<open>Operations\<close>

definition set_link :: "page_ptr \<Rightarrow> (page_link \<Rightarrow> page_link) \<Rightarrow> 'k ext \<Rightarrow> 'k ext" where
  "set_link p f s = s\<lparr>lists := (lists s)\<lparr>link := (link (lists s))(p := f (link (lists s) p))\<rparr>\<rparr>"

definition set_queue :: "list_id \<Rightarrow> (fifo_list \<Rightarrow> fifo_list) \<Rightarrow> 'k ext \<Rightarrow> 'k ext" where
  "set_queue l f s = s\<lparr>lists := (lists s)\<lparr>queue := (queue (lists s))(l := f (queue (lists s) l))\<rparr>\<rparr>"

definition enqueue_fifo :: "list_id \<Rightarrow> page_ptr \<Rightarrow> 'k ext \<Rightarrow> c_error + 'k ext" where
  "enqueue_fifo l entry s =
     bindE (lock (List_lock l) s) (\<lambda>s.
     bindE (assertE (prev_p (link (lists s) entry) = None)) (\<lambda>_.
     let s = set_link entry (next_p_update (\<lambda>_. first_p (queue (lists s) l))) s in
     bindE (case first_p (queue (lists s) l) of
              Some f \<Rightarrow>
                bindE (assertE (prev_p (link (lists s) f) = None)) (\<lambda>_.
                Inr (set_link f (prev_p_update (\<lambda>_. Some entry)) s))
            | None \<Rightarrow>
                bindE (assertE (last_p (queue (lists s) l) = None)) (\<lambda>_.
                bindE (assertE (entries s l = 0)) (\<lambda>_.
                Inr (set_queue l (last_p_update (\<lambda>_. Some entry)) s)))) (\<lambda>s.
     let s = set_queue l (first_p_update (\<lambda>_. Some entry)) s;
         s = set_link entry (list_p_update (\<lambda>_. Some l)) s;
         s = set_queue l (numentries_update Suc) s
     in Inr (unlock (List_lock l) s))))"

text \<open>The removal of the last element, shared by \<open>dequeue_fifo\<close> and \<open>dequeue_fifo_vector\<close>.\<close>

definition take_last :: "list_id \<Rightarrow> page_ptr \<Rightarrow> 'k ext \<Rightarrow> c_error + 'k ext" where
  "take_last l ret s =
     (let s = set_queue l (last_p_update (\<lambda>_. prev_p (link (lists s) ret))) s;
          s = (case last_p (queue (lists s) l) of
                 Some p \<Rightarrow> set_link p (next_p_update (\<lambda>_. None)) s
               | None \<Rightarrow> set_queue l (first_p_update (\<lambda>_. None)) s);
          s = set_link ret (\<lambda>k. k\<lparr>prev_p := None, next_p := None, list_p := None\<rparr>) s
      in bindE (assertE (0 < entries s l)) (\<lambda>_.
         Inr (set_queue l (numentries_update (\<lambda>n. n - 1)) s)))"

definition dequeue_fifo :: "list_id \<Rightarrow> 'k ext \<Rightarrow> c_error + page_ptr option \<times> 'k ext" where
  "dequeue_fifo l s =
     bindE (lock (List_lock l) s) (\<lambda>s.
     case last_p (queue (lists s) l) of
       None \<Rightarrow> Inr (None, unlock (List_lock l) s)
     | Some ret \<Rightarrow>
         bindE (take_last l ret s) (\<lambda>s.
         Inr (Some ret, unlock (List_lock l) s)))"

text \<open>The unlinking of an element, shared by the two removal functions.\<close>

definition unlink_page :: "list_id \<Rightarrow> page_ptr \<Rightarrow> 'k ext \<Rightarrow> c_error + 'k ext" where
  "unlink_page l page s =
     (let s = (if first_p (queue (lists s) l) = Some page
               then set_queue l (first_p_update (\<lambda>_. next_p (link (lists s) page))) s else s);
          s = (if last_p (queue (lists s) l) = Some page
               then set_queue l (last_p_update (\<lambda>_. prev_p (link (lists s) page))) s else s);
          s = (case next_p (link (lists s) page) of
                 Some n \<Rightarrow> set_link n (prev_p_update (\<lambda>_. prev_p (link (lists s) page))) s
               | None \<Rightarrow> s);
          s = (case prev_p (link (lists s) page) of
                 Some p \<Rightarrow> set_link p (next_p_update (\<lambda>_. next_p (link (lists s) page))) s
               | None \<Rightarrow> s)
      in bindE (assertE (0 < entries s l)) (\<lambda>_.
         let s = set_queue l (numentries_update (\<lambda>n. n - 1)) s
         in Inr (set_link page (\<lambda>k. k\<lparr>next_p := None, prev_p := None, list_p := None\<rparr>) s)))"

definition page_list_remove_page :: "list_id \<Rightarrow> page_ptr \<Rightarrow> 'k ext \<Rightarrow> c_error + 'k ext" where
  "page_list_remove_page l page s =
     bindE (lock (List_lock l) s) (\<lambda>s.
     if first_p (queue (lists s) l) = None then
       bindE (assertE (last_p (queue (lists s) l) = None)) (\<lambda>_.
       bindE (assertE (entries s l = 0)) (\<lambda>_.
       Inr (unlock (List_lock l) s)))
     else
       bindE (unlink_page l page s) (\<lambda>s. Inr (unlock (List_lock l) s)))"

definition page_list_tryremove_page ::
  "list_id option \<Rightarrow> page_ptr \<Rightarrow> 'k ext \<Rightarrow> c_error + int \<times> 'k ext" where
  "page_list_tryremove_page list page s =
     (case list of
        None \<Rightarrow> Inr (-1, s)
      | Some l \<Rightarrow>
          bindE (lock (List_lock l) s) (\<lambda>s.
          if page_list s page \<noteq> Some l then Inr (-1, unlock (List_lock l) s)
          else if first_p (queue (lists s) l) = None then
            bindE (assertE (last_p (queue (lists s) l) = None)) (\<lambda>_.
            bindE (assertE (entries s l = 0)) (\<lambda>_.
            Inr (-1, unlock (List_lock l) s)))
          else
            bindE (unlink_page l page s) (\<lambda>s. Inr (0, unlock (List_lock l) s))))"

definition next_page ::
  "list_id \<Rightarrow> page_ptr option \<Rightarrow> 'k ext \<Rightarrow> c_error + page_ptr option \<times> 'k ext" where
  "next_page l page s =
     bindE (lock (List_lock l) s) (\<lambda>s.
     case page of
       None \<Rightarrow> Inr (last_p (queue (lists s) l), unlock (List_lock l) s)
     | Some p \<Rightarrow>
         (let res = prev_p (link (lists s) p) in
          bindE (assertE (page_list s p = Some l)) (\<lambda>_.
          Inr (res, unlock (List_lock l) s))))"

text \<open>The loop of \<open>dequeue_fifo_vector\<close>; its argument is \<open>nr_fetch - nr_taken\<close>.\<close>

fun dequeue_vector_loop :: "nat \<Rightarrow> list_id \<Rightarrow> 'k ext \<Rightarrow> c_error + page_ptr list \<times> 'k ext" where
  "dequeue_vector_loop 0 l s = Inr ([], s)"
| "dequeue_vector_loop (Suc n) l s =
     (case last_p (queue (lists s) l) of
        None \<Rightarrow> Inr ([], s)
      | Some page \<Rightarrow>
          bindE (take_last l page s) (\<lambda>s.
          bindE (dequeue_vector_loop n l s) (\<lambda>(ps, s). Inr (page # ps, s))))"

definition dequeue_fifo_vector ::
  "list_id \<Rightarrow> nat \<Rightarrow> 'k ext \<Rightarrow> c_error + page_ptr list \<times> 'k ext" where
  "dequeue_fifo_vector l nr_fetch s =
     bindE (lock (List_lock l) s) (\<lambda>s.
     bindE (dequeue_vector_loop nr_fetch l s) (\<lambda>(ps, s).
     Inr (ps, unlock (List_lock l) s)))"

section \<open>The sequence a queue holds\<close>

text \<open>
  \<open>links lk pv xs nx\<close>: the pages \<open>xs\<close> are linked in this order by \<open>next\<close> and \<open>prev\<close>, the
  first one's \<open>prev\<close> is \<open>pv\<close> and the last one's \<open>next\<close> is \<open>nx\<close>.
\<close>

fun links :: "(page_ptr \<Rightarrow> page_link) \<Rightarrow> page_ptr option \<Rightarrow> page_ptr list \<Rightarrow>
    page_ptr option \<Rightarrow> bool" where
  "links lk pv [] nx = True"
| "links lk pv (x # xs) nx =
     (prev_p (lk x) = pv \<and> next_p (lk x) = (case xs of [] \<Rightarrow> nx | y # _ \<Rightarrow> Some y) \<and>
      links lk (Some x) xs nx)"

definition hd_opt :: "'a list \<Rightarrow> 'a option" where
  "hd_opt xs = (case xs of [] \<Rightarrow> None | x # _ \<Rightarrow> Some x)"

definition last_opt :: "'a list \<Rightarrow> 'a option" where
  "last_opt xs = (if xs = [] then None else Some (last xs))"

definition fifo_rep :: "(page_ptr \<Rightarrow> page_link) \<Rightarrow> fifo_list \<Rightarrow> page_ptr list \<Rightarrow> bool" where
  "fifo_rep lk q xs \<longleftrightarrow>
     first_p q = hd_opt xs \<and> last_p q = last_opt xs \<and> numentries q = length xs \<and>
     distinct xs \<and> links lk None xs None"

definition lists_rep :: "fifo_state \<Rightarrow> (list_id \<Rightarrow> page_ptr list) \<Rightarrow> bool" where
  "lists_rep fs L \<longleftrightarrow>
     (\<forall>l. fifo_rep (link fs) (queue fs l) (L l)) \<and>
     (\<forall>l p. p \<in> set (L l) \<longleftrightarrow> list_p (link fs p) = Some l) \<and>
     (\<forall>p. list_p (link fs p) = None \<longrightarrow> next_p (link fs p) = None \<and> prev_p (link fs p) = None)"


text \<open>The sequence read off the heap: \<open>numentries\<close> steps along \<open>next\<close> from the head.\<close>

fun walk :: "nat \<Rightarrow> (page_ptr \<Rightarrow> page_link) \<Rightarrow> page_ptr option \<Rightarrow> page_ptr list" where
  "walk 0 lk p = []"
| "walk (Suc n) lk None = []"
| "walk (Suc n) lk (Some p) = p # walk n lk (next_p (lk p))"

definition seq :: "fifo_state \<Rightarrow> list_id \<Rightarrow> page_ptr list" where
  "seq fs l = walk (numentries (queue fs l)) (link fs) (first_p (queue fs l))"

definition lists_ok :: "fifo_state \<Rightarrow> bool" where
  "lists_ok fs \<longleftrightarrow> lists_rep fs (seq fs)"

lemma hd_opt_simps [simp]: "hd_opt [] = None" "hd_opt (x # xs) = Some x"
  by (simp_all add: hd_opt_def)

lemma last_opt_simps [simp]: "last_opt [] = None" "last_opt (xs @ [x]) = Some x"
  "xs \<noteq> [] \<Longrightarrow> last_opt (x # xs) = last_opt xs" "last_opt [x] = Some x"
  by (simp_all add: last_opt_def)

lemma links_cong:
  assumes "\<And>x. x \<in> set xs \<Longrightarrow> next_p (lk x) = next_p (lk' x) \<and> prev_p (lk x) = prev_p (lk' x)"
  shows "links lk pv xs nx = links lk' pv xs nx"
  using assms by (induction xs arbitrary: pv) auto

lemma links_frame: "(\<And>x. x \<in> set xs \<Longrightarrow> lk' x = lk x) \<Longrightarrow> links lk' pv xs nx = links lk pv xs nx"
  by (rule links_cong) simp

lemma links_append:
  "links lk pv (xs @ ys) nx \<longleftrightarrow>
     links lk pv xs (case ys of [] \<Rightarrow> nx | y # _ \<Rightarrow> Some y) \<and>
     links lk (if xs = [] then pv else Some (last xs)) ys nx"
  by (induction xs arbitrary: pv) (auto split: list.splits)

lemma links_set_prev:
  assumes "links lk pv (x # xs) nx" and "x \<notin> set xs"
  shows "links (lk(x := (lk x)\<lparr>prev_p := pv'\<rparr>)) pv' (x # xs) nx"
proof -
  have "links (lk(x := (lk x)\<lparr>prev_p := pv'\<rparr>)) (Some x) xs nx = links lk (Some x) xs nx"
    using assms(2) by (intro links_cong) auto
  with assms show ?thesis by simp
qed

lemma links_set_next:
  assumes "links lk pv (xs @ [x]) nx" and "x \<notin> set xs"
  shows "links (lk(x := (lk x)\<lparr>next_p := nx'\<rparr>)) pv (xs @ [x]) nx'"
proof -
  have "links (lk(x := (lk x)\<lparr>next_p := nx'\<rparr>)) pv xs (Some x) = links lk pv xs (Some x)"
    using assms(2) by (intro links_cong) auto
  with assms show ?thesis by (simp add: links_append split: if_splits)
qed

lemma walk_links:
  "links lk pv xs None \<Longrightarrow> walk (length xs) lk (hd_opt xs) = xs"
proof (induction xs arbitrary: pv)
  case (Cons x xs)
  then show ?case by (cases xs) auto
qed simp

lemma lists_rep_seq: "lists_rep fs L \<Longrightarrow> seq fs = L"
  by (rule ext) (auto simp: lists_rep_def fifo_rep_def seq_def dest: walk_links)

lemma lists_okI: "lists_rep fs L \<Longrightarrow> lists_ok fs \<and> seq fs = L"
  by (simp add: lists_ok_def lists_rep_seq)

lemma lists_ok_mem: "lists_ok fs \<Longrightarrow> p \<in> set (seq fs l) \<longleftrightarrow> list_p (link fs p) = Some l"
  by (simp add: lists_ok_def lists_rep_def)

lemma lists_ok_entries: "lists_ok fs \<Longrightarrow> numentries (queue fs l) = length (seq fs l)"
  by (simp add: lists_ok_def lists_rep_def fifo_rep_def)

lemma lists_ok_distinct: "lists_ok fs \<Longrightarrow> distinct (seq fs l)"
  by (simp add: lists_ok_def lists_rep_def fifo_rep_def)

lemma lists_ok_disjoint: "lists_ok fs \<Longrightarrow> l \<noteq> l' \<Longrightarrow> set (seq fs l) \<inter> set (seq fs l') = {}"
  by (auto simp: lists_ok_mem)

text \<open>
  Only the links of pages of one queue and that queue's head change: the other queues keep
  their sequences.
\<close>

lemma lists_rep_change:
  assumes rep: "lists_rep fs L"
    and q: "\<And>l'. l' \<noteq> l \<Longrightarrow> queue fs' l' = queue fs l'"
    and frame: "\<And>p. p \<notin> X \<Longrightarrow> link fs' p = link fs p"
    and X: "\<And>p l'. p \<in> X \<Longrightarrow> l' \<noteq> l \<Longrightarrow> p \<notin> set (L l')"
    and new: "fifo_rep (link fs') (queue fs' l) xs"
    and mem: "\<And>p. p \<in> X \<union> set (L l) \<union> set xs \<Longrightarrow>
      list_p (link fs' p) = (if p \<in> set xs then Some l else None)"
    and nil: "\<And>p. p \<in> X \<Longrightarrow> p \<notin> set xs \<Longrightarrow> next_p (link fs' p) = None \<and> prev_p (link fs' p) = None"
  shows "lists_rep fs' (L(l := xs))"
  unfolding lists_rep_def
proof (intro conjI allI)
  fix l'
  show "fifo_rep (link fs') (queue fs' l') ((L(l := xs)) l')"
  proof (cases "l' = l")
    case False
    have "links (link fs') None (L l') None = links (link fs) None (L l') None"
      by (rule links_cong) (metis False X frame)
    with rep False q show ?thesis by (auto simp: lists_rep_def fifo_rep_def)
  qed (simp add: new)
next
  fix l' p
  show "(p \<in> set ((L(l := xs)) l')) = (list_p (link fs' p) = Some l')"
  proof (cases "p \<in> X \<union> set (L l) \<union> set xs")
    case True
    with mem have e: "list_p (link fs' p) = (if p \<in> set xs then Some l else None)" by blast
    have "p \<notin> set (L l')" if "l' \<noteq> l"
    proof (cases "p \<in> X")
      case False
      with True e frame rep have "list_p (link fs p) = Some l"
        by (auto simp: lists_rep_def split: if_splits)
      with rep that show ?thesis by (simp add: lists_rep_def)
    qed (simp add: X that)
    with e show ?thesis by auto
  next
    case False
    then have "link fs' p = link fs p" "p \<notin> set (L l)" "p \<notin> set xs" using frame by auto
    with rep show ?thesis by (auto simp: lists_rep_def)
  qed
next
  fix p
  show "list_p (link fs' p) = None \<longrightarrow> next_p (link fs' p) = None \<and> prev_p (link fs' p) = None"
    using rep frame [of p] nil [of p] mem [of p] by (cases "p \<in> X") (auto simp: lists_rep_def)
qed

section \<open>Every operation is an operation on the sequences\<close>

lemma upd_comm:
  "last_p_update f (first_p_update g q) = first_p_update g (last_p_update f q)"
  "prev_p_update f (next_p_update g k) = next_p_update g (prev_p_update f k)"
  "link_update f' (queue_update g' fs) = queue_update g' (link_update f' fs)"
  by simp_all

lemma upd_same:
  "first_p q = x \<Longrightarrow> q\<lparr>first_p := x\<rparr> = q" "last_p q = x \<Longrightarrow> q\<lparr>last_p := x\<rparr> = q"
  by auto

lemmas fifo_defs = set_link_def set_queue_def lock_def unlock_def Let_def

lemma fifo_rep_nil: "fifo_rep lk q [] \<longleftrightarrow> first_p q = None \<and> last_p q = None \<and> numentries q = 0"
  by (simp add: fifo_rep_def)

lemma fifo_rep_first_None: "fifo_rep lk q xs \<Longrightarrow> first_p q = None \<longleftrightarrow> xs = []"
  by (cases xs) (auto simp: fifo_rep_def)

lemma fifo_rep_last_None: "fifo_rep lk q xs \<Longrightarrow> last_p q = None \<longleftrightarrow> xs = []"
  by (auto simp: fifo_rep_def last_opt_def)

lemma lists_rep_mem: "lists_rep fs L \<Longrightarrow> x \<in> set (L l) \<Longrightarrow> list_p (link fs x) = Some l"
  by (simp add: lists_rep_def)

lemma lists_rep_unique: "lists_rep fs L \<Longrightarrow> x \<in> set (L l) \<Longrightarrow> x \<in> set (L l') \<Longrightarrow> l' = l"
  by (simp add: lists_rep_def)

lemma lists_rep_fifo: "lists_rep fs L \<Longrightarrow> fifo_rep (link fs) (queue fs l) (L l)"
  by (simp add: lists_rep_def)

lemma enqueue_fifo_rep:
  assumes rep: "lists_rep (lists s) L" and free: "page_list s p = None"
    and lk: "\<not> held s (List_lock l)"
  shows "\<exists>fs. enqueue_fifo l p s = Inr (s\<lparr>lists := fs\<rparr>) \<and> lists_rep fs (L(l := p # L l))"
proof -
  let ?lk = "link (lists s)" and ?q = "queue (lists s) l"
  have q: "fifo_rep ?lk ?q (L l)" and pn: "prev_p (?lk p) = None" "next_p (?lk p) = None"
    and pL: "\<And>l. p \<notin> set (L l)"
    using rep free by (auto simp: lists_rep_def)
  show ?thesis
  proof (cases "L l")
    case Nil
    define fs where "fs = (lists s)\<lparr>link := ?lk(p := (?lk p)\<lparr>list_p := Some l\<rparr>),
      queue := (queue (lists s))(l := numentries_update Suc (?q\<lparr>last_p := Some p, first_p := Some p\<rparr>))\<rparr>"
    have "enqueue_fifo l p s = Inr (s\<lparr>lists := fs\<rparr>)"
      using q pn lk Nil by (simp add: enqueue_fifo_def fifo_defs fifo_rep_nil fs_def fun_upd_idem)
    moreover have "lists_rep fs (L(l := [p]))"
      using rep q pn pL Nil
      by (intro lists_rep_change [where X = "{p}" and fs = "lists s"])
        (auto simp: fs_def fifo_rep_def)
    ultimately show ?thesis using Nil by auto
  next
    case (Cons f xs)
    with pL have pf: "p \<noteq> f" "p \<notin> set xs" by (metis list.set_intros(1)) (metis Cons pL list.set_intros(2))
    have fx: "f \<notin> set xs" and lf: "links ?lk None (f # xs) None" "list_p (?lk f) = Some l"
      and lx: "\<And>x. x \<in> set xs \<Longrightarrow> list_p (?lk x) = Some l"
      using q Cons lists_rep_mem [OF rep, of _ l] by (auto simp: fifo_rep_def)
    define lk1 where "lk1 = ?lk(f := (?lk f)\<lparr>prev_p := Some p\<rparr>)"
    define fs where "fs = (lists s)\<lparr>link := lk1(p := (?lk p)\<lparr>next_p := Some f, list_p := Some l\<rparr>),
      queue := (queue (lists s))(l := numentries_update Suc (?q\<lparr>first_p := Some p\<rparr>))\<rparr>"
    have "links lk1 (Some p) (f # xs) None"
      unfolding lk1_def using lf(1) fx by (rule links_set_prev)
    then have "links (lk1(p := (?lk p)\<lparr>next_p := Some f, list_p := Some l\<rparr>)) (Some p) (f # xs) None"
      using pf by (subst links_cong [where lk' = lk1]) auto
    moreover have "enqueue_fifo l p s = Inr (s\<lparr>lists := fs\<rparr>)"
      using q pn lk Cons pf lf
      by (simp add: enqueue_fifo_def fifo_defs fifo_rep_def fs_def lk1_def fun_upd_idem)
    moreover have "lists_rep fs (L(l := p # f # xs))"
    proof (rule lists_rep_change [where X = "{p, f}" and fs = "lists s"])
      show "fifo_rep (link fs) (queue fs l) (p # f # xs)"
        using calculation q Cons pf fx pn by (simp add: fs_def fifo_rep_def)
      show "x \<notin> set (L l')" if "x \<in> {p, f}" "l' \<noteq> l" for x l'
        using that pL Cons lists_rep_unique [OF rep, of f l l'] by auto
    qed (use rep pL Cons pf lf lx in \<open>auto simp: fs_def lk1_def lists_rep_mem\<close>)
    ultimately show ?thesis using Cons by auto
  qed
qed

text \<open>Splicing a page out of the middle of a linked sequence.\<close>

definition splice_prev :: "(page_ptr \<Rightarrow> page_link) \<Rightarrow> page_ptr option \<Rightarrow> page_ptr list \<Rightarrow>
    page_ptr \<Rightarrow> page_link" where
  "splice_prev lk pv bs = (case bs of [] \<Rightarrow> lk | b # _ \<Rightarrow> lk(b := (lk b)\<lparr>prev_p := pv\<rparr>))"

definition splice_next :: "(page_ptr \<Rightarrow> page_link) \<Rightarrow> page_ptr list \<Rightarrow> page_ptr option \<Rightarrow>
    page_ptr \<Rightarrow> page_link" where
  "splice_next lk as nx = (if as = [] then lk else lk(last as := (lk (last as))\<lparr>next_p := nx\<rparr>))"

lemma links_splice_prev:
  assumes "links lk pv bs nx" "distinct bs"
  shows "links (splice_prev lk pv' bs) pv' bs nx"
proof (cases bs)
  case (Cons b cs)
  with assms have "links (lk(b := (lk b)\<lparr>prev_p := pv'\<rparr>)) pv' (b # cs) nx"
    by (intro links_set_prev) auto
  with Cons show ?thesis by (simp add: splice_prev_def)
qed simp

lemma links_splice_next:
  assumes "links lk pv as nx" "distinct as"
  shows "links (splice_next lk as nx') pv as nx'"
proof (cases as rule: rev_cases)
  case (snoc cs c)
  with assms have "links (lk(c := (lk c)\<lparr>next_p := nx'\<rparr>)) pv (cs @ [c]) nx'"
    by (intro links_set_next) auto
  with snoc show ?thesis by (simp add: splice_next_def)
qed simp

lemma splice_prev_other: "x \<notin> set bs \<Longrightarrow> splice_prev lk pv bs x = lk x"
  by (cases bs) (auto simp: splice_prev_def)

lemma splice_next_other: "x \<notin> set as \<Longrightarrow> splice_next lk as nx x = lk x"
  by (auto simp: splice_next_def)

lemma splice_list_p [simp]:
  "list_p (splice_prev lk pv bs x) = list_p (lk x)" "list_p (splice_next lk as nx x) = list_p (lk x)"
  by (auto simp: splice_prev_def splice_next_def split: list.splits)

lemma links_splice:
  assumes l: "links lk None (as @ p # bs) None" and d: "distinct (as @ p # bs)"
  shows "links (splice_next (splice_prev lk (last_opt as) bs) as (hd_opt bs)) None (as @ bs) None"
proof -
  let ?lk1 = "splice_prev lk (last_opt as) bs"
  let ?lk2 = "splice_next ?lk1 as (hd_opt bs)"
  have "links lk None as (Some p)" "links lk (Some p) bs None" using l by (auto simp: links_append)
  moreover have "links ?lk1 None as (Some p) = links lk None as (Some p)"
    using d by (intro links_frame splice_prev_other) auto
  ultimately have "links ?lk2 None as (hd_opt bs)" "links ?lk1 (last_opt as) bs None"
    using d by (auto intro: links_splice_next links_splice_prev)
  moreover have "links ?lk2 (last_opt as) bs None = links ?lk1 (last_opt as) bs None"
    using d by (intro links_frame splice_next_other) auto
  ultimately have "links ?lk2 None as (hd_opt bs)" "links ?lk2 (last_opt as) bs None"
    by auto
  then show ?thesis by (simp add: links_append last_opt_def hd_opt_def)
qed

lemma unlink_page_rep:
  assumes rep: "lists_rep (lists s) L" and L: "L l = as @ p # bs"
  shows "\<exists>fs. unlink_page l p s = Inr (s\<lparr>lists := fs\<rparr>) \<and> lists_rep fs (L(l := as @ bs))"
proof -
  let ?lk = "link (lists s)" and ?q = "queue (lists s) l"
  have q: "fifo_rep ?lk ?q (as @ p # bs)" using lists_rep_fifo [OF rep, of l] L by simp
  then have d: "p \<notin> set as" "p \<notin> set bs" "set as \<inter> set bs = {}" "distinct as" "distinct bs"
    "distinct (as @ p # bs)" "links ?lk None (as @ p # bs) None"
    by (auto simp: fifo_rep_def)
  have m: "list_p (?lk x) = Some l" if "x \<in> insert p (set as \<union> set bs)" for x
    using lists_rep_mem [OF rep, of x l] L that by auto
  have ln: "prev_p (?lk p) = last_opt as" "next_p (?lk p) = hd_opt bs"
    using d(7) by (auto simp: links_append last_opt_def hd_opt_def)
  let ?lk2 = "splice_next (splice_prev ?lk (last_opt as) bs) as (hd_opt bs)"
  let ?q2 = "numentries_update (\<lambda>n. n - 1) (?q\<lparr>first_p := hd_opt (as @ bs), last_p := last_opt (as @ bs)\<rparr>)"
  define fs where "fs = (lists s)\<lparr>
      link := ?lk2(p := (?lk p)\<lparr>next_p := None, prev_p := None, list_p := None\<rparr>),
      queue := (queue (lists s))(l := ?q2)\<rparr>"
  have fl: "first_p ?q = hd_opt (as @ p # bs)" "last_p ?q = last_opt (as @ p # bs)"
    "numentries ?q = length (as @ p # bs)"
    using q by (auto simp: fifo_rep_def)
  have lp: "bs \<noteq> [] \<longrightarrow> last bs \<noteq> p" using d(2) last_in_set by metis
  have "unlink_page l p s = Inr (s\<lparr>lists := fs\<rparr>)"
  proof (cases as rule: rev_cases)
    case Nil
    then show ?thesis using fl ln d(1-3) lp
      by (cases bs) (simp_all add: unlink_page_def fifo_defs fs_def splice_prev_def splice_next_def
        last_opt_def upd_comm upd_same)
  next
    case (snoc ys y)
    then have "first_p ?q \<noteq> Some p" "hd_opt (as @ bs) = first_p ?q" using fl d(1)
      by (cases ys; auto)+
    then show ?thesis using fl(2,3) ln d(1-3) lp snoc
      by (cases bs) (simp_all add: unlink_page_def fifo_defs fs_def splice_prev_def splice_next_def
        last_opt_def upd_comm upd_same)
  qed
  moreover have "lists_rep fs (L(l := as @ bs))"
  proof (rule lists_rep_change [where X = "insert p (set as \<union> set bs)" and fs = "lists s"])
    have "links (link fs) None (as @ bs) None"
      using links_splice [OF d(7,6)] d by (subst links_cong [where lk' = ?lk2]) (auto simp: fs_def)
    then show "fifo_rep (link fs) (queue fs l) (as @ bs)"
      using q d by (simp add: fs_def fifo_rep_def)
    show "x \<notin> set (L l')" if "x \<in> insert p (set as \<union> set bs)" "l' \<noteq> l" for x l'
      using that L lists_rep_unique [OF rep, of x l l'] by auto
  qed (use rep L d m in \<open>auto simp: fs_def splice_prev_other splice_next_other lists_rep_mem\<close>)
  ultimately show ?thesis by blast
qed

lemma take_last_unlink:
  assumes q: "fifo_rep (link (lists s)) (queue (lists s) l) (xs @ [x])"
  shows "take_last l x s = unlink_page l x s"
proof (cases xs rule: rev_cases)
  case Nil
  with q show ?thesis
    by (simp add: take_last_def unlink_page_def fifo_defs fifo_rep_def upd_comm)
next
  case (snoc ys y)
  then have "prev_p (link (lists s) x) = Some y" "next_p (link (lists s) x) = None" "x \<noteq> y"
    "first_p (queue (lists s) l) \<noteq> Some x" "last_p (queue (lists s) l) = Some x"
    using q by (cases ys; auto simp: fifo_rep_def links_append last_opt_def)+
  with q show ?thesis
    by (simp add: take_last_def unlink_page_def fifo_defs fifo_rep_def upd_comm)
qed

lemma take_last_rep:
  assumes rep: "lists_rep (lists s) L" and L: "L l = xs @ [x]"
  shows "\<exists>fs. take_last l x s = Inr (s\<lparr>lists := fs\<rparr>) \<and> lists_rep fs (L(l := xs))"
  using unlink_page_rep [OF rep, of l xs x "[]"] lists_rep_fifo [OF rep, of l] L
  by (simp add: take_last_unlink)

lemma dequeue_fifo_rep:
  assumes rep: "lists_rep (lists s) L" and lk: "\<not> held s (List_lock l)"
  shows "dequeue_fifo l s = Inr (None, s) \<and> L l = [] \<or>
    (\<exists>fs xs x. dequeue_fifo l s = Inr (Some x, s\<lparr>lists := fs\<rparr>) \<and> L l = xs @ [x] \<and>
      lists_rep fs (L(l := xs)))"
proof (cases "L l" rule: rev_cases)
  case Nil
  then have "last_p (queue (lists s) l) = None" using lists_rep_fifo [OF rep, of l]
    by (simp add: fifo_rep_def)
  with lk Nil show ?thesis
    by (simp add: dequeue_fifo_def lock_def unlock_def fun_upd_idem)
next
  case (snoc xs x)
  let ?s = "s\<lparr>held := (held s)(List_lock l := True)\<rparr>"
  obtain fs where "take_last l x ?s = Inr (?s\<lparr>lists := fs\<rparr>)" "lists_rep fs (L(l := xs))"
    using take_last_rep [of ?s L l xs x] rep snoc by auto
  moreover have "last_p (queue (lists s) l) = Some x" using lists_rep_fifo [OF rep, of l] snoc
    by (simp add: fifo_rep_def)
  ultimately show ?thesis using lk snoc
    by (auto simp: dequeue_fifo_def lock_def unlock_def fun_upd_idem)
qed

lemma tryremove_rep:
  assumes rep: "lists_rep (lists s) L" and lk: "\<not> held s (List_lock l)"
    and l: "page_list s p = Some l"
  shows "\<exists>fs. page_list_tryremove_page (Some l) p s = Inr (0, s\<lparr>lists := fs\<rparr>) \<and>
    lists_rep fs (L(l := remove1 p (L l)))"
proof -
  let ?s = "s\<lparr>held := (held s)(List_lock l := True)\<rparr>"
  have "p \<in> set (L l)" using rep l by (simp add: lists_rep_def)
  then obtain as bs where ab: "L l = as @ p # bs" "p \<notin> set as" by (meson split_list_first)
  then obtain fs where "unlink_page l p ?s = Inr (?s\<lparr>lists := fs\<rparr>)" "lists_rep fs (L(l := as @ bs))"
    using unlink_page_rep [of ?s L l as p bs] rep by auto
  moreover have "first_p (queue (lists s) l) \<noteq> None"
    using fifo_rep_first_None [OF lists_rep_fifo [OF rep, of l]] ab by simp
  moreover have "remove1 p (L l) = as @ bs" using ab by (simp add: remove1_append)
  ultimately show ?thesis using l lk
    by (auto simp: page_list_tryremove_page_def lock_def unlock_def fun_upd_idem)
qed

lemma tryremove_other:
  assumes "\<not> held s (List_lock l)" and "page_list s p \<noteq> Some l"
  shows "page_list_tryremove_page (Some l) p s = Inr (-1, s)"
  using assms by (simp add: page_list_tryremove_page_def lock_def unlock_def fun_upd_idem)

lemma remove_page_rep:
  assumes rep: "lists_rep (lists s) L" and lk: "\<not> held s (List_lock l)"
    and l: "page_list s p = Some l"
  shows "\<exists>fs. page_list_remove_page l p s = Inr (s\<lparr>lists := fs\<rparr>) \<and>
    lists_rep fs (L(l := remove1 p (L l)))"
proof -
  have "p \<in> set (L l)" using rep l by (simp add: lists_rep_def)
  then have "first_p (queue (lists s) l) \<noteq> None"
    using fifo_rep_first_None [OF lists_rep_fifo [OF rep, of l]] by auto
  then have "page_list_tryremove_page (Some l) p s =
      bindE (page_list_remove_page l p s) (\<lambda>s. Inr (0, s))"
    using l by (auto simp: page_list_tryremove_page_def page_list_remove_page_def lock_def bindE_assoc)
  with tryremove_rep [OF assms] show ?thesis by (auto simp: bindE_Inr_iff)
qed

lemma dequeue_vector_loop_rep:
  assumes "lists_rep (lists s) L"
  shows "\<exists>fs. dequeue_vector_loop n l s = Inr (take n (rev (L l)), s\<lparr>lists := fs\<rparr>) \<and>
    lists_rep fs (L(l := rev (drop n (rev (L l)))))"
  using assms
proof (induction n arbitrary: s L)
  case 0
  then show ?case by (auto intro!: exI [of _ "lists s"])
next
  case (Suc n)
  note rep = Suc.prems
  show ?case
  proof (cases "L l" rule: rev_cases)
    case Nil
    then have "last_p (queue (lists s) l) = None" using lists_rep_fifo [OF rep, of l]
      by (simp add: fifo_rep_def)
    with Nil rep show ?thesis by (auto intro!: exI [of _ "lists s"] simp: fun_upd_idem)
  next
    case (snoc xs x)
    then obtain fs where fs: "take_last l x s = Inr (s\<lparr>lists := fs\<rparr>)" "lists_rep fs (L(l := xs))"
      using take_last_rep [OF rep] by blast
    moreover have "last_p (queue (lists s) l) = Some x" using lists_rep_fifo [OF rep, of l] snoc
      by (simp add: fifo_rep_def)
    moreover obtain fs' where "dequeue_vector_loop n l (s\<lparr>lists := fs\<rparr>) =
        Inr (take n (rev xs), s\<lparr>lists := fs'\<rparr>)" "lists_rep fs' (L(l := rev (drop n (rev xs))))"
      using Suc.IH [of "s\<lparr>lists := fs\<rparr>" "L(l := xs)"] fs(2)
      unfolding fun_upd_same fun_upd_upd by (auto simp del: fun_upd_apply)
    ultimately show ?thesis using snoc by (auto simp del: fun_upd_apply)
  qed
qed

section \<open>The interface of the queues\<close>

text \<open>
  What the policy relies on: a family of queues with insertion at the front, removal at the back
  and removal of a given page, over sequences; every page is in at most one queue; nothing but
  the queues changes (\<open>frame\<close> reads the rest of the state).
\<close>

locale page_queues =
  fixes enq :: "'l \<Rightarrow> 'p \<Rightarrow> 's \<Rightarrow> 'e + 's"
    and deq :: "'l \<Rightarrow> 's \<Rightarrow> 'e + 'p option \<times> 's"
    and del :: "'l \<Rightarrow> 'p \<Rightarrow> 's \<Rightarrow> 'e + int \<times> 's"
    and content :: "'s \<Rightarrow> 'l \<Rightarrow> 'p list"
    and place :: "'s \<Rightarrow> 'p \<Rightarrow> 'l option"
    and frame :: "'s \<Rightarrow> 'r"
    and ok :: "'s \<Rightarrow> bool"
  assumes place_content: "ok s \<Longrightarrow> place s p = Some l \<longleftrightarrow> p \<in> set (content s l)"
    and content_distinct: "ok s \<Longrightarrow> distinct (content s l)"
    and enq_spec: "ok s \<Longrightarrow> place s p = None \<Longrightarrow> \<exists>s'. enq l p s = Inr s' \<and> ok s' \<and>
          content s' = (content s)(l := p # content s l) \<and> frame s' = frame s"
    and deq_empty: "ok s \<Longrightarrow> content s l = [] \<Longrightarrow> deq l s = Inr (None, s)"
    and deq_spec: "ok s \<Longrightarrow> content s l = xs @ [x] \<Longrightarrow> \<exists>s'. deq l s = Inr (Some x, s') \<and> ok s' \<and>
          content s' = (content s)(l := xs) \<and> frame s' = frame s"
    and del_spec: "ok s \<Longrightarrow> place s p = Some l \<Longrightarrow> \<exists>s'. del l p s = Inr (0, s') \<and> ok s' \<and>
          content s' = (content s)(l := remove1 p (content s l)) \<and> frame s' = frame s"
    and del_other: "ok s \<Longrightarrow> place s p \<noteq> Some l \<Longrightarrow> del l p s = Inr (-1, s)"
begin

lemma place_None: "ok s \<Longrightarrow> place s p = None \<longleftrightarrow> (\<forall>l. p \<notin> set (content s l))"
  by (metis option.exhaust option.simps(3) place_content)

lemma content_disjoint: "ok s \<Longrightarrow> l \<noteq> l' \<Longrightarrow> set (content s l) \<inter> set (content s l') = {}"
  by (auto simp: place_content [symmetric])

text \<open>The page found by a removal is where the queue says, and nowhere afterwards.\<close>

lemma deq_place:
  assumes "ok s" "content s l = xs @ [x]" "ok s'" "content s' = (content s)(l := xs)"
  shows "place s x = Some l \<and> place s' x = None"
proof -
  have "x \<notin> set xs" using content_distinct [OF assms(1), of l] assms(2) by simp
  moreover have "x \<notin> set (content s l')" if "l' \<noteq> l" for l'
    using content_disjoint [OF assms(1), of l l'] that assms(2) by auto
  ultimately show ?thesis using assms by (auto simp: place_None place_content)
qed

text \<open>Moving the oldest page of one queue to another, the step of every scan of the policy.\<close>

lemma move_spec:
  assumes ok: "ok s" and l: "content s l = xs @ [x]" and ll: "l \<noteq> l'"
  shows "\<exists>s1 s2. deq l s = Inr (Some x, s1) \<and> enq l' x s1 = Inr s2 \<and> ok s2 \<and>
    content s2 = (content s)(l := xs, l' := x # content s l') \<and> frame s2 = frame s"
proof -
  obtain s1 where s1: "deq l s = Inr (Some x, s1)" "ok s1" "content s1 = (content s)(l := xs)"
    "frame s1 = frame s" using deq_spec [OF ok l] by blast
  then obtain s2 where "enq l' x s1 = Inr s2" "ok s2"
    "content s2 = (content s1)(l' := x # content s1 l')" "frame s2 = frame s1"
    using enq_spec [OF s1(2)] deq_place [OF ok l s1(2,3)] by blast
  with s1 ll show ?thesis by auto
qed

text \<open>An insertion undone by the removal of the same page.\<close>

lemma enq_del:
  assumes "ok s" "place s p = None"
  shows "\<exists>s1 s2. enq l p s = Inr s1 \<and> del l p s1 = Inr (0, s2) \<and> ok s2 \<and>
    content s2 = content s \<and> frame s2 = frame s"
proof -
  obtain s1 where s1: "enq l p s = Inr s1" "ok s1" "content s1 = (content s)(l := p # content s l)"
    "frame s1 = frame s" using enq_spec [OF assms] by blast
  then have "place s1 p = Some l" by (simp add: place_content)
  with s1 obtain s2 where "del l p s1 = Inr (0, s2)" "ok s2"
    "content s2 = (content s1)(l := remove1 p (content s1 l))" "frame s2 = frame s1"
    using del_spec by blast
  with s1 show ?thesis by auto
qed

end

definition queues_free :: "'k ext \<Rightarrow> bool" where
  "queues_free s \<longleftrightarrow> lists_ok (lists s) \<and> (\<forall>l. \<not> held s (List_lock l))"

definition other_state :: "'k ext \<Rightarrow> 'k ext" where
  "other_state s = s\<lparr>lists := \<lparr>link = (\<lambda>_. \<lparr>next_p = None, prev_p = None, list_p = None\<rparr>),
     queue = (\<lambda>_. \<lparr>first_p = None, last_p = None, numentries = 0\<rparr>)\<rparr>\<rparr>"

lemma queues_freeI:
  assumes "queues_free s" "lists_rep fs L"
  shows "queues_free (s\<lparr>lists := fs\<rparr>)" "seq (lists (s\<lparr>lists := fs\<rparr>)) = L"
    "other_state (s\<lparr>lists := fs\<rparr>) = other_state s"
  using lists_okI [OF assms(2)] assms(1) by (simp_all add: queues_free_def other_state_def)

lemma queues_freeD: "queues_free s \<Longrightarrow> lists_rep (lists s) (seq (lists s)) \<and> \<not> held s (List_lock l)"
  by (simp add: queues_free_def lists_ok_def)

interpretation fifo: page_queues enqueue_fifo dequeue_fifo
  "\<lambda>l. page_list_tryremove_page (Some l)" "\<lambda>s. seq (lists s)" page_list other_state queues_free
proof (unfold_locales, goal_cases)
  case (1 s p l)
  then show ?case by (simp add: queues_free_def lists_ok_mem)
next
  case (2 s l)
  then show ?case by (simp add: queues_free_def lists_ok_distinct)
next
  case (3 s p l)
  then obtain fs where "enqueue_fifo l p s = Inr (s\<lparr>lists := fs\<rparr>)"
    "lists_rep fs ((seq (lists s))(l := p # seq (lists s) l))"
    using enqueue_fifo_rep [of s "seq (lists s)" p l] queues_freeD [of s l] by blast
  with 3 queues_freeI [of s fs] show ?case by blast
next
  case (4 s l)
  then show ?case using dequeue_fifo_rep [of s "seq (lists s)" l] queues_freeD [of s l] by auto
next
  case (5 s l xs x)
  then obtain fs where "dequeue_fifo l s = Inr (Some x, s\<lparr>lists := fs\<rparr>)"
    "lists_rep fs ((seq (lists s))(l := xs))"
    using dequeue_fifo_rep [of s "seq (lists s)" l] queues_freeD [of s l] by auto
  with 5 queues_freeI [of s fs] show ?case by blast
next
  case (6 s p l)
  then obtain fs where "page_list_tryremove_page (Some l) p s = Inr (0, s\<lparr>lists := fs\<rparr>)"
    "lists_rep fs ((seq (lists s))(l := remove1 p (seq (lists s) l)))"
    using tryremove_rep [of s "seq (lists s)" l p] queues_freeD [of s l] by blast
  with 6 queues_freeI [of s fs] show ?case by blast
next
  case (7 s p l)
  then show ?case by (simp add: queues_free_def tryremove_other)
qed

section \<open>Rules for the proofs of the policy\<close>

lemma list_p_eqI:
  assumes "lists_ok fs" "\<And>l. p \<in> set (seq fs l) \<longleftrightarrow> x = Some l"
  shows "list_p (link fs p) = x"
  using assms by (cases x; cases "list_p (link fs p)") (auto simp: lists_ok_mem)

lemma enqueue_wp:
  assumes "queues_free s" "page_list s p = None"
    and Q: "\<And>fs. lists_ok fs \<Longrightarrow> seq fs = (seq (lists s))(l := p # seq (lists s) l) \<Longrightarrow>
      (\<And>q. list_p (link fs q) = (if q = p then Some l else page_list s q)) \<Longrightarrow>
      Q (s\<lparr>lists := fs\<rparr>)"
  shows "wpE (enqueue_fifo l p s) Q E"
proof -
  note ok = assms(1) [unfolded queues_free_def, THEN conjunct1]
  obtain fs where e: "enqueue_fifo l p s = Inr (s\<lparr>lists := fs\<rparr>)"
    and r: "lists_rep fs ((seq (lists s))(l := p # seq (lists s) l))"
    using enqueue_fifo_rep [of s "seq (lists s)" p l] queues_freeD [OF assms(1), of l] assms(2) by blast
  note fs = lists_okI [OF r, THEN conjunct1] lists_okI [OF r, THEN conjunct2]
  moreover note e
  moreover have "list_p (link fs q) = (if q = p then Some l else page_list s q)" for q
    using assms(2) ok fs lists_ok_mem [OF ok, of p] by (intro list_p_eqI [OF fs(1)]) (auto simp: lists_ok_mem)
  ultimately show ?thesis using Q by (simp add: wpE_Inr)
qed

lemma dequeue_wp:
  assumes "queues_free s"
    and N: "seq (lists s) l = [] \<Longrightarrow> Q (None, s)"
    and Q: "\<And>fs xs x. lists_ok fs \<Longrightarrow> seq (lists s) l = xs @ [x] \<Longrightarrow> page_list s x = Some l \<Longrightarrow>
      seq fs = (seq (lists s))(l := xs) \<Longrightarrow>
      (\<And>q. list_p (link fs q) = (if q = x then None else page_list s q)) \<Longrightarrow>
      Q (Some x, s\<lparr>lists := fs\<rparr>)"
  shows "wpE (dequeue_fifo l s) Q E"
proof (cases "seq (lists s) l" rule: rev_cases)
  case Nil
  then show ?thesis using fifo.deq_empty [OF assms(1)] N by (simp add: wpE_Inr)
next
  case (snoc xs x)
  note ok = assms(1) [unfolded queues_free_def, THEN conjunct1]
  obtain fs where e: "dequeue_fifo l s = Inr (Some x, s\<lparr>lists := fs\<rparr>)"
    and fs: "lists_ok fs" "seq fs = (seq (lists s))(l := xs)"
    using dequeue_fifo_rep [of s "seq (lists s)" l] queues_freeD [OF assms(1), of l] snoc
      lists_okI by auto
  have x: "x \<notin> set xs" "page_list s x = Some l"
    using lists_ok_distinct [OF ok, of l] lists_ok_mem [OF ok, of x l] snoc by auto
  have xs: "q \<in> set xs \<longleftrightarrow> page_list s q = Some l \<and> q \<noteq> x" for q
    using lists_ok_mem [OF ok, of q l] snoc x by auto
  have "list_p (link fs q) = (if q = x then None else page_list s q)" for q
    using fs(2) x xs lists_ok_mem [OF ok, of q] by (intro list_p_eqI [OF fs(1)]) auto
  with e fs x snoc Q show ?thesis by (simp add: wpE_Inr)
qed

lemma tryremove_wp:
  assumes "queues_free s" "page_list s p = Some l"
    and Q: "\<And>fs. lists_ok fs \<Longrightarrow> seq fs = (seq (lists s))(l := remove1 p (seq (lists s) l)) \<Longrightarrow>
      (\<And>q. list_p (link fs q) = (if q = p then None else page_list s q)) \<Longrightarrow>
      Q (0, s\<lparr>lists := fs\<rparr>)"
  shows "wpE (page_list_tryremove_page (Some l) p s) Q E"
proof -
  note ok = assms(1) [unfolded queues_free_def, THEN conjunct1]
  obtain fs where e: "page_list_tryremove_page (Some l) p s = Inr (0, s\<lparr>lists := fs\<rparr>)"
    and r: "lists_rep fs ((seq (lists s))(l := remove1 p (seq (lists s) l)))"
    using tryremove_rep [of s "seq (lists s)" l p] queues_freeD [OF assms(1), of l] assms(2) by blast
  note fs = lists_okI [OF r, THEN conjunct1] lists_okI [OF r, THEN conjunct2]
  moreover note e
  moreover have "list_p (link fs q) = (if q = p then None else page_list s q)" for q
    using assms(2) fs(2) lists_ok_mem [OF ok, of q] lists_ok_distinct [OF ok]
    by (intro list_p_eqI [OF fs(1)]) auto
  ultimately show ?thesis using Q by (simp add: wpE_Inr)
qed

lemma dequeue_vector_wp:
  assumes "queues_free s"
    and Q: "\<And>fs. lists_ok fs \<Longrightarrow>
      seq fs = (seq (lists s))(l := rev (drop n (rev (seq (lists s) l)))) \<Longrightarrow>
      (\<And>q. list_p (link fs q) =
        (if q \<in> set (take n (rev (seq (lists s) l))) then None else page_list s q)) \<Longrightarrow>
      Q (take n (rev (seq (lists s) l)), s\<lparr>lists := fs\<rparr>)"
  shows "wpE (dequeue_fifo_vector l n s) Q E"
proof -
  note ok = assms(1) [unfolded queues_free_def, THEN conjunct1]
  let ?xs = "rev (seq (lists s) l)" and ?s = "s\<lparr>held := (held s)(List_lock l := True)\<rparr>"
  obtain fs where e: "dequeue_vector_loop n l ?s = Inr (take n ?xs, ?s\<lparr>lists := fs\<rparr>)"
    and r: "lists_rep fs ((seq (lists s))(l := rev (drop n ?xs)))"
    using dequeue_vector_loop_rep [of ?s "seq (lists s)" n l] ok [unfolded lists_ok_def] by auto
  note fs = lists_okI [OF r, THEN conjunct1] lists_okI [OF r, THEN conjunct2]
  have d: "set (take n ?xs) \<inter> set (drop n ?xs) = {}"
    using lists_ok_distinct [OF ok, of l] by (intro set_take_disj_set_drop_if_distinct) auto
  have m: "page_list s q = Some l \<longleftrightarrow> q \<in> set (take n ?xs) \<union> set (drop n ?xs)" for q
    by (metis append_take_drop_id lists_ok_mem [OF ok] set_append set_rev)
  have "list_p (link fs q) = (if q \<in> set (take n ?xs) then None else page_list s q)" for q
    using fs(2) d m [of q] lists_ok_mem [OF ok, of q] by (intro list_p_eqI [OF fs(1)]) auto
  with e fs Q queues_freeD [OF assms(1), of l] show ?thesis
    by (simp add: dequeue_fifo_vector_def lock_def unlock_def wpE_Inr fun_upd_idem)
qed

lemma queues_free_upd [simp]:
  "queues_free (s\<lparr>lists := fs\<rparr>) \<longleftrightarrow> lists_ok fs \<and> (\<forall>l. \<not> held s (List_lock l))"
  "queues_free (s\<lparr>heap := h\<rparr>) = queues_free s"
  "queues_free (s\<lparr>kst := k\<rparr>) = queues_free s"
  "queues_free (s\<lparr>stats := c\<rparr>) = queues_free s"
  "queues_free (s\<lparr>tls := f\<rparr>) = queues_free s"
  by (simp_all add: queues_free_def)

section \<open>The vector version takes the same pages\<close>

text \<open>\<open>nr_fetch\<close> single removals, as far as the queue has pages.\<close>

fun dequeue_repeat :: "nat \<Rightarrow> list_id \<Rightarrow> 'k ext \<Rightarrow> c_error + page_ptr list \<times> 'k ext" where
  "dequeue_repeat 0 l s = Inr ([], s)"
| "dequeue_repeat (Suc n) l s =
     bindE (dequeue_fifo l s) (\<lambda>(p, s). case p of
         None \<Rightarrow> Inr ([], s)
       | Some p \<Rightarrow> bindE (dequeue_repeat n l s) (\<lambda>(ps, s). Inr (p # ps, s)))"

lemma unlock_lock: "\<not> held s m \<Longrightarrow> unlock m (s\<lparr>held := (held s)(m := True)\<rparr>) = s"
  by (simp add: unlock_def fun_upd_idem)

lemma take_last_held:
  "take_last l p (s\<lparr>held := h\<rparr>) = bindE (take_last l p s) (\<lambda>s'. Inr (s'\<lparr>held := h\<rparr>))"
  "take_last l p s = Inr s' \<Longrightarrow> held s' = held s"
  by (auto simp: take_last_def set_link_def set_queue_def Let_def assertE_def split: option.splits if_splits)

lemma dequeue_vector_loop_held:
  assumes "\<not> held s (List_lock l)"
  shows "bindE (dequeue_vector_loop n l (s\<lparr>held := (held s)(List_lock l := True)\<rparr>)) (\<lambda>(ps, s). Inr (ps, unlock (List_lock l) s)) =
    dequeue_repeat n l s"
  using assms
proof (induction n arbitrary: s)
  case 0
  then show ?case by (simp add: unlock_lock del: fun_upd_apply)
next
  case (Suc n)
  let ?h = "(held s)(List_lock l := True)"
  show ?case
  proof (cases "last_p (queue (lists s) l)")
    case None
    then show ?thesis using Suc.prems by (simp add: dequeue_fifo_def lock_def unlock_lock del: fun_upd_apply)
  next
    case (Some p)
    show ?thesis
    proof (cases "take_last l p s")
      case (Inl e)
      then show ?thesis using Some Suc.prems by (simp add: dequeue_fifo_def lock_def take_last_held(1))
    next
      case (Inr s')
      have h: "held s' = held s" using take_last_held(2) [OF Inr] .
      have eq: "unlock (List_lock l) (s'\<lparr>held := ?h\<rparr>) = s'" using unlock_lock [of s' "List_lock l"] h Suc.prems by simp
      have "dequeue_fifo l s = Inr (Some p, s')" using Some Inr Suc.prems eq
        by (simp add: dequeue_fifo_def lock_def take_last_held(1) del: fun_upd_apply)
      moreover have "dequeue_repeat n l s' = bindE (dequeue_vector_loop n l (s'\<lparr>held := ?h\<rparr>)) (\<lambda>(ps, s). Inr (ps, unlock (List_lock l) s))"
        using Suc.IH [of s'] Suc.prems unfolding h by (simp del: fun_upd_apply)
      ultimately show ?thesis using Some Inr
        by (simp add: take_last_held(1) bindE_assoc case_prod_beta del: fun_upd_apply)
    qed
  qed
qed

lemma dequeue_vector_is_repeat: "\<not> held s (List_lock l) \<Longrightarrow> dequeue_fifo_vector l n s = dequeue_repeat n l s"
  using dequeue_vector_loop_held [of s l n] by (simp add: dequeue_fifo_vector_def lock_def)

end
