(* ===== verification/Core_Migrate.thy ===== *)
theory Core_Migrate
  imports Observability Fifo
begin

text \<open>
  The part of \<open>core.c\<close> that moves the contents of one page between DRAM and the disk and that
  write-protects a page. The policy calls these functions; they in turn call the storage back end
  and \<open>userfaultfd\<close>. Each of them also moves the descriptor to its new place: \<open>virtual_offset\<close>
  and \<open>in_dram\<close> say where the contents are.
\<close>

section \<open>Constants of the mmap interface (x86-64 Linux)\<close>

definition PROT_READ :: u32 where "PROT_READ = 1"
definition PROT_WRITE :: u32 where "PROT_WRITE = 2"
definition MAP_SHARED :: u32 where "MAP_SHARED = 1"
definition MAP_PRIVATE :: u32 where "MAP_PRIVATE = 2"
definition MAP_ANONYMOUS :: u32 where "MAP_ANONYMOUS = 0x20"
definition MAP_NORESERVE :: u32 where "MAP_NORESERVE = 0x4000"
definition MAP_POPULATE :: u32 where "MAP_POPULATE = 0x8000"
definition MAP_STACK :: u32 where "MAP_STACK = 0x20000"
definition MAP_HUGETLB :: u32 where "MAP_HUGETLB = 0x40000"

lemmas mmap_consts = PROT_READ_def PROT_WRITE_def MAP_SHARED_def MAP_PRIVATE_def MAP_ANONYMOUS_def
  MAP_NORESERVE_def MAP_POPULATE_def MAP_STACK_def MAP_HUGETLB_def

text \<open>An anonymous private mapping for the library's own use; a failure stops the process.\<close>

definition libc_mmap_anon :: "'k kernel \<Rightarrow> u64 \<Rightarrow> 'k ext \<Rightarrow> c_error + u64 \<times> 'k ext" where
  "libc_mmap_anon K len s =
     (case k_mmap K 0 len (PROT_READ OR PROT_WRITE) (MAP_PRIVATE OR MAP_ANONYMOUS OR MAP_NORESERVE) 0 (kst s) of
        (None, k) \<Rightarrow> Inl Kernel_failed
      | (Some a, k) \<Rightarrow> Inr (a, s\<lparr>kst := k\<rparr>))"

section \<open>Swap in\<close>

text \<open>The thread's one-page buffer, mapped at its first use.\<close>

definition alloc_buffer :: "'k kernel \<Rightarrow> 'k ext \<Rightarrow> c_error + 'k ext" where
  "alloc_buffer K s =
     (if \<not> buffer_allocated (me s) then
        bindE (libc_mmap_anon K PAGE_SIZE s) (\<lambda>(a, s).
        Inr (upd_me (\<lambda>t. t\<lparr>buffer_space := a, buffer_allocated := True\<rparr>) s))
      else Inr s)"

definition extmem_migrate_updisk :: "'k kernel \<Rightarrow> page_ptr \<Rightarrow> u64 \<Rightarrow> 'k ext \<Rightarrow> c_error + 'k ext" where
  "extmem_migrate_updisk K page dram_offset s =
     bindE (assertE (\<not> in_dram (heap s page))) (\<lambda>_.
     bindE (alloc_buffer K s) (\<lambda>s.
     let pagesize = pt_to_pagesize (pt (heap s page));
         disk_addr_offset = virtual_offset (heap s page) in
     bindE (assertE (disk_addr_offset < disksize s)) (\<lambda>_.
     bindE (assertE (dram_offset < dramsize s)) (\<lambda>_.
     bindE (ioring_read_store K (diskfd s) disk_addr_offset (buffer_space (me s)) pagesize s) (\<lambda>s.
     bindE (kcall (k_uffd_copy K (va (heap s page)) (buffer_space (me s)) pagesize) s) (\<lambda>s.
     bindE (assertE (va (heap s page) mod PAGE_SIZE = 0)) (\<lambda>_.
     let s = count (\<lambda>c. c\<lparr>migrations_up := migrations_up c + 1\<rparr>) s;
         s = upd_page page (\<lambda>h. h\<lparr>virtual_offset := dram_offset, in_dram := True\<rparr>) s in
     Inr (count (\<lambda>c. c\<lparr>bytes_migrated := bytes_migrated c + pagesize\<rparr>) s))))))))"

definition core_migrate_up_async_start :: "'k kernel \<Rightarrow> page_ptr \<Rightarrow> 'k ext \<Rightarrow> c_error + 'k ext" where
  "core_migrate_up_async_start K page s =
     bindE (assertE (\<not> in_dram (heap s page))) (\<lambda>_.
     bindE (alloc_buffer K s) (\<lambda>s.
     let pagesize = pt_to_pagesize (pt (heap s page));
         disk_addr_offset = virtual_offset (heap s page) in
     bindE (assertE (disk_addr_offset < disksize s)) (\<lambda>_.
     bindE (assertE (disk_addr_offset + pagesize \<le> disksize s)) (\<lambda>_.
     ioring_start_read K (diskfd s) disk_addr_offset (buffer_space (me s)) pagesize s))))"

definition core_migrate_up_async_finish :: "'k kernel \<Rightarrow> page_ptr \<Rightarrow> u64 \<Rightarrow> 'k ext \<Rightarrow> c_error + 'k ext" where
  "core_migrate_up_async_finish K page dram_offset s =
     bindE (assertE (\<not> in_dram (heap s page))) (\<lambda>_.
     bindE (assertE (buffer_allocated (me s))) (\<lambda>_.
     let pagesize = pt_to_pagesize (pt (heap s page));
         disk_addr_offset = virtual_offset (heap s page) in
     bindE (assertE (disk_addr_offset < disksize s)) (\<lambda>_.
     bindE (assertE (disk_addr_offset + pagesize \<le> disksize s)) (\<lambda>_.
     bindE (assertE (dram_offset < dramsize s)) (\<lambda>_.
     bindE (assertE (dram_offset + pagesize \<le> dramsize s)) (\<lambda>_.
     bindE (ioring_finish_read K (diskfd s) disk_addr_offset (buffer_space (me s)) pagesize s) (\<lambda>s.
     bindE (kcall (k_uffd_copy K (va (heap s page)) (buffer_space (me s)) pagesize) s) (\<lambda>s.
     bindE (assertE (va (heap s page) mod PAGE_SIZE = 0)) (\<lambda>_.
     let s = count (\<lambda>c. c\<lparr>migrations_up := migrations_up c + 1\<rparr>) s;
         s = upd_page page (\<lambda>h. h\<lparr>virtual_offset := dram_offset, in_dram := True\<rparr>) s in
     Inr (count (\<lambda>c. c\<lparr>bytes_migrated := bytes_migrated c + pagesize\<rparr>) s))))))))))"

section \<open>Swap out\<close>

definition extmem_migrate_downdisk :: "'k kernel \<Rightarrow> page_ptr \<Rightarrow> u64 \<Rightarrow> bool \<Rightarrow> bool \<Rightarrow> 'k ext \<Rightarrow> c_error + 'k ext" where
  "extmem_migrate_downdisk K page disk_offset need_wp writeback s =
     (let s = upd_page page (\<lambda>h. h\<lparr>migrating := True\<rparr>) s in
     bindE (assertE (in_dram (heap s page))) (\<lambda>_.
     let pagesize = pt_to_pagesize (pt (heap s page));
         old_addr_offset = virtual_offset (heap s page) in
     bindE (assertE (old_addr_offset < dramsize s)) (\<lambda>_.
     bindE (assertE (old_addr_offset + pagesize \<le> dramsize s)) (\<lambda>_.
     bindE (assertE (disk_offset < disksize s)) (\<lambda>_.
     bindE (assertE (disk_offset + pagesize \<le> disksize s)) (\<lambda>_.
     bindE (if writeback
            then ioring_write_store K (diskfd s) disk_offset (va (heap s page)) pagesize s
            else Inr s) (\<lambda>s.
     bindE (kcall (k_madvise_dontneed K (va (heap s page)) pagesize) s) (\<lambda>s.
     let s = count (\<lambda>c. c\<lparr>migrations_down := migrations_down c + 1\<rparr>) s;
         s = upd_page page (\<lambda>h. h\<lparr>virtual_offset := disk_offset, in_dram := False\<rparr>) s;
         s = count (\<lambda>c. c\<lparr>bytes_migrated := bytes_migrated c + pagesize\<rparr>) s in
     bindE (lock Handler_lock s) (\<lambda>s.
     bindE (assertE (\<not> swapped_out (heap s page))) (\<lambda>_.
     let s = upd_page page (\<lambda>h. h\<lparr>swapped_out := True\<rparr>) s in
     bindE (assertE (migrating (heap s page))) (\<lambda>_.
     Inr (unlock Handler_lock s))))))))))))"

text \<open>
  The vector version takes the arrays \<open>page\<close>, \<open>diskpage\<close> and \<open>writeback\<close> of length
  \<open>nr_evicting\<close> as one list of triples; each of its loops is a recursion over that list.
\<close>

type_synonym eviction = "page_ptr \<times> page_ptr \<times> bool"

fun prepare_writes :: "'k kernel \<Rightarrow> eviction list \<Rightarrow> 'k ext \<Rightarrow> c_error + nat \<times> 'k ext" where
  "prepare_writes K [] s = Inr (0, s)"
| "prepare_writes K ((page, diskpage, writeback) # xs) s =
     bindE (assertE (in_dram (heap s page))) (\<lambda>_.
     if writeback then
       let new_addr = virtual_offset (heap s diskpage) in
       bindE (ioring_prepare_write K (diskfd s) new_addr (va (heap s page)) PAGE_SIZE s) (\<lambda>s.
       bindE (prepare_writes K xs s) (\<lambda>(nr_submitted, s). Inr (nr_submitted + 1, s)))
     else prepare_writes K xs s)"

fun finish_writes :: "'k kernel \<Rightarrow> nat \<Rightarrow> 'k ext \<Rightarrow> c_error + 'k ext" where
  "finish_writes K 0 s = Inr s"
| "finish_writes K (Suc n) s = bindE (ioring_finish_write K s) (finish_writes K n)"

fun drop_mappings :: "'k kernel \<Rightarrow> eviction list \<Rightarrow> 'k ext \<Rightarrow> c_error + 'k ext" where
  "drop_mappings K [] s = Inr s"
| "drop_mappings K ((page, _, _) # xs) s =
     bindE (kcall (k_madvise_dontneed K (va (heap s page)) PAGE_SIZE) s) (drop_mappings K xs)"

fun move_to_disk :: "eviction list \<Rightarrow> 'k ext \<Rightarrow> 'k ext" where
  "move_to_disk [] s = s"
| "move_to_disk ((page, diskpage, _) # xs) s =
     (let s = count (\<lambda>c. c\<lparr>migrations_down := migrations_down c + 1\<rparr>) s;
          s = upd_page page (\<lambda>h. h\<lparr>virtual_offset := virtual_offset (heap s diskpage), in_dram := False\<rparr>) s;
          s = count (\<lambda>c. c\<lparr>bytes_migrated := bytes_migrated c + PAGE_SIZE\<rparr>) s in
      move_to_disk xs s)"

fun mark_swapped_out :: "eviction list \<Rightarrow> 'k ext \<Rightarrow> c_error + 'k ext" where
  "mark_swapped_out [] s = Inr s"
| "mark_swapped_out ((page, _, _) # xs) s =
     bindE (assertE (\<not> swapped_out (heap s page))) (\<lambda>_.
     let s = upd_page page (\<lambda>h. h\<lparr>swapped_out := True\<rparr>) s in
     bindE (assertE (migrating (heap s page))) (\<lambda>_. mark_swapped_out xs s))"

definition extmem_migrate_downdisk_vector :: "'k kernel \<Rightarrow> eviction list \<Rightarrow> 'k ext \<Rightarrow> c_error + 'k ext" where
  "extmem_migrate_downdisk_vector K xs s =
     bindE (prepare_writes K xs s) (\<lambda>(nr_submitted, s).
     bindE (ioring_submit_all_writes K s) (\<lambda>s.
     bindE (finish_writes K nr_submitted s) (\<lambda>s.
     bindE (drop_mappings K xs s) (\<lambda>s.
     let s = move_to_disk xs s in
     bindE (lock Handler_lock s) (\<lambda>s.
     bindE (mark_swapped_out xs s) (\<lambda>s.
     Inr (unlock Handler_lock s)))))))"

definition extmem_wp_page :: "'k kernel \<Rightarrow> page_ptr \<Rightarrow> bool \<Rightarrow> 'k ext \<Rightarrow> c_error + 'k ext" where
  "extmem_wp_page K page protect s =
     (let addr = va (heap s page); pagesize = pt_to_pagesize (pt (heap s page)) in
     bindE (assertE (addr \<noteq> 0)) (\<lambda>_.
     bindE (assertE (addr mod PAGE_SIZE = 0)) (\<lambda>_.
     kcall (k_uffd_writeprotect K addr pagesize protect) s)))"

section \<open>What a migration leaves alone\<close>

text \<open>
  \<open>env s s'\<close>: the index, the locks, the sizes and the other globals are the same in both states,
  what the threads had set up is still set up, no scan is left running, and the address of the last major fault that
  \<open>pageRank.c\<close> keeps stays page-aligned. Page contents, queues, counters and the kernel may differ.
\<close>

definition env :: "'k ext \<Rightarrow> 'k ext \<Rightarrow> bool" where
  "env s s' \<longleftrightarrow> nalloc s' = nalloc s \<and> pages s' = pages s \<and> held s' = held s \<and> cur s' = cur s \<and>
     dramsize s' = dramsize s \<and> disksize s' = disksize s \<and> diskfd s' = diskfd s \<and>
     is_init s' = is_init s \<and> main_mmap s' = main_mmap s \<and> page_cache s' = page_cache s \<and>
     (kswapd_running s' \<longrightarrow> kswapd_running s) \<and> (shrinkage_running s' \<longrightarrow> shrinkage_running s) \<and>
     (page_aligned (safe_to_free s) \<longrightarrow> page_aligned (safe_to_free s')) \<and> tls_le (tls s) (tls s')"

lemma env_refl [simp]: "env s s"
  by (simp add: env_def)

lemma env_trans [trans]: "env s s' \<Longrightarrow> env s' s'' \<Longrightarrow> env s s''"
  by (auto simp: env_def intro: tls_le_trans)

lemma env_upd [simp]:
  "env s (s'\<lparr>heap := h\<rparr>) = env s s'" "env s (s'\<lparr>lists := l\<rparr>) = env s s'"
  "env s (s'\<lparr>kst := k\<rparr>) = env s s'" "env s (s'\<lparr>stats := c\<rparr>) = env s s'"
  "env s (s'\<lparr>kswapd_at := x\<rparr>) = env s s'" "env s (count f s') = env s s'"
  "env s (upd_page p g s') = env s s'" "env s (kdo kf s') = env s s'"
  by (simp_all add: env_def count_def upd_page_def kdo_def)

lemma env_upd_left [simp]:
  "env (s\<lparr>heap := h\<rparr>) s' = env s s'" "env (s\<lparr>lists := l\<rparr>) s' = env s s'"
  "env (s\<lparr>kst := k\<rparr>) s' = env s s'" "env (upd_page p g s) s' = env s s'"
  "env (count f s) s' = env s s'"
  by (simp_all add: env_def upd_page_def count_def)

lemma upd_page_simps [simp]:
  "heap (upd_page p f s) = (heap s)(p := f (heap s p))" "lists (upd_page p f s) = lists s"
  "pages (upd_page p f s) = pages s" "held (upd_page p f s) = held s" "tls (upd_page p f s) = tls s"
  "cur (upd_page p f s) = cur s" "dramsize (upd_page p f s) = dramsize s"
  "disksize (upd_page p f s) = disksize s" "nalloc (upd_page p f s) = nalloc s"
  "kst (upd_page p f s) = kst s" "diskfd (upd_page p f s) = diskfd s"
  by (simp_all add: upd_page_def)

lemma count_simps [simp]:
  "heap (count f s) = heap s" "lists (count f s) = lists s" "pages (count f s) = pages s"
  "held (count f s) = held s" "tls (count f s) = tls s" "cur (count f s) = cur s"
  "dramsize (count f s) = dramsize s" "disksize (count f s) = disksize s"
  "nalloc (count f s) = nalloc s" "kst (count f s) = kst s" "diskfd (count f s) = diskfd s"
  by (simp_all add: count_def)

lemma unlock_simps [simp]:
  "heap (unlock m s) = heap s" "lists (unlock m s) = lists s" "pages (unlock m s) = pages s"
  "held (unlock m s) = (held s)(m := False)" "tls (unlock m s) = tls s" "cur (unlock m s) = cur s"
  "dramsize (unlock m s) = dramsize s" "disksize (unlock m s) = disksize s"
  "nalloc (unlock m s) = nalloc s" "kst (unlock m s) = kst s" "diskfd (unlock m s) = diskfd s"
  by (simp_all add: unlock_def)

lemma env_tls: "env s s' \<Longrightarrow> tls_le (tls s) t \<Longrightarrow> env s (s'\<lparr>tls := t\<rparr>)"
  by (simp add: env_def)

text \<open>A storage call, for the rest of the code: only \<open>kst\<close> and \<open>tls\<close> are new.\<close>

lemma io_wp:
  assumes "wpE r (io_only s) (\<lambda>e. e = Kernel_failed)"
    and "\<And>k t. tls_le (tls s) t \<Longrightarrow> Q (s\<lparr>kst := k, tls := t\<rparr>)" "E Kernel_failed"
  shows "wpE r Q E"
  by (rule wpE_mono [OF assms(1)]) (use assms(2,3) in \<open>auto elim: io_onlyE\<close>)

lemma alloc_buffer_wp:
  assumes "\<And>k t. tls_le (tls s) t \<Longrightarrow> buffer_allocated (t (cur s)) \<Longrightarrow> Q (s\<lparr>kst := k, tls := t\<rparr>)"
    and "E Kernel_failed"
  shows "wpE (alloc_buffer K s) Q E"
proof (cases "buffer_allocated (me s)")
  case True
  then show ?thesis using assms(1) [of "tls s" "kst s"] by (simp add: alloc_buffer_def wp_simps)
next
  case False
  have "Q (s\<lparr>kst := k, tls := (tls s)(cur s := me s\<lparr>buffer_space := a, buffer_allocated := True\<rparr>)\<rparr>)" for k a
    by (rule assms(1)) (simp_all add: tls_le_upd)
  with False assms(2) show ?thesis
    by (auto simp: alloc_buffer_def libc_mmap_anon_def wp_simps upd_me_def split: prod.splits option.splits)
qed

text \<open>The result of moving a descriptor to another place.\<close>

abbreviation placed :: "u64 \<Rightarrow> bool \<Rightarrow> user_page \<Rightarrow> user_page" where
  "placed off dram h \<equiv> h\<lparr>virtual_offset := off, in_dram := dram\<rparr>"

lemma updisk_wp:
  assumes "\<not> in_dram (heap s p)" "page_aligned (va (heap s p))"
    "virtual_offset (heap s p) < disksize s" "off < dramsize s"
    and Q: "\<And>s'. heap s' = (heap s)(p := placed off True (heap s p)) \<Longrightarrow> lists s' = lists s \<Longrightarrow>
      env s s' \<Longrightarrow> Q s'"
    and E: "E Kernel_failed"
  shows "wpE (extmem_migrate_updisk K p off s) Q E"
  using assms(1-4)
  apply (simp add: extmem_migrate_updisk_def Let_def wp_simps page_aligned_def)
  apply (rule alloc_buffer_wp, simp)
  apply (rule io_wp [OF ioring_io(1)])
  apply (auto intro!: Q env_tls E intro: tls_le_trans)
  done

lemma async_start_wp:
  assumes "\<not> in_dram (heap s p)" "pt (heap s p) = BASEP"
    "virtual_offset (heap s p) < disksize s" "virtual_offset (heap s p) + PAGE_SIZE \<le> disksize s"
    and Q: "\<And>k t. tls_le (tls s) t \<Longrightarrow> buffer_allocated (t (cur s)) \<Longrightarrow> uring_read_init (t (cur s)) \<Longrightarrow>
      Q (s\<lparr>kst := k, tls := t\<rparr>)"
    and E: "E Kernel_failed"
  shows "wpE (core_migrate_up_async_start K p s) Q E"
  using assms(1-4)
  apply (simp add: core_migrate_up_async_start_def Let_def wp_simps)
  apply (rule alloc_buffer_wp, simp)
  apply (rule wpE_mono [OF wpE_conj [OF ioring_io(3) read_ring_open(1)]])
  apply (auto elim!: io_onlyE intro!: Q E intro: tls_le_trans simp: tls_le_def)
  done

lemma async_finish_wp:
  assumes "\<not> in_dram (heap s p)" "pt (heap s p) = BASEP" "page_aligned (va (heap s p))"
    "buffer_allocated (me s)" "uring_read_init (me s)"
    "virtual_offset (heap s p) < disksize s" "virtual_offset (heap s p) + PAGE_SIZE \<le> disksize s"
    "off < dramsize s" "off + PAGE_SIZE \<le> dramsize s"
    and Q: "\<And>s'. heap s' = (heap s)(p := placed off True (heap s p)) \<Longrightarrow> lists s' = lists s \<Longrightarrow>
      env s s' \<Longrightarrow> Q s'"
    and E: "E Kernel_failed"
  shows "wpE (core_migrate_up_async_finish K p off s) Q E"
  using assms(1-9)
  apply (simp add: core_migrate_up_async_finish_def Let_def wp_simps page_aligned_def)
  apply (rule io_wp [OF ioring_finish_read_io])
  apply (auto intro!: Q env_tls E intro: tls_le_trans)
  done

lemma wp_page_wp:
  assumes "va (heap s p) \<noteq> 0" "page_aligned (va (heap s p))"
    and "\<And>k. Q (s\<lparr>kst := k\<rparr>)" "E Kernel_failed"
  shows "wpE (extmem_wp_page K p b s) Q E"
  using assms by (simp add: extmem_wp_page_def Let_def wp_simps page_aligned_def)

lemma get_bits_wp:
  assumes "page_aligned (va (heap s p))"
    and "\<And>bits k. Q (bits, s\<lparr>kst := k\<rparr>)" "E Kernel_failed"
  shows "wpE (pt_get_bits K p s) Q E"
  using assms by (auto simp: pt_get_bits_def Let_def wp_simps page_aligned_def split: prod.splits option.splits)

lemma downdisk_wp:
  assumes "in_dram (heap s p)" "pt (heap s p) = BASEP" "\<not> swapped_out (heap s p)" "\<not> held s Handler_lock"
    "virtual_offset (heap s p) < dramsize s" "virtual_offset (heap s p) + PAGE_SIZE \<le> dramsize s"
    "off < disksize s" "off + PAGE_SIZE \<le> disksize s"
    and Q: "\<And>s'. heap s' = (heap s)(p := (placed off False (heap s p))\<lparr>migrating := True, swapped_out := True\<rparr>) \<Longrightarrow>
      lists s' = lists s \<Longrightarrow> env s s' \<Longrightarrow> Q s'"
    and E: "E Kernel_failed"
  shows "wpE (extmem_migrate_downdisk K p off wp wb s) Q E"
proof -
  have Q': "Q (unlock Handler_lock (upd_page p (\<lambda>h. h\<lparr>swapped_out := True\<rparr>)
      (count f2 (upd_page p (placed off False) (count f1 u))\<lparr>held := (held s)(Handler_lock := True)\<rparr>)))"
    if "heap u = (heap s)(p := (heap s p)\<lparr>migrating := True\<rparr>)" "lists u = lists s" "env s u" for u f1 f2
    using that assms(4) by (intro Q) (auto simp: env_def unlock_def count_def upd_page_def fun_upd_idem)
  show ?thesis
    using assms(1-8)
    apply (simp add: extmem_migrate_downdisk_def Let_def wp_simps)
    apply (intro conjI impI)
     apply (rule io_wp [OF ioring_io(2)])
     apply (auto intro!: Q' E env_tls)
    done
qed

subsection \<open>The vector version\<close>

abbreviation victims :: "eviction list \<Rightarrow> page_ptr list" where
  "victims xs \<equiv> map fst xs"

abbreviation targets :: "eviction list \<Rightarrow> page_ptr list" where
  "targets xs \<equiv> map (fst \<circ> snd) xs"

definition target_of :: "eviction list \<Rightarrow> page_ptr \<Rightarrow> page_ptr option" where
  "target_of xs = map_of (map (\<lambda>(p, d, _). (p, d)) xs)"

lemma target_of_simps [simp]:
  "target_of [] q = None"
  "target_of ((p, d, w) # xs) q = (if q = p then Some d else target_of xs q)"
  by (simp_all add: target_of_def)

lemma target_of_None: "target_of xs q = None \<longleftrightarrow> q \<notin> set (victims xs)"
  by (induction xs) (auto split: if_splits)

lemma target_of_mem: "target_of xs q = Some d \<Longrightarrow> d \<in> set (targets xs)"
  by (induction xs) (auto split: if_splits)

lemma prepare_writes_io:
  "\<forall>p \<in> set (victims xs). in_dram (heap s p) \<Longrightarrow>
     wpE (prepare_writes K xs s) (\<lambda>r. io_only s (snd r)) (\<lambda>e. e = Kernel_failed)"
proof (induction xs arbitrary: s)
  case (Cons x xs)
  obtain p d w where x: "x = (p, d, w)" by (cases x)
  have IH: "wpE (prepare_writes K xs s') (\<lambda>r. io_only s (snd r)) (\<lambda>e. e = Kernel_failed)" if "io_only s s'" for s'
  proof (rule wpE_mono [OF Cons.IH])
    show "\<forall>p \<in> set (victims xs). in_dram (heap s' p)" using that Cons.prems by (elim io_onlyE) simp
  qed (use that in \<open>auto intro: io_only_trans\<close>)
  show ?case
  proof (cases w)
    case True
    have "wpE (ioring_prepare_write K (diskfd s) (virtual_offset (heap s d)) (va (heap s p)) PAGE_SIZE s)
       (\<lambda>s'. wpE (prepare_writes K xs s') (\<lambda>r. io_only s (snd r)) (\<lambda>e. e = Kernel_failed))
       (\<lambda>e. e = Kernel_failed)"
      by (rule wpE_mono [OF ioring_io(5)]) (auto intro: IH)
    then show ?thesis using Cons.prems x True by (simp add: wp_simps case_prod_beta)
  qed (use Cons.prems x IH [of s] in \<open>simp add: wp_simps\<close>)
qed (simp add: wp_simps)

lemma finish_writes_io: "wpE (finish_writes K n s) (io_only s) (\<lambda>e. e = Kernel_failed)"
  by (induction n arbitrary: s) (auto intro!: io_bind ioring_io simp: wpE_Inr)

lemma drop_mappings_io: "wpE (drop_mappings K xs s) (io_only s) (\<lambda>e. e = Kernel_failed)"
  by (induction xs arbitrary: s) (auto intro!: io_bind io_kcall simp: wpE_Inr)

lemma move_to_disk_heap:
  "distinct (victims xs) \<Longrightarrow> set (victims xs) \<inter> set (targets xs) = {} \<Longrightarrow>
     heap (move_to_disk xs s) q = (case target_of xs q of None \<Rightarrow> heap s q
       | Some d \<Rightarrow> placed (virtual_offset (heap s d)) False (heap s q))"
proof (induction xs arbitrary: s)
  case (Cons x xs)
  obtain p d w where x: "x = (p, d, w)" by (cases x)
  show ?case using Cons.prems unfolding x
    by (auto simp: Let_def Cons.IH target_of_None [THEN iffD2] split: option.splits dest: target_of_mem)
qed simp

lemma move_to_disk_env: "lists (move_to_disk xs s) = lists s \<and> env s (move_to_disk xs s)"
proof (induction xs arbitrary: s)
  case (Cons x xs)
  obtain p d w where x: "x = (p, d, w)" by (cases x)
  define u where "u = count (\<lambda>c. c\<lparr>bytes_migrated := bytes_migrated c + PAGE_SIZE\<rparr>)
    (upd_page p (placed (virtual_offset (heap s d)) False) (count (\<lambda>c. c\<lparr>migrations_down := migrations_down c + 1\<rparr>) s))"
  have "env s u" "lists u = lists s" by (simp_all add: u_def)
  moreover have "move_to_disk (x # xs) s = move_to_disk xs u" by (simp add: x u_def Let_def)
  ultimately show ?case using Cons.IH [of u] by (metis env_trans)
qed simp

lemma mark_swapped_out_wp:
  assumes "distinct (victims xs)" "\<forall>p \<in> set (victims xs). \<not> swapped_out (heap s p) \<and> migrating (heap s p)"
    and "\<And>h. (\<And>q. h q = (if q \<in> set (victims xs) then (heap s q)\<lparr>swapped_out := True\<rparr> else heap s q)) \<Longrightarrow>
      Q (s\<lparr>heap := h\<rparr>)"
  shows "wpE (mark_swapped_out xs s) Q E"
  using assms
proof (induction xs arbitrary: s)
  case Nil
  have "Q (s\<lparr>heap := heap s\<rparr>)" by (rule Nil(3)) simp
  then show ?case by (simp add: wp_simps)
next
  case (Cons x xs)
  obtain p d w where x: "x = (p, d, w)" by (cases x)
  have "wpE (mark_swapped_out xs (upd_page p (\<lambda>h. h\<lparr>swapped_out := True\<rparr>) s)) Q E"
  proof (rule Cons.IH)
    fix h assume h: "h q = (if q \<in> set (victims xs)
      then (heap (upd_page p (\<lambda>h. h\<lparr>swapped_out := True\<rparr>) s) q)\<lparr>swapped_out := True\<rparr>
      else heap (upd_page p (\<lambda>h. h\<lparr>swapped_out := True\<rparr>) s) q)" for q
    have "Q (s\<lparr>heap := h\<rparr>)"
      by (rule Cons.prems(3)) (use Cons.prems(1) x h in auto)
    then show "Q ((upd_page p (\<lambda>h. h\<lparr>swapped_out := True\<rparr>) s)\<lparr>heap := h\<rparr>)"
      by (simp add: upd_page_def)
  qed (use Cons.prems(1,2) x in auto)
  then show ?case using Cons.prems(2) x by (simp add: wp_simps Let_def)
qed

lemma downdisk_vector_wp:
  assumes dist: "distinct (victims xs)" "set (victims xs) \<inter> set (targets xs) = {}"
    and vic: "\<forall>p \<in> set (victims xs). in_dram (heap s p) \<and> \<not> swapped_out (heap s p) \<and> migrating (heap s p)"
    and lk: "\<not> held s Handler_lock"
    and Q: "\<And>s'. (\<And>q. heap s' q = (case target_of xs q of None \<Rightarrow> heap s q
        | Some d \<Rightarrow> (placed (virtual_offset (heap s d)) False (heap s q))\<lparr>swapped_out := True\<rparr>)) \<Longrightarrow>
      lists s' = lists s \<Longrightarrow> env s s' \<Longrightarrow> Q s'"
    and E: "E Kernel_failed"
  shows "wpE (extmem_migrate_downdisk_vector K xs s) Q E"
proof -
  let ?F = "\<lambda>e. e = Kernel_failed"
  have body: "wpE (bindE (lock Handler_lock (move_to_disk xs s')) (\<lambda>s.
     bindE (mark_swapped_out xs s) (\<lambda>s. Inr (unlock Handler_lock s)))) Q E" if "io_only s s'" for s'
  proof -
    let ?m = "move_to_disk xs s'"
    have s': "heap s' = heap s" "lists s' = lists s" "env s s'" "held s' = held s"
      using that by (elim io_onlyE; simp add: env_def)+
    have m: "lists ?m = lists s" "env s ?m" using move_to_disk_env [of xs s'] s' by (auto intro: env_trans)
    then have h: "held ?m = held s" by (simp add: env_def)
    have hm: "heap ?m q = (case target_of xs q of None \<Rightarrow> heap s q
       | Some d \<Rightarrow> placed (virtual_offset (heap s d)) False (heap s q))" for q
      by (simp add: move_to_disk_heap [OF dist] s'(1) split: option.split)
    show ?thesis
      using lk h unfolding wp_simps
    proof (simp, intro mark_swapped_out_wp dist ballI)
      fix p assume "p \<in> set (victims xs)"
      then show "\<not> swapped_out (heap (?m\<lparr>held := (held s)(Handler_lock := True)\<rparr>) p) \<and>
          migrating (heap (?m\<lparr>held := (held s)(Handler_lock := True)\<rparr>) p)"
        using vic by (auto simp: hm split: option.splits)
    next
      fix g assume g: "g q = (if q \<in> set (victims xs)
        then (heap (?m\<lparr>held := (held s)(Handler_lock := True)\<rparr>) q)\<lparr>swapped_out := True\<rparr>
        else heap (?m\<lparr>held := (held s)(Handler_lock := True)\<rparr>) q)" for q
      show "Q (unlock Handler_lock (?m\<lparr>held := (held s)(Handler_lock := True), heap := g\<rparr>))"
      proof (rule Q)
        show "heap (unlock Handler_lock (?m\<lparr>held := (held s)(Handler_lock := True), heap := g\<rparr>)) q =
          (case target_of xs q of None \<Rightarrow> heap s q
          | Some d \<Rightarrow> (placed (virtual_offset (heap s d)) False (heap s q))\<lparr>swapped_out := True\<rparr>)" for q
          using g [of q] target_of_None [of xs q] by (auto simp: hm split: option.splits)
      qed (use m lk in \<open>simp_all add: env_def unlock_def fun_upd_idem\<close>)
    qed
  qed
  have "wpE (bindE (prepare_writes K xs s) (\<lambda>(n, s). bindE (ioring_submit_all_writes K s) (\<lambda>s.
     bindE (finish_writes K n s) (drop_mappings K xs)))) (io_only s) ?F"
  proof (unfold wpE_bindE, rule wpE_mono [OF prepare_writes_io], goal_cases)
    case 1
    then show ?case using vic by simp
  next
    case (2 x)
    then have "wpE (bindE (ioring_submit_all_writes K (snd x)) (\<lambda>s.
        bindE (finish_writes K (fst x) s) (drop_mappings K xs))) (io_only (snd x)) ?F"
      by (intro io_bind ioring_io finish_writes_io drop_mappings_io)
    then show ?case using 2 by (auto simp: case_prod_beta elim!: wpE_mono intro: io_only_trans)
  qed simp
  then show ?thesis
    unfolding extmem_migrate_downdisk_vector_def
    by (simp add: wp_simps case_prod_beta Let_def) (erule wpE_mono; use body E in \<open>auto elim!: wpE_mono simp: wp_simps\<close>)
qed

end
