(* ===== verification/Page_Table.thy ===== *)
theory Page_Table
  imports Machine
begin

text \<open>
  The index of the tracked pages: the part of \<open>uthash.h\<close> that \<open>core.c\<close> uses (\<open>HASH_FIND\<close>,
  \<open>HASH_ADD\<close>, \<open>HASH_DEL\<close> with Jenkins' hash and bucket expansion), and \<open>add_page\<close>,
  \<open>remove_page\<close>, \<open>find_page\<close> and \<open>get_user_page\<close> on top of it. The interface the fault
  handlers rely on is the locale \<open>page_index\<close>: a finite map from addresses to descriptors.
\<close>

section \<open>Jenkins' hash\<close>

definition HASH_JEN_MIX :: "u32 \<Rightarrow> u32 \<Rightarrow> u32 \<Rightarrow> u32 \<times> u32 \<times> u32" where
  "HASH_JEN_MIX a b c =
     (let a = (a - b - c) XOR drop_bit 13 c;
          b = (b - c - a) XOR push_bit 8 a;
          c = (c - a - b) XOR drop_bit 13 b;
          a = (a - b - c) XOR drop_bit 12 c;
          b = (b - c - a) XOR push_bit 16 a;
          c = (c - a - b) XOR drop_bit 5 b;
          a = (a - b - c) XOR drop_bit 3 c;
          b = (b - c - a) XOR push_bit 10 a;
          c = (c - a - b) XOR drop_bit 15 b
      in (a, b, c))"

text \<open>The little-endian bytes of the key, as the hash function reads them in memory.\<close>

definition key_byte :: "u64 \<Rightarrow> nat \<Rightarrow> u32" where
  "key_byte k j = ucast (drop_bit (8 * j) k AND 255)"

text \<open>
  \<open>HASH_JEN\<close> for the one key length in use, \<open>sizeof(uint64_t) = 8\<close>: the loop over blocks of
  twelve bytes does not run, and the \<open>switch\<close> enters at \<open>case 8\<close> and falls through to \<open>case 1\<close>.
\<close>

definition HASH_JEN :: "u64 \<Rightarrow> u32" where
  "HASH_JEN key =
     (let hv = 0xfeedbeef + 8;
          j = 0x9e3779b9 + push_bit 24 (key_byte key 7) + push_bit 16 (key_byte key 6)
                + push_bit 8 (key_byte key 5) + key_byte key 4;
          i = 0x9e3779b9 + push_bit 24 (key_byte key 3) + push_bit 16 (key_byte key 2)
                + push_bit 8 (key_byte key 1) + key_byte key 0
      in snd (snd (HASH_JEN_MIX i j hv)))"

section \<open>Buckets\<close>

definition HASH_INITIAL_NUM_BUCKETS :: u32 where "HASH_INITIAL_NUM_BUCKETS = 2097152"
definition HASH_INITIAL_NUM_BUCKETS_LOG2 :: u32 where "HASH_INITIAL_NUM_BUCKETS_LOG2 = 21"
definition HASH_BKT_CAPACITY_THRESH :: u32 where "HASH_BKT_CAPACITY_THRESH = 10"

definition HASH_TO_BKT :: "u32 \<Rightarrow> u32 \<Rightarrow> u32" where
  "HASH_TO_BKT hv num_bkts = hv AND (num_bkts - 1)"

definition empty_bucket :: UT_hash_bucket where
  "empty_bucket = \<lparr>hh_chain = [], bkt_count = 0, expand_mult = 0\<rparr>"

definition HASH_MAKE_TABLE :: UT_hash_table where
  "HASH_MAKE_TABLE = \<lparr>buckets = (\<lambda>_. empty_bucket), num_buckets = HASH_INITIAL_NUM_BUCKETS,
     log2_num_buckets = HASH_INITIAL_NUM_BUCKETS_LOG2, num_items = 0, ideal_chain_maxlen = 0,
     nonideal_items = 0, ineff_expands = 0, noexpand = 0\<rparr>"

text \<open>Walking a chain; \<open>key_of p\<close> is the \<open>va\<close> field the handle's key pointer refers to.\<close>

fun HASH_FIND_IN_BKT ::
  "(page_ptr \<Rightarrow> u32) \<Rightarrow> (page_ptr \<Rightarrow> u64) \<Rightarrow> u64 \<Rightarrow> u32 \<Rightarrow> page_ptr list \<Rightarrow> page_ptr option" where
  "HASH_FIND_IN_BKT hv key_of key h [] = None"
| "HASH_FIND_IN_BKT hv key_of key h (out # chain) =
     (if hv out = h \<and> key_of out = key then Some out
      else HASH_FIND_IN_BKT hv key_of key h chain)"

definition HASH_FIND :: "(page_ptr \<Rightarrow> u64) \<Rightarrow> u64 \<Rightarrow> uthash \<Rightarrow> page_ptr option" where
  "HASH_FIND key_of key t =
     (if app_order t = [] then None
      else let h = HASH_JEN key; b = HASH_TO_BKT h (num_buckets (tbl t))
           in HASH_FIND_IN_BKT (hashv t) key_of key h (hh_chain (buckets (tbl t) b)))"

text \<open>One element moved to the doubled bucket array.\<close>

definition rehash_one :: "(page_ptr \<Rightarrow> u32) \<Rightarrow> u32 \<Rightarrow> u32 \<Rightarrow> page_ptr \<Rightarrow>
    (u32 \<Rightarrow> UT_hash_bucket) \<times> u32 \<Rightarrow> (u32 \<Rightarrow> UT_hash_bucket) \<times> u32" where
  "rehash_one hv nb ideal thh x =
     (let (bs, nonideal) = x;
          b = HASH_TO_BKT (hv thh) (nb * 2);
          newbkt = (bs b)\<lparr>bkt_count := bkt_count (bs b) + 1\<rparr>;
          over = bkt_count newbkt > ideal;
          newbkt = (if over \<and> bkt_count newbkt > expand_mult newbkt * ideal
                    then newbkt\<lparr>expand_mult := expand_mult newbkt + 1\<rparr> else newbkt)
      in (bs(b := newbkt\<lparr>hh_chain := thh # hh_chain newbkt\<rparr>),
          if over then nonideal + 1 else nonideal))"

definition bucket_elems :: "UT_hash_table \<Rightarrow> page_ptr list" where
  "bucket_elems tb = concat (map (\<lambda>i. hh_chain (buckets tb (word_of_nat i))) [0..<unat (num_buckets tb)])"

text \<open>
  Bucket expansion. The request for the new array succeeds, except that the one for
  \<open>2 ^ 32\<close> buckets of 16 bytes (64 GiB), where \<open>num_buckets\<close> itself would wrap to zero, is
  taken to fail, which ends the process through \<open>uthash_fatal\<close>.
\<close>

definition HASH_EXPAND_BUCKETS :: "(page_ptr \<Rightarrow> u32) \<Rightarrow> UT_hash_table \<Rightarrow> c_error + UT_hash_table" where
  "HASH_EXPAND_BUCKETS hv tb =
     (let nb = num_buckets tb;
          ideal = drop_bit (unat (log2_num_buckets tb + 1)) (num_items tb)
                    + (if num_items tb AND (nb * 2 - 1) \<noteq> 0 then 1 else 0);
          (bs, nonideal) = fold (rehash_one hv nb ideal) (bucket_elems tb) (\<lambda>_. empty_bucket, 0);
          ineff = (if nonideal > drop_bit 1 (num_items tb) then ineff_expands tb + 1 else 0)
      in if nb * 2 = 0 then Inl Out_of_memory
         else Inr (tb\<lparr>buckets := bs, num_buckets := nb * 2,
           log2_num_buckets := log2_num_buckets tb + 1, ideal_chain_maxlen := ideal,
           nonideal_items := nonideal, ineff_expands := ineff,
           noexpand := (if ineff > 1 then 1 else noexpand tb)\<rparr>))"

definition HASH_ADD_TO_BKT :: "(page_ptr \<Rightarrow> u32) \<Rightarrow> u32 \<Rightarrow> page_ptr \<Rightarrow> UT_hash_table \<Rightarrow>
    c_error + UT_hash_table" where
  "HASH_ADD_TO_BKT hv b add tb =
     (let bk = buckets tb b;
          bk = bk\<lparr>bkt_count := bkt_count bk + 1, hh_chain := add # hh_chain bk\<rparr>;
          tb = tb\<lparr>buckets := (buckets tb)(b := bk)\<rparr>
      in if bkt_count bk \<ge> (expand_mult bk + 1) * HASH_BKT_CAPACITY_THRESH \<and> noexpand tb = 0
         then HASH_EXPAND_BUCKETS hv tb else Inr tb)"

definition HASH_ADD :: "(page_ptr \<Rightarrow> u64) \<Rightarrow> page_ptr \<Rightarrow> uthash \<Rightarrow> c_error + uthash" where
  "HASH_ADD key_of add t =
     (let h = HASH_JEN (key_of add);
          hv = (hashv t)(add := h);
          tb = (if app_order t = [] then HASH_MAKE_TABLE else tbl t);
          order = app_order t @ [add];
          tb = tb\<lparr>num_items := num_items tb + 1\<rparr>
      in bindE (HASH_ADD_TO_BKT hv (HASH_TO_BKT h (num_buckets tb)) add tb) (\<lambda>tb.
         Inr \<lparr>app_order = order, tbl = tb, hashv = hv\<rparr>))"

definition HASH_DEL_IN_BKT :: "u32 \<Rightarrow> page_ptr \<Rightarrow> UT_hash_table \<Rightarrow> UT_hash_table" where
  "HASH_DEL_IN_BKT b del tb =
     (let bk = buckets tb b in
      tb\<lparr>buckets := (buckets tb)(b := bk\<lparr>bkt_count := bkt_count bk - 1,
                                        hh_chain := remove1 del (hh_chain bk)\<rparr>)\<rparr>)"

text \<open>
  \<open>HASH_DEL\<close> of an element of the table: the last element takes the table with it, any other
  one is unlinked from the order list and from its bucket.
\<close>

definition HASH_DEL :: "page_ptr \<Rightarrow> uthash \<Rightarrow> uthash" where
  "HASH_DEL del t =
     (if app_order t = [del] then t\<lparr>app_order := []\<rparr>
      else let b = HASH_TO_BKT (hashv t del) (num_buckets (tbl t));
               tb = HASH_DEL_IN_BKT b del (tbl t)
           in t\<lparr>app_order := remove1 del (app_order t),
                tbl := tb\<lparr>num_items := num_items tb - 1\<rparr>\<rparr>)"

section \<open>The index of core.c\<close>

abbreviation key_in :: "'k ext \<Rightarrow> page_ptr \<Rightarrow> u64" where
  "key_in s p \<equiv> va (heap s p)"

definition add_page :: "page_ptr \<Rightarrow> 'k ext \<Rightarrow> c_error + 'k ext" where
  "add_page page s =
     bindE (lock Pages_lock s) (\<lambda>s.
     bindE (assertE (HASH_FIND (key_in s) (va (heap s page)) (pages s) = None)) (\<lambda>_.
     bindE (HASH_ADD (key_in s) page (pages s)) (\<lambda>t.
     Inr (unlock Pages_lock (s\<lparr>pages := t\<rparr>)))))"

definition remove_page :: "page_ptr \<Rightarrow> 'k ext \<Rightarrow> c_error + 'k ext" where
  "remove_page page s =
     bindE (lock Pages_lock s) (\<lambda>s.
     Inr (unlock Pages_lock (s\<lparr>pages := HASH_DEL page (pages s)\<rparr>)))"

definition find_page :: "u64 \<Rightarrow> 'k ext \<Rightarrow> c_error + page_ptr option \<times> 'k ext" where
  "find_page a s =
     bindE (lock Pages_lock s) (\<lambda>s.
     let page = HASH_FIND (key_in s) a (pages s) in
     Inr (page, unlock Pages_lock s))"

definition get_user_page :: "u64 \<Rightarrow> 'k ext \<Rightarrow> c_error + page_ptr option \<times> 'k ext" where
  "get_user_page a s = find_page a s"

section \<open>Well-formed tables\<close>

definition bucket_of :: "uthash \<Rightarrow> page_ptr \<Rightarrow> u32" where
  "bucket_of t p = HASH_TO_BKT (hashv t p) (num_buckets (tbl t))"

definition chains_ok :: "(page_ptr \<Rightarrow> u32) \<Rightarrow> page_ptr set \<Rightarrow> UT_hash_table \<Rightarrow> bool" where
  "chains_ok hv X tb \<longleftrightarrow> num_buckets tb \<noteq> 0 \<and>
     (\<forall>b. distinct (hh_chain (buckets tb b)) \<and>
          set (hh_chain (buckets tb b)) = {p \<in> X. HASH_TO_BKT (hv p) (num_buckets tb) = b} \<and>
          bkt_count (buckets tb b) = word_of_nat (length (hh_chain (buckets tb b))))"

text \<open>
  A well-formed table: no element twice, no two elements with the same key, every stored hash
  value is the hash of the key, the chains partition the elements by bucket, and the counts of the
  elements are right.
\<close>

definition table_ok :: "(page_ptr \<Rightarrow> u64) \<Rightarrow> uthash \<Rightarrow> bool" where
  "table_ok key_of t \<longleftrightarrow> distinct (app_order t) \<and> inj_on key_of (set (app_order t)) \<and>
     (\<forall>p \<in> set (app_order t). hashv t p = HASH_JEN (key_of p)) \<and>
     (app_order t \<noteq> [] \<longrightarrow> chains_ok (hashv t) (set (app_order t)) (tbl t) \<and>
       num_items (tbl t) = word_of_nat (length (app_order t)))"

lemma table_ok_cong:
  assumes "\<And>p. p \<in> set (app_order t) \<Longrightarrow> key_of p = key_of' p"
  shows "table_ok key_of t = table_ok key_of' t"
proof -
  have "inj_on key_of (set (app_order t)) = inj_on key_of' (set (app_order t))"
    by (rule inj_on_cong) (rule assms)
  with assms show ?thesis by (simp add: table_ok_def)
qed

lemma HASH_TO_BKT_less: "nb \<noteq> 0 \<Longrightarrow> HASH_TO_BKT h nb < nb"
proof -
  assume "nb \<noteq> 0"
  have "h AND (nb - 1) \<le> nb - 1" by (rule word_and_le1)
  also have "nb - 1 < nb" using \<open>nb \<noteq> 0\<close> by unat_arith
  finally show ?thesis by (simp add: HASH_TO_BKT_def)
qed

lemma find_in_bkt_Some:
  "HASH_FIND_IN_BKT hv key_of key h xs = Some p \<Longrightarrow> p \<in> set xs \<and> hv p = h \<and> key_of p = key"
  by (induction xs) (auto split: if_splits)

lemma find_in_bkt_None:
  "HASH_FIND_IN_BKT hv key_of key h xs = None \<longleftrightarrow> (\<forall>p \<in> set xs. hv p = h \<longrightarrow> key_of p \<noteq> key)"
  by (induction xs) auto

text \<open>A lookup in a well-formed table finds exactly the element with that key.\<close>

lemma HASH_FIND_iff:
  assumes ok: "table_ok key_of t"
  shows "HASH_FIND key_of key t = Some p \<longleftrightarrow> p \<in> set (app_order t) \<and> key_of p = key"
proof (cases "app_order t = []")
  case False
  let ?b = "HASH_TO_BKT (HASH_JEN key) (num_buckets (tbl t))"
  let ?c = "hh_chain (buckets (tbl t) ?b)"
  have c: "set ?c = {p \<in> set (app_order t). HASH_TO_BKT (hashv t p) (num_buckets (tbl t)) = ?b}"
    and h: "\<And>p. p \<in> set (app_order t) \<Longrightarrow> hashv t p = HASH_JEN (key_of p)"
    and inj: "inj_on key_of (set (app_order t))"
    using ok False by (auto simp: table_ok_def chains_ok_def)
  have f: "HASH_FIND key_of key t = HASH_FIND_IN_BKT (hashv t) key_of key (HASH_JEN key) ?c"
    using False by (simp add: HASH_FIND_def Let_def)
  show ?thesis
  proof
    assume "HASH_FIND key_of key t = Some p"
    then show "p \<in> set (app_order t) \<and> key_of p = key" using f find_in_bkt_Some c by auto
  next
    assume p: "p \<in> set (app_order t) \<and> key_of p = key"
    then have "p \<in> set ?c" "hashv t p = HASH_JEN key" using c h by auto
    with p have "HASH_FIND key_of key t \<noteq> None" using f find_in_bkt_None by metis
    then obtain q where q: "HASH_FIND key_of key t = Some q" by blast
    then have "q \<in> set (app_order t)" "key_of q = key" using f find_in_bkt_Some c by auto
    with p inj have "q = p" by (metis inj_onD)
    with q show "HASH_FIND key_of key t = Some p" by simp
  qed
qed (simp add: HASH_FIND_def)

lemma HASH_FIND_None:
  "table_ok key_of t \<Longrightarrow> HASH_FIND key_of key t = None \<longleftrightarrow> (\<forall>p \<in> set (app_order t). key_of p \<noteq> key)"
  by (metis HASH_FIND_iff not_None_eq)

section \<open>Expansion, insertion and deletion keep a table well-formed\<close>

lemma rehash_one_chain:
  "hh_chain (fst (rehash_one hv nb ideal p x) b) =
     (if HASH_TO_BKT (hv p) (nb * 2) = b then p # hh_chain (fst x b) else hh_chain (fst x b))"
  by (simp add: rehash_one_def Let_def case_prod_beta)

lemma fold_rehash_chain:
  "hh_chain (fst (fold (rehash_one hv nb ideal) ps x) b) =
     rev (filter (\<lambda>p. HASH_TO_BKT (hv p) (nb * 2) = b) ps) @ hh_chain (fst x b)"
  by (induction ps arbitrary: x) (auto simp: rehash_one_chain)

lemma rehash_one_count:
  "bkt_count (fst (rehash_one hv nb ideal p x) b) =
     (if HASH_TO_BKT (hv p) (nb * 2) = b then bkt_count (fst x b) + 1 else bkt_count (fst x b))"
  by (simp add: rehash_one_def Let_def case_prod_beta)

lemma fold_rehash_count:
  "bkt_count (fst (fold (rehash_one hv nb ideal) ps x) b) =
     bkt_count (fst x b) + word_of_nat (length (filter (\<lambda>p. HASH_TO_BKT (hv p) (nb * 2) = b) ps))"
  by (induction ps arbitrary: x) (auto simp: rehash_one_count)

lemma bucket_elems_set:
  assumes "chains_ok hv X tb"
  shows "set (bucket_elems tb) = X"
proof -
  have "p \<in> set (bucket_elems tb)" if "p \<in> X" for p
  proof -
    let ?b = "HASH_TO_BKT (hv p) (num_buckets tb)"
    have "?b < num_buckets tb" using assms HASH_TO_BKT_less by (simp add: chains_ok_def)
    then have "unat ?b < unat (num_buckets tb)" by (simp add: word_less_nat_alt)
    moreover have "p \<in> set (hh_chain (buckets tb (word_of_nat (unat ?b))))"
      using assms that by (simp add: chains_ok_def)
    ultimately show ?thesis by (force simp: bucket_elems_def)
  qed
  then show ?thesis using assms by (auto simp: bucket_elems_def chains_ok_def)
qed

lemma bucket_elems_distinct:
  assumes "chains_ok hv X tb"
  shows "distinct (bucket_elems tb)"
  unfolding bucket_elems_def
proof (subst distinct_concat_iff, intro conjI allI impI)
  let ?N = "unat (num_buckets tb)"
  let ?ch = "\<lambda>i. hh_chain (buckets tb (word_of_nat i))"
  have inj: "(word_of_nat i :: u32) = word_of_nat j \<Longrightarrow> i = j" if "i < ?N" "j < ?N" for i j
  proof -
    have "?N < 2 ^ 32" using unsigned_less [of "num_buckets tb"] by simp
    then have "unat (word_of_nat k :: u32) = k" if "k < ?N" for k
      using that by (simp add: unat_of_nat)
    then show "(word_of_nat i :: u32) = word_of_nat j \<Longrightarrow> i = j" using that by metis
  qed
  show "distinct ys" if "ys \<in> set (map ?ch [0..<?N])" for ys
    using that assms by (auto simp: chains_ok_def)
  show "set ys \<inter> set zs = {}"
    if "ys \<in> set (map ?ch [0..<?N]) \<and> zs \<in> set (map ?ch [0..<?N]) \<and> ys \<noteq> zs" for ys zs
    using that assms by (auto simp: chains_ok_def)
  show "distinct (removeAll [] (map ?ch [0..<?N]))"
  proof -
    have "inj_on ?ch (set (filter (\<lambda>i. ?ch i \<noteq> []) [0..<?N]))"
    proof (rule inj_onI)
      fix i j
      assume a: "i \<in> set (filter (\<lambda>i. ?ch i \<noteq> []) [0..<?N])" "j \<in> set (filter (\<lambda>i. ?ch i \<noteq> []) [0..<?N])"
        "?ch i = ?ch j"
      then obtain p where "p \<in> set (?ch i)" "p \<in> set (?ch j)"
        using hd_in_set [of "?ch j"] by (auto simp del: hd_in_set)
      then have "(word_of_nat i :: u32) = word_of_nat j" using assms by (auto simp: chains_ok_def)
      with a inj show "i = j" by auto
    qed
    then have "distinct (map ?ch (filter (\<lambda>i. ?ch i \<noteq> []) [0..<?N]))"
      by (simp add: distinct_map)
    moreover have "removeAll [] (map ?ch xs) = map ?ch (filter (\<lambda>i. ?ch i \<noteq> []) xs)" for xs
      by (induction xs) auto
    ultimately show ?thesis by simp
  qed
qed

lemma expand_ok:
  assumes "chains_ok hv X tb" "HASH_EXPAND_BUCKETS hv tb = Inr tb'"
  shows "chains_ok hv X tb'"
proof -
  let ?nb = "num_buckets tb"
  obtain ideal where b: "buckets tb' = fst (fold (rehash_one hv ?nb ideal) (bucket_elems tb) (\<lambda>_. empty_bucket, 0))"
    and n: "num_buckets tb' = ?nb * 2" "?nb * 2 \<noteq> 0"
    using assms(2) by (auto simp: HASH_EXPAND_BUCKETS_def Let_def case_prod_beta split: if_splits)
  have "hh_chain (buckets tb' i) = rev (filter (\<lambda>p. HASH_TO_BKT (hv p) (?nb * 2) = i) (bucket_elems tb))" for i
    unfolding b fold_rehash_chain by (simp add: empty_bucket_def)
  moreover have "bkt_count (buckets tb' i) = word_of_nat (length (hh_chain (buckets tb' i)))" for i
    unfolding b fold_rehash_chain fold_rehash_count by (simp add: empty_bucket_def)
  ultimately show ?thesis using n bucket_elems_set [OF assms(1)] bucket_elems_distinct [OF assms(1)]
    by (auto simp: chains_ok_def)
qed

lemma add_to_bkt_ok:
  assumes ok: "chains_ok hv X tb" and p: "p \<notin> X"
    and r: "HASH_ADD_TO_BKT hv (HASH_TO_BKT (hv p) (num_buckets tb)) p tb = Inr tb'"
  shows "chains_ok hv (insert p X) tb'"
proof -
  let ?b = "HASH_TO_BKT (hv p) (num_buckets tb)"
  let ?bk = "(buckets tb ?b)\<lparr>bkt_count := bkt_count (buckets tb ?b) + 1, hh_chain := p # hh_chain (buckets tb ?b)\<rparr>"
  let ?tb = "tb\<lparr>buckets := (buckets tb)(?b := ?bk)\<rparr>"
  have "chains_ok hv (insert p X) ?tb" using ok p by (auto simp: chains_ok_def)
  with r expand_ok show ?thesis
    by (auto simp: HASH_ADD_TO_BKT_def Let_def split: if_splits)
qed

lemma chains_ok_num_items: "chains_ok hv X (tb\<lparr>num_items := n\<rparr>) = chains_ok hv X tb"
  by (simp add: chains_ok_def)

lemma chains_ok_cong: "(\<And>p. p \<in> X \<Longrightarrow> hv p = hv' p) \<Longrightarrow> chains_ok hv X tb = chains_ok hv' X tb"
  unfolding chains_ok_def by (auto 4 3)

lemma add_to_bkt_items: "HASH_ADD_TO_BKT hv b p tb = Inr tb' \<Longrightarrow> num_items tb' = num_items tb"
  by (auto simp: HASH_ADD_TO_BKT_def HASH_EXPAND_BUCKETS_def Let_def case_prod_beta split: if_splits)

lemma HASH_ADD_ok:
  assumes ok: "table_ok key_of t" and new: "HASH_FIND key_of (key_of p) t = None"
    and r: "HASH_ADD key_of p t = Inr t'"
  shows "table_ok key_of t' \<and> app_order t' = app_order t @ [p]"
proof -
  let ?h = "HASH_JEN (key_of p)" and ?X = "set (app_order t)"
  let ?hv = "(hashv t)(p := ?h)"
  define tb where "tb = (if app_order t = [] then HASH_MAKE_TABLE else tbl t)"
  have p: "\<forall>q \<in> ?X. key_of q \<noteq> key_of p" using new HASH_FIND_None [OF ok] by simp
  then have pX: "p \<notin> ?X" by auto
  have "chains_ok ?hv ?X tb"
  proof (cases "app_order t = []")
    case True
    then show ?thesis by (simp add: tb_def chains_ok_def HASH_MAKE_TABLE_def
        HASH_INITIAL_NUM_BUCKETS_def empty_bucket_def)
  next
    case False
    then have "chains_ok (hashv t) ?X tb" using ok by (simp add: table_ok_def tb_def)
    then show ?thesis using pX by (subst chains_ok_cong [where hv' = "hashv t"]) auto
  qed
  moreover obtain tb' where tb': "HASH_ADD_TO_BKT ?hv (HASH_TO_BKT ?h (num_buckets tb)) p
      (tb\<lparr>num_items := num_items tb + 1\<rparr>) = Inr tb'"
    "t' = \<lparr>app_order = app_order t @ [p], tbl = tb', hashv = ?hv\<rparr>"
    using r by (auto simp: HASH_ADD_def Let_def tb_def bindE_Inr_iff split: if_splits)
  ultimately have "chains_ok ?hv (insert p ?X) tb'"
    "t' = \<lparr>app_order = app_order t @ [p], tbl = tb', hashv = ?hv\<rparr>"
    using add_to_bkt_ok [of ?hv ?X "tb\<lparr>num_items := num_items tb + 1\<rparr>" p tb'] pX
    by (auto simp: chains_ok_num_items)
  moreover have "num_items tb' = word_of_nat (length (app_order t @ [p]))"
    using add_to_bkt_items [OF tb'(1)] ok by (simp add: tb_def table_ok_def HASH_MAKE_TABLE_def)
  ultimately show ?thesis using ok p pX by (auto simp: table_ok_def inj_on_def)
qed

lemma HASH_ADD_error: "HASH_ADD key_of p t = Inl e \<Longrightarrow> e = Out_of_memory"
  by (auto simp: HASH_ADD_def HASH_ADD_TO_BKT_def HASH_EXPAND_BUCKETS_def Let_def case_prod_beta
      bindE_def split: sum.splits if_splits)

lemma length_remove1_word: "p \<in> set xs \<Longrightarrow> (word_of_nat (length (remove1 p xs)) :: u32) = word_of_nat (length xs) - 1"
  by (induction xs) auto

lemma HASH_DEL_ok:
  assumes ok: "table_ok key_of t" and p: "p \<in> set (app_order t)"
  shows "table_ok key_of (HASH_DEL p t) \<and> app_order (HASH_DEL p t) = remove1 p (app_order t)"
proof (cases "app_order t = [p]")
  case False
  let ?b = "HASH_TO_BKT (hashv t p) (num_buckets (tbl t))"
  have c: "chains_ok (hashv t) (set (app_order t)) (tbl t)" and d: "distinct (app_order t)"
    using ok p by (auto simp: table_ok_def)
  moreover have "p \<in> set (hh_chain (buckets (tbl t) ?b))" using c p by (simp add: chains_ok_def)
  ultimately have "chains_ok (hashv t) (set (app_order t) - {p}) (HASH_DEL_IN_BKT ?b p (tbl t))"
    by (auto simp: chains_ok_def HASH_DEL_IN_BKT_def Let_def length_remove1_word)
  moreover have "set (remove1 p (app_order t)) = set (app_order t) - {p}" using d by simp
  ultimately show ?thesis using ok False p
    by (auto simp: table_ok_def HASH_DEL_def Let_def chains_ok_num_items inj_on_def length_remove1_word HASH_DEL_IN_BKT_def)
qed (use ok in \<open>simp add: HASH_DEL_def table_ok_def\<close>)

section \<open>The consistency check of uthash\<close>

text \<open>
  \<open>HASH_FSCK\<close>, which a build with \<open>HASH_DEBUG\<close> runs after every change: the elements of every bucket and of the table are
  counted and compared with the counters. Its checks of the backward links have no counterpart, as a chain is a list here.
\<close>

fun count_buckets :: "UT_hash_table \<Rightarrow> nat \<Rightarrow> (u32 \<times> bool) \<Rightarrow> u32 \<times> bool" where
  "count_buckets tb i (n, ok) =
     (let b = buckets tb (word_of_nat i);
          c = word_of_nat (length (hh_chain b))
      in (n + c, ok \<and> bkt_count b = c))"

definition HASH_FSCK :: "uthash \<Rightarrow> bool" where
  "HASH_FSCK t =
     (if app_order t = [] then True
      else let tb = tbl t;
               (n, ok) = fold (count_buckets tb) [0..<unat (num_buckets tb)] (0, True)
           in ok \<and> n = num_items tb \<and> word_of_nat (length (app_order t)) = num_items tb)"

lemma fold_count_buckets:
  assumes "\<And>b. bkt_count (buckets tb b) = word_of_nat (length (hh_chain (buckets tb b)))"
  shows "fold (count_buckets tb) xs (n, ok) =
    (n + word_of_nat (length (concat (map (\<lambda>i. hh_chain (buckets tb (word_of_nat i))) xs))), ok)"
  by (induction xs arbitrary: n) (auto simp: assms Let_def)

lemma table_ok_fsck:
  assumes "table_ok key_of t"
  shows "HASH_FSCK t"
proof (cases "app_order t = []")
  case False
  then have c: "chains_ok (hashv t) (set (app_order t)) (tbl t)" "num_items (tbl t) = word_of_nat (length (app_order t))"
    and d: "distinct (app_order t)" using assms by (auto simp: table_ok_def)
  have "length (bucket_elems (tbl t)) = length (app_order t)"
    using bucket_elems_set [OF c(1)] bucket_elems_distinct [OF c(1)] d by (metis distinct_card)
  moreover have "bkt_count (buckets (tbl t) b) = word_of_nat (length (hh_chain (buckets (tbl t) b)))" for b
    using c(1) by (simp add: chains_ok_def)
  ultimately show ?thesis using c(2) False
    by (simp add: HASH_FSCK_def Let_def fold_count_buckets bucket_elems_def)
qed (simp add: HASH_FSCK_def)

section \<open>The interface of the index\<close>

text \<open>
  What the fault handlers rely on: a lookup returns the tracked descriptor with that address,
  insertion and removal change the set of tracked descriptors by the one named and nothing else.
\<close>

locale page_index =
  fixes find :: "'a \<Rightarrow> 's \<Rightarrow> 'e + 'p option \<times> 's"
    and add :: "'p \<Rightarrow> 's \<Rightarrow> 'e + 's"
    and del :: "'p \<Rightarrow> 's \<Rightarrow> 'e + 's"
    and addr :: "'s \<Rightarrow> 'p \<Rightarrow> 'a"
    and tracked :: "'s \<Rightarrow> 'p set"
    and frame :: "'s \<Rightarrow> 'r"
    and full :: "'e"
    and ok :: "'s \<Rightarrow> bool"
  assumes find_spec: "ok s \<Longrightarrow> \<exists>r. find a s = Inr (r, s) \<and>
          (\<forall>p. r = Some p \<longleftrightarrow> p \<in> tracked s \<and> addr s p = a)"
    and add_spec: "ok s \<Longrightarrow> \<forall>q \<in> tracked s. addr s q \<noteq> addr s p \<Longrightarrow>
          add p s = Inl full \<or> (\<exists>s'. add p s = Inr s' \<and> ok s' \<and> tracked s' = insert p (tracked s) \<and>
             addr s' = addr s \<and> frame s' = frame s)"
    and del_spec: "ok s \<Longrightarrow> p \<in> tracked s \<Longrightarrow> \<exists>s'. del p s = Inr s' \<and> ok s' \<and>
          tracked s' = tracked s - {p} \<and> addr s' = addr s \<and> frame s' = frame s"
begin

text \<open>No two tracked descriptors have the same address.\<close>

lemma tracked_unique:
  assumes "ok s" "p \<in> tracked s" "q \<in> tracked s" "addr s p = addr s q"
  shows "p = q"
  using find_spec [OF assms(1), of "addr s p"] assms by (metis option.inject)

lemma find_add:
  assumes "ok s" "\<forall>q \<in> tracked s. addr s q \<noteq> addr s p" "add p s = Inr s'"
  shows "find a s' = Inr (if a = addr s p then Some p else fst (projr (find a s)), s')"
proof -
  have s': "ok s'" "tracked s' = insert p (tracked s)" "addr s' = addr s"
    using add_spec [OF assms(1,2)] assms(3) by auto
  obtain r where r: "find a s = Inr (r, s)" "\<forall>p. r = Some p \<longleftrightarrow> p \<in> tracked s \<and> addr s p = a"
    using find_spec [OF assms(1)] by blast
  obtain r' where r': "find a s' = Inr (r', s')" "\<forall>q. r' = Some q \<longleftrightarrow> q \<in> tracked s' \<and> addr s' q = a"
    using find_spec [OF s'(1)] by blast
  have "r' = (if a = addr s p then Some p else r)"
    using r(2) r'(2) s' by (cases r'; cases r; auto)
  with r r' show ?thesis by simp
qed

lemma find_del:
  assumes "ok s" "p \<in> tracked s" "del p s = Inr s'"
  shows "find a s' = Inr (if a = addr s p then None else fst (projr (find a s)), s')"
proof -
  have s': "ok s'" "tracked s' = tracked s - {p}" "addr s' = addr s"
    using del_spec [OF assms(1,2)] assms(3) by auto
  obtain r where r: "find a s = Inr (r, s)" "\<forall>p. r = Some p \<longleftrightarrow> p \<in> tracked s \<and> addr s p = a"
    using find_spec [OF assms(1)] by blast
  obtain r' where r': "find a s' = Inr (r', s')" "\<forall>q. r' = Some q \<longleftrightarrow> q \<in> tracked s' \<and> addr s' q = a"
    using find_spec [OF s'(1)] by blast
  have "r' = Some q \<longleftrightarrow> (if a = addr s p then None else r) = Some q" for q
    using tracked_unique [OF assms(1,2), of q] by (auto simp: r(2) r'(2) s'(2,3))
  then have "r' = (if a = addr s p then None else r)" by (metis not_None_eq)
  with r r' show ?thesis by simp
qed

end

definition index_ok :: "'k ext \<Rightarrow> bool" where
  "index_ok s \<longleftrightarrow> table_ok (key_in s) (pages s) \<and> \<not> held s Pages_lock"

abbreviation tracked :: "'k ext \<Rightarrow> page_ptr set" where
  "tracked s \<equiv> set (app_order (pages s))"

definition without_index :: "'k ext \<Rightarrow> 'k ext" where
  "without_index s = s\<lparr>pages := \<lparr>app_order = [], tbl = HASH_MAKE_TABLE, hashv = (\<lambda>_. 0)\<rparr>\<rparr>"

lemma find_page_run: "\<not> held s Pages_lock \<Longrightarrow> find_page a s = Inr (HASH_FIND (key_in s) a (pages s), s)"
  by (simp add: find_page_def lock_def unlock_def Let_def fun_upd_idem)

lemma add_page_run:
  "index_ok s \<Longrightarrow> \<forall>q \<in> tracked s. key_in s q \<noteq> key_in s p \<Longrightarrow>
     add_page p s = bindE (HASH_ADD (key_in s) p (pages s)) (\<lambda>t. Inr (s\<lparr>pages := t\<rparr>))"
  by (simp add: add_page_def index_ok_def HASH_FIND_None lock_def unlock_def fun_upd_idem)

lemma remove_page_run: "\<not> held s Pages_lock \<Longrightarrow> remove_page p s = Inr (s\<lparr>pages := HASH_DEL p (pages s)\<rparr>)"
  by (simp add: remove_page_def lock_def unlock_def fun_upd_idem)

interpretation index: page_index find_page add_page remove_page key_in tracked without_index
  Out_of_memory index_ok
proof (unfold_locales, goal_cases)
  case (1 s a)
  then show ?case by (simp add: index_ok_def find_page_run HASH_FIND_iff)
next
  case (2 s p)
  show ?case
  proof (cases "HASH_ADD (key_in s) p (pages s)")
    case (Inl e)
    then show ?thesis using 2 by (simp add: add_page_run HASH_ADD_error)
  next
    case (Inr t)
    have "table_ok (key_in s) t \<and> app_order t = app_order (pages s) @ [p]"
      using 2 Inr by (intro HASH_ADD_ok [of "key_in s" "pages s"]) (auto simp: index_ok_def HASH_FIND_None)
    then show ?thesis using 2 Inr by (auto simp: add_page_run index_ok_def without_index_def)
  qed
next
  case (3 s p)
  then have "table_ok (key_in s) (HASH_DEL p (pages s))"
    "app_order (HASH_DEL p (pages s)) = remove1 p (app_order (pages s))" "distinct (app_order (pages s))"
    using HASH_DEL_ok [of "key_in s" "pages s" p] by (auto simp: index_ok_def table_ok_def)
  with 3 show ?case by (auto simp: remove_page_run index_ok_def without_index_def)
qed

end
