(* ===== verification/Pool.thy ===== *)
theory Pool
  imports Core_Migrate Page_Table
begin

text \<open>
  The invariant of the page pool. Every descriptor of the pool stands for one place (a DRAM frame or
  a disk slot), and which queue it is in says what it is used for: a free frame, a free slot, the
  reserve slot of a resident page, a resident page, or a page on disk. \<open>pool_inv F s\<close> allows for
  the descriptors \<open>F\<close> that an operation has taken off their queues and not yet filed again.
\<close>

section \<open>Places\<close>

definition npool :: "'k ext \<Rightarrow> nat" where
  "npool s = unat (dramsize s div PAGE_SIZE) + unat (disksize s div PAGE_SIZE)"

definition frame :: "'k ext \<Rightarrow> page_ptr \<Rightarrow> bool \<times> u64" where
  "frame s p = (in_dram (heap s p), virtual_offset (heap s p))"

definition slots :: "u64 \<Rightarrow> u64 set" where
  "slots sz = (\<lambda>i. word_of_nat i * PAGE_SIZE) ` {..<unat (sz div PAGE_SIZE)}"

definition all_frames :: "'k ext \<Rightarrow> (bool \<times> u64) set" where
  "all_frames s = {True} \<times> slots (dramsize s) \<union> {False} \<times> slots (disksize s)"

lemma unat64_less: "unat (x :: u64) < 18446744073709551616"
  using unsigned_less [of x] by simp

lemma unat_slot:
  assumes "i < unat (sz div PAGE_SIZE)"
  shows "unat (word_of_nat i * PAGE_SIZE :: u64) = i * 4096" "(i + 1) * 4096 \<le> unat sz"
proof -
  have d: "unat (sz div PAGE_SIZE) = unat sz div 4096" by (simp add: unat_div)
  then have "(i + 1) * 4096 \<le> (unat sz div 4096) * 4096"
    using assms by (intro mult_le_mono1) simp
  also have "\<dots> \<le> unat sz" by (rule div_times_less_eq_dividend)
  finally show s: "(i + 1) * 4096 \<le> unat sz" .
  have "i * 4096 < 2 ^ 64" using s unat64_less [of sz] by simp
  moreover from this have "i < 2 ^ 64" by simp
  ultimately show "unat (word_of_nat i * PAGE_SIZE :: u64) = i * 4096"
    by (simp add: unat_word_ariths unat_of_nat)
qed

lemma slots_bound:
  assumes "v \<in> slots sz"
  shows "v < sz" "v + PAGE_SIZE \<le> sz" "page_aligned v"
proof -
  obtain i where i: "i < unat (sz div PAGE_SIZE)" "v = word_of_nat i * PAGE_SIZE"
    using assms by (auto simp: slots_def)
  note u = unat_slot [OF i(1)]
  then show "v < sz" unfolding i(2) word_less_nat_alt by simp
  have "unat v + 4096 < 2 ^ 64 \<or> unat v + 4096 = unat sz"
    using u unat64_less [of sz] unfolding i(2) by auto
  then have "unat (v + PAGE_SIZE) = unat v + 4096"
    using unat64_less [of sz] u unfolding i(2) by (auto simp: unat_word_ariths)
  then show "v + PAGE_SIZE \<le> sz" using u unfolding i(2) word_le_nat_alt by simp
  have "unat (v mod PAGE_SIZE) = 0" using u unfolding i(2) by (simp add: unat_mod)
  then show "page_aligned v" by (simp add: page_aligned_def unat_eq_zero)
qed

lemma slots_inj: "inj_on (\<lambda>i. word_of_nat i * PAGE_SIZE :: u64) {..<unat (sz div PAGE_SIZE)}"
  by (rule inj_onI) (metis lessThan_iff mult_cancel2 unat_slot(1) zero_neq_numeral)

lemma card_slots: "card (slots sz) = unat (sz div PAGE_SIZE)"
  by (simp add: slots_def card_image slots_inj)

section \<open>What a queue holds\<close>

definition backed :: "'k ext \<Rightarrow> page_ptr \<Rightarrow> page_ptr \<Rightarrow> bool" where
  "backed s d p \<longleftrightarrow> d < npool s \<and> page_list s d = Some Disk_reserve_list \<and> reserve (heap s d) = Some p"

definition resident_page :: "'k ext \<Rightarrow> page_ptr \<Rightarrow> bool" where
  "resident_page s p \<longleftrightarrow> (let h = heap s p in in_dram h \<and> \<not> swapped_out h \<and> va h \<noteq> 0 \<and>
     page_aligned (va h) \<and> \<not> migrating h \<and> (has_reserve h \<longrightarrow> (\<exists>d. reserve h = Some d \<and> backed s d p)))"

definition fits :: "'k ext \<Rightarrow> list_id \<Rightarrow> page_ptr \<Rightarrow> bool" where
  "fits s l p \<longleftrightarrow> (let h = heap s p in case l of
     Dram_free_list \<Rightarrow> in_dram h \<and> va h = 0 \<and> \<not> has_reserve h
   | Disk_free_list \<Rightarrow> \<not> in_dram h \<and> va h = 0 \<and> \<not> has_reserve h
   | Disk_reserve_list \<Rightarrow> \<not> in_dram h \<and> va h = 0 \<and> has_reserve h \<and>
       (\<exists>q. reserve h = Some q \<and> q < npool s \<and> reserve (heap s q) = Some p \<and> has_reserve (heap s q))
   | Disk_active_list \<Rightarrow> \<not> in_dram h \<and> swapped_out h \<and> va h \<noteq> 0 \<and> page_aligned (va h) \<and>
       \<not> has_reserve h \<and> \<not> migrating h
   | Disk_written_list \<Rightarrow> False
   | _ \<Rightarrow> resident_page s p)"

definition filed :: "'k ext \<Rightarrow> page_ptr \<Rightarrow> bool" where
  "filed s p \<longleftrightarrow> (\<exists>l. page_list s p = Some l \<and> fits s l p)"

definition pool_inv :: "page_ptr set \<Rightarrow> 'k ext \<Rightarrow> bool" where
  "pool_inv F s \<longleftrightarrow> queues_free s \<and> \<not> held s Handler_lock \<and> \<not> held s Kswapd_lock \<and>
     (\<forall>p < npool s. pt (heap s p) = BASEP \<and> \<not> present (heap s p)) \<and>
     (\<forall>p \<in> F. p < npool s \<and> page_list s p = None) \<and>
     (\<forall>p < npool s. p \<notin> F \<longrightarrow> filed s p) \<and>
     (\<forall>p. npool s \<le> p \<longrightarrow> page_list s p = None) \<and>
     bij_betw (frame s) {..<npool s} (all_frames s)"

lemma npool_upd [simp]:
  "npool (s\<lparr>lists := fs\<rparr>) = npool s" "npool (s\<lparr>heap := h\<rparr>) = npool s" "npool (s\<lparr>kst := k\<rparr>) = npool s"
  "npool (s\<lparr>tls := t\<rparr>) = npool s" "npool (s\<lparr>held := hl\<rparr>) = npool s" "npool (s\<lparr>stats := c\<rparr>) = npool s"
  "npool (upd_page p f s) = npool s" "npool (count g s) = npool s"
  by (simp_all add: npool_def)

lemma pool_invD:
  assumes "pool_inv F s"
  shows "queues_free s" "\<not> held s Handler_lock" "\<not> held s Kswapd_lock"
    "\<And>p. p < npool s \<Longrightarrow> pt (heap s p) = BASEP" "\<And>p. p < npool s \<Longrightarrow> \<not> present (heap s p)"
    "\<And>p. p \<in> F \<Longrightarrow> p < npool s" "\<And>p. p \<in> F \<Longrightarrow> page_list s p = None"
    "\<And>p. npool s \<le> p \<Longrightarrow> page_list s p = None"
    "bij_betw (frame s) {..<npool s} (all_frames s)"
    "\<And>p. p < npool s \<Longrightarrow> p \<notin> F \<Longrightarrow> filed s p"
  using assms by (simp_all add: pool_inv_def)

text \<open>A page in a queue is a pool page that is not in flight, and it fits there.\<close>

lemma pool_inv_listed:
  assumes "pool_inv F s" "page_list s p = Some l"
  shows "p < npool s" "p \<notin> F" "fits s l p"
proof -
  show p: "p < npool s" using pool_invD(8) [OF assms(1), of p] assms(2) by (cases "p < npool s") auto
  show F: "p \<notin> F" using pool_invD(7) [OF assms(1), of p] assms(2) by auto
  show "fits s l p" using pool_invD(10) [OF assms(1) p F] assms(2) by (auto simp: filed_def)
qed

lemma pool_inv_place:
  assumes "pool_inv F s" "p < npool s"
  shows "in_dram (heap s p) \<Longrightarrow> virtual_offset (heap s p) < dramsize s"
    "in_dram (heap s p) \<Longrightarrow> virtual_offset (heap s p) + PAGE_SIZE \<le> dramsize s"
    "\<not> in_dram (heap s p) \<Longrightarrow> virtual_offset (heap s p) < disksize s"
    "\<not> in_dram (heap s p) \<Longrightarrow> virtual_offset (heap s p) + PAGE_SIZE \<le> disksize s"
proof -
  have "frame s p \<in> all_frames s" using pool_invD(9) [OF assms(1)] assms(2) by (auto simp: bij_betw_def)
  then have "if in_dram (heap s p) then virtual_offset (heap s p) \<in> slots (dramsize s)
      else virtual_offset (heap s p) \<in> slots (disksize s)" by (auto simp: frame_def all_frames_def)
  then show "in_dram (heap s p) \<Longrightarrow> virtual_offset (heap s p) < dramsize s"
    "in_dram (heap s p) \<Longrightarrow> virtual_offset (heap s p) + PAGE_SIZE \<le> dramsize s"
    "\<not> in_dram (heap s p) \<Longrightarrow> virtual_offset (heap s p) < disksize s"
    "\<not> in_dram (heap s p) \<Longrightarrow> virtual_offset (heap s p) + PAGE_SIZE \<le> disksize s"
    by (auto dest: slots_bound)
qed

section \<open>Steps that keep the invariant\<close>

text \<open>A change of the state outside descriptors, queues, locks and sizes.\<close>

lemma pool_inv_cong:
  assumes "heap s' = heap s" "lists s' = lists s" "held s' = held s" "dramsize s' = dramsize s"
    "disksize s' = disksize s"
  shows "pool_inv F s' = pool_inv F s"
proof -
  have n: "npool s' = npool s" using assms by (simp add: npool_def)
  have "fits s' l p = fits s l p" for l p
    using assms n by (cases l) (simp_all add: fits_def resident_page_def backed_def)
  then have "filed s' p = filed s p" for p using assms(2) by (simp add: filed_def)
  with assms n show ?thesis
    by (simp add: pool_inv_def queues_free_def frame_def [abs_def] all_frames_def)
qed

text \<open>Taking a page off its queue.\<close>

lemma fits_lists:
  assumes "fits s l q" "\<And>d. reserve (heap s q) = Some d \<Longrightarrow> page_list s d = Some Disk_reserve_list \<Longrightarrow>
      reserve (heap s d) = Some q \<Longrightarrow> list_p (link fs d) = Some Disk_reserve_list"
  shows "fits (s\<lparr>lists := fs\<rparr>) l q"
  using assms by (auto simp: fits_def resident_page_def backed_def Let_def split: list_id.splits)

lemma pool_inv_take:
  assumes inv: "pool_inv F s" and p: "page_list s p = Some l"
    and l: "l \<noteq> Disk_reserve_list \<or> (\<exists>v \<in> F. reserve (heap s p) = Some v)"
    and fs: "lists_ok fs" "\<And>q. list_p (link fs q) = (if q = p then None else page_list s q)"
  shows "pool_inv (insert p F) (s\<lparr>lists := fs\<rparr>)"
proof -
  note p' = pool_inv_listed [OF inv p]
  have "filed (s\<lparr>lists := fs\<rparr>) q" if q: "q < npool s" "q \<notin> insert p F" for q
  proof -
    obtain l' where l': "page_list s q = Some l'" "fits s l' q"
      using pool_invD(10) [OF inv, of q] q by (auto simp: filed_def)
    have "fits (s\<lparr>lists := fs\<rparr>) l' q"
    proof (rule fits_lists [OF l'(2)])
      fix d assume d: "page_list s d = Some Disk_reserve_list" "reserve (heap s d) = Some q"
      then have "d \<noteq> p" using l p q by auto
      with d show "list_p (link fs d) = Some Disk_reserve_list" by (simp add: fs(2))
    qed
    with l' q show ?thesis by (auto simp: filed_def fs(2))
  qed
  then show ?thesis using inv p' fs
    by (auto simp: pool_inv_def queues_free_def frame_def [abs_def] all_frames_def)
qed

text \<open>Filing a page that fits.\<close>

lemma pool_inv_file:
  assumes inv: "pool_inv F s" and p: "p \<in> F" "fits s l p"
    and fs: "lists_ok fs" "\<And>q. list_p (link fs q) = (if q = p then Some l else page_list s q)"
  shows "pool_inv (F - {p}) (s\<lparr>lists := fs\<rparr>)"
proof -
  have pN: "page_list s p = None" "p < npool s" using pool_invD(6,7) [OF inv p(1)] by auto
  have f: "fits (s\<lparr>lists := fs\<rparr>) l' q" if "fits s l' q" for l' q
    by (rule fits_lists [OF that]) (use pN in \<open>auto simp: fs(2)\<close>)
  have "filed (s\<lparr>lists := fs\<rparr>) q" if q: "q < npool s" "q \<notin> F - {p}" for q
    using pool_invD(10) [OF inv q(1)] q p f by (cases "q = p") (auto simp: filed_def fs(2))
  then show ?thesis using inv pN fs
    by (auto simp: pool_inv_def queues_free_def frame_def [abs_def] all_frames_def)
qed

text \<open>Changing descriptors in flight.\<close>

lemma pool_inv_heap:
  assumes inv: "pool_inv F s" and out: "\<And>q. q \<notin> F \<Longrightarrow> h q = heap s q"
    and in_F: "\<And>q. q \<in> F \<Longrightarrow> pt (h q) = BASEP \<and> \<not> present (h q)"
    and bij: "bij_betw (\<lambda>p. (in_dram (h p), virtual_offset (h p))) {..<npool s} (all_frames s)"
    and res: "\<And>q d. q \<in> F \<Longrightarrow> d \<notin> F \<Longrightarrow> has_reserve (heap s q) \<Longrightarrow> reserve (heap s q) = Some d \<Longrightarrow>
      reserve (heap s d) = Some q \<Longrightarrow> reserve (h q) = Some d \<and> has_reserve (h q)"
  shows "pool_inv F (s\<lparr>heap := h\<rparr>)"
proof -
  have "filed (s\<lparr>heap := h\<rparr>) p" if p: "p < npool s" "p \<notin> F" for p
  proof -
    obtain l where l: "page_list s p = Some l" "fits s l p"
      using pool_invD(10) [OF inv p] by (auto simp: filed_def)
    have b: "backed (s\<lparr>heap := h\<rparr>) d p" if "backed s d p" for d
      using that pool_invD(7) [OF inv, of d] out [of d] by (cases "d \<in> F") (auto simp: backed_def)
    have "fits (s\<lparr>heap := h\<rparr>) l p"
    proof (cases "l = Disk_reserve_list")
      case True
      then obtain q where q: "reserve (heap s p) = Some q" "q < npool s" "reserve (heap s q) = Some p"
        "has_reserve (heap s q)" using l(2) by (auto simp: fits_def Let_def)
      then have "reserve (h q) = Some p \<and> has_reserve (h q)"
        using res [of q p] out [of q] p by (cases "q \<in> F") auto
      with True q l(2) out [OF p(2)] show ?thesis by (simp add: fits_def Let_def)
    next
      case False
      then show ?thesis using l(2) out [OF p(2)] b
        by (auto simp: fits_def resident_page_def Let_def split: list_id.splits)
    qed
    with l show ?thesis by (auto simp: filed_def)
  qed
  moreover have "pt (h p) = BASEP \<and> \<not> present (h p)" if "p < npool s" for p
    using that in_F out pool_invD(4,5) [OF inv] by (cases "p \<in> F") auto
  ultimately show ?thesis using inv bij
    by (auto simp: pool_inv_def queues_free_def frame_def [abs_def] all_frames_def)
qed

text \<open>The usual cases: one descriptor keeps its place, or two exchange theirs.\<close>

lemma pool_inv_upd:
  assumes inv: "pool_inv F s" and p: "p \<in> F" and keep: "in_dram h = in_dram (heap s p)"
    "virtual_offset h = virtual_offset (heap s p)" "pt h = BASEP" "\<not> present h"
    and res: "\<And>d. d \<notin> F \<Longrightarrow> has_reserve (heap s p) \<Longrightarrow> reserve (heap s p) = Some d \<Longrightarrow>
      reserve (heap s d) = Some p \<Longrightarrow> reserve h = Some d \<and> has_reserve h"
  shows "pool_inv F (s\<lparr>heap := (heap s)(p := h)\<rparr>)"
proof (rule pool_inv_heap [OF inv])
  have "(\<lambda>q. (in_dram (((heap s)(p := h)) q), virtual_offset (((heap s)(p := h)) q))) = frame s"
    using keep by (auto simp: frame_def)
  then show "bij_betw (\<lambda>q. (in_dram (((heap s)(p := h)) q), virtual_offset (((heap s)(p := h)) q)))
      {..<npool s} (all_frames s)" using pool_invD(9) [OF inv] by simp
qed (use p keep res pool_invD(4,5,6) [OF inv] in \<open>auto split: if_splits\<close>)

lemma pool_inv_swap:
  assumes inv: "pool_inv F s" and pq: "p \<in> F" "q \<in> F" "p \<noteq> q"
    and out: "\<And>r. r \<noteq> p \<Longrightarrow> r \<noteq> q \<Longrightarrow> h r = heap s r"
    and P: "in_dram (h p) = in_dram (heap s q)" "virtual_offset (h p) = virtual_offset (heap s q)"
      "in_dram (h q) = in_dram (heap s p)" "virtual_offset (h q) = virtual_offset (heap s p)"
      "pt (h p) = BASEP" "\<not> present (h p)" "pt (h q) = BASEP" "\<not> present (h q)"
    and res: "\<And>r d. r = p \<or> r = q \<Longrightarrow> d \<notin> F \<Longrightarrow> has_reserve (heap s r) \<Longrightarrow> reserve (heap s r) = Some d \<Longrightarrow>
      reserve (heap s d) = Some r \<Longrightarrow> reserve (h r) = Some d \<and> has_reserve (h r)"
  shows "pool_inv F (s\<lparr>heap := h\<rparr>)"
proof (rule pool_inv_heap [OF inv])
  define w where "w = (\<lambda>r. if r = p then q else if r = q then p else r)"
  have "(\<lambda>r. (in_dram (h r), virtual_offset (h r))) = frame s \<circ> w"
    using out P by (auto simp: frame_def fun_eq_iff w_def)
  moreover have "bij_betw w {..<npool s} {..<npool s}"
    using pool_invD(6) [OF inv] pq by (intro bij_betw_byWitness [where f' = w]) (auto simp: w_def)
  ultimately show "bij_betw (\<lambda>r. (in_dram (h r), virtual_offset (h r))) {..<npool s} (all_frames s)"
    using pool_invD(9) [OF inv] bij_betw_trans by metis
  show "reserve (h r) = Some d \<and> has_reserve (h r)"
    if "r \<in> F" "d \<notin> F" "has_reserve (heap s r)" "reserve (heap s r) = Some d" "reserve (heap s d) = Some r" for r d
    using that res [of r d] out [of r] by (cases "r = p \<or> r = q") auto
  show "pt (h r) = BASEP \<and> \<not> present (h r)" if "r \<in> F" for r
    using that P out [of r] pool_invD(4,5,6) [OF inv] by (cases "r = p \<or> r = q") auto
  show "h r = heap s r" if "r \<notin> F" for r using that pq out by metis
qed

text \<open>A descriptor outside the pool.\<close>

lemma pool_inv_outside:
  assumes inv: "pool_inv F s" and p: "npool s \<le> p"
  shows "pool_inv F (s\<lparr>heap := (heap s)(p := h)\<rparr>)"
proof -
  let ?s = "s\<lparr>heap := (heap s)(p := h)\<rparr>"
  have h: "heap ?s q = heap s q" if "q < npool s" for q using that p by simp
  have b: "backed ?s d q = backed s d q" for d q using h [of d] by (auto simp: backed_def)
  have f: "fits ?s l q" if q: "q < npool s" "fits s l q" for l q
  proof (cases "l = Disk_reserve_list")
    case True
    then obtain r where r: "reserve (heap s q) = Some r" "r < npool s" "reserve (heap s r) = Some q" "has_reserve (heap s r)"
      using q(2) by (auto simp: fits_def Let_def)
    show ?thesis using True q(2) r unfolding fits_def h [OF q(1)] by (simp add: Let_def h [OF r(2), simplified])
  next
    case False
    then show ?thesis using q(2) unfolding fits_def resident_page_def h [OF q(1)] b by (cases l) simp_all
  qed
  have "bij_betw (frame ?s) {..<npool s} (all_frames s)"
    using pool_invD(9) [OF inv] p by (subst bij_betw_cong [where g = "frame s"]) (auto simp: frame_def)
  moreover have "filed ?s q" if "q < npool s" "q \<notin> F" for q
    using pool_invD(10) [OF inv that] f [OF that(1)] by (auto simp: filed_def)
  ultimately show ?thesis using inv p by (auto simp: pool_inv_def queues_free_def all_frames_def)
qed

section \<open>Rules for the operations of a policy\<close>

text \<open>
  \<open>pres F s s'\<close>: what an operation of the policy leaves alone beside the invariant: the globals of
  \<open>env\<close>, the address of every page, the descriptors the caller holds and those outside the pool.
\<close>

definition pres :: "page_ptr set \<Rightarrow> 'k ext \<Rightarrow> 'k ext \<Rightarrow> bool" where
  "pres F s s' \<longleftrightarrow> env s s' \<and> (\<forall>q. va (heap s' q) = va (heap s q)) \<and> (\<forall>q \<in> F. heap s' q = heap s q) \<and>
     (\<forall>q. npool s \<le> q \<longrightarrow> heap s' q = heap s q)"

lemma env_npool: "env s s' \<Longrightarrow> npool s' = npool s"
  by (simp add: env_def npool_def)

lemma pres_refl [simp]: "pres F s s"
  by (simp add: pres_def)

lemma pres_trans [trans]: "pres F s s' \<Longrightarrow> pres F s' s'' \<Longrightarrow> pres F s s''"
  by (auto simp: pres_def env_npool intro: env_trans)

lemma pres_mono: "pres F s s' \<Longrightarrow> F' \<subseteq> F \<Longrightarrow> pres F' s s'"
  by (auto simp: pres_def)

lemma presD:
  assumes "pres F s s'"
  shows "env s s'" "npool s' = npool s" "va (heap s' q) = va (heap s q)" "q \<in> F \<Longrightarrow> heap s' q = heap s q"
  using assms by (simp_all add: pres_def env_npool)

lemma pool_inv_deq_wp:
  assumes inv: "pool_inv F s" and l: "l \<noteq> Disk_reserve_list"
    and N: "seq (lists s) l = [] \<Longrightarrow> Q (None, s)"
    and Q: "\<And>fs xs x. pool_inv (insert x F) (s\<lparr>lists := fs\<rparr>) \<Longrightarrow> x \<notin> F \<Longrightarrow> x < npool s \<Longrightarrow>
      fits (s\<lparr>lists := fs\<rparr>) l x \<Longrightarrow> seq (lists s) l = xs @ [x] \<Longrightarrow> seq fs = (seq (lists s))(l := xs) \<Longrightarrow>
      Q (Some x, s\<lparr>lists := fs\<rparr>)"
  shows "wpE (dequeue_fifo l s) Q E"
proof (rule dequeue_wp [OF pool_invD(1) [OF inv]])
  show "seq (lists s) l = [] \<Longrightarrow> Q (None, s)" by (rule N)
next
  fix fs xs x
  assume a: "lists_ok fs" "seq (lists s) l = xs @ [x]" "page_list s x = Some l" "seq fs = (seq (lists s))(l := xs)"
    "\<And>q. list_p (link fs q) = (if q = x then None else page_list s q)"
  note x = pool_inv_listed [OF inv a(3)]
  have "fits (s\<lparr>lists := fs\<rparr>) l x"
    by (rule fits_lists [OF x(3)]) (use a(3,5) l in auto)
  then show "Q (Some x, s\<lparr>lists := fs\<rparr>)"
    using pool_inv_take [OF inv a(3) _ a(1,5)] l x a by (intro Q) auto
qed

lemma pool_inv_enq_wp:
  assumes inv: "pool_inv F s" and p: "p \<in> F" "fits s l p"
    and Q: "\<And>fs. pool_inv (F - {p}) (s\<lparr>lists := fs\<rparr>) \<Longrightarrow> seq fs = (seq (lists s))(l := p # seq (lists s) l) \<Longrightarrow>
      Q (s\<lparr>lists := fs\<rparr>)"
  shows "wpE (enqueue_fifo l p s) Q E"
proof (rule enqueue_wp [OF pool_invD(1) [OF inv] pool_invD(7) [OF inv p(1)]])
  fix fs
  assume a: "lists_ok fs" "seq fs = (seq (lists s))(l := p # seq (lists s) l)"
    "\<And>q. list_p (link fs q) = (if q = p then Some l else page_list s q)"
  then show "Q (s\<lparr>lists := fs\<rparr>)" using pool_inv_file [OF inv p a(1,3)] by (intro Q) auto
qed

lemma pool_inv_tryremove_wp:
  assumes inv: "pool_inv F s" and p: "page_list s p = Some l"
    and l: "l \<noteq> Disk_reserve_list \<or> (\<exists>v \<in> F. reserve (heap s p) = Some v)"
    and Q: "\<And>fs. pool_inv (insert p F) (s\<lparr>lists := fs\<rparr>) \<Longrightarrow>
      (\<And>q. list_p (link fs q) = (if q = p then None else page_list s q)) \<Longrightarrow> Q (0, s\<lparr>lists := fs\<rparr>)"
  shows "wpE (page_list_tryremove_page (Some l) p s) Q E"
  by (rule tryremove_wp [OF pool_invD(1) [OF inv] p])
     (use pool_inv_take [OF inv p l] in \<open>auto intro: Q\<close>)

lemma pres_upd [simp]:
  "pres F s (s'\<lparr>lists := fs\<rparr>) = pres F s s'" "pres F s (s'\<lparr>kst := k\<rparr>) = pres F s s'"
  "pres F s (s'\<lparr>stats := c\<rparr>) = pres F s s'"
  by (simp_all add: pres_def)

section \<open>Changes outside the queues\<close>

lemma pool_inv_upd_page:
  assumes "pool_inv F s" "p \<in> F" "\<And>h. in_dram (f h) = in_dram h" "\<And>h. virtual_offset (f h) = virtual_offset h"
    "\<And>h. pt (f h) = pt h" "\<And>h. present (f h) = present h" "\<And>h. reserve (f h) = reserve h"
    "\<And>h. has_reserve (f h) = has_reserve h"
  shows "pool_inv F (upd_page p f s)"
  using assms pool_invD(4-6) [OF assms(1)] unfolding upd_page_def by (intro pool_inv_upd) auto

lemma pool_inv_kst [simp]: "pool_inv F (s\<lparr>kst := k\<rparr>) = pool_inv F s"
  by (rule pool_inv_cong) simp_all

lemma pool_inv_flags [simp]:
  "pool_inv F (s\<lparr>shrinkage_running := b\<rparr>) = pool_inv F s" "pool_inv F (s\<lparr>kswapd_running := b\<rparr>) = pool_inv F s"
  "pool_inv F (s\<lparr>kswapd_at := a\<rparr>) = pool_inv F s" "pool_inv F (s\<lparr>tls := t\<rparr>) = pool_inv F s"
  "pool_inv F (s\<lparr>stats := c\<rparr>) = pool_inv F s" "pool_inv F (count g s) = pool_inv F s"
  "pool_inv F (upd_me f s) = pool_inv F s"
  by (rule pool_inv_cong; simp add: count_def upd_me_def)+

lemma fits_kst [simp]: "fits (s\<lparr>kst := k\<rparr>) l p = fits s l p"
  by (cases l) (simp_all add: fits_def resident_page_def backed_def)

lemma fits_resident:
  "l \<in> {Active_list, Inactive_list, Eviction_list} \<Longrightarrow> fits s l p = resident_page s p"
  by (auto simp: fits_def)

lemma resident_upd_page:
  assumes "resident_page s p" "\<And>h. in_dram (f h) = in_dram h" "\<And>h. swapped_out (f h) = swapped_out h"
    "\<And>h. va (f h) = va h" "\<And>h. migrating (f h) = migrating h" "\<And>h. reserve (f h) = reserve h"
    "\<And>h. has_reserve (f h) = has_reserve h"
  shows "resident_page (upd_page p f s) p"
  using assms by (auto simp: resident_page_def Let_def backed_def)

lemma pres_upd_page:
  assumes "pres F s s'" "p \<notin> F" "p < npool s" "\<And>h. va (f h) = va h"
  shows "pres F s (upd_page p f s')"
  using assms by (auto simp: pres_def)

lemma pool_inv_entries: "pool_inv F s \<Longrightarrow> entries s l = length (seq (lists s) l)"
  by (metis lists_ok_entries pool_invD(1) queues_free_def)

end
