(* ===== verification/Core_Faults.thy ===== *)
theory Core_Faults
  imports Core_Migrate Page_Table
begin

text \<open>
  The fault handlers, the prefetcher, \<open>mmap\<close> and \<open>munmap\<close>, and the start-up code of \<open>core.c\<close>. The
  policy is a record of the operations behind the macros of \<open>core.h\<close>. A busy wait on a page's
  \<open>migrating\<close> flag that finds the flag set can only be ended by another thread; for the running thread
  it is the outcome \<open>Spin\<close>.
\<close>

section \<open>The policy interface (core.h)\<close>

record 'k policy =
  pagefault :: "'k ext \<Rightarrow> c_error + page_ptr \<times> 'k ext"
  paging_init :: "'k ext \<Rightarrow> c_error + 'k ext"
  mmgr_remove :: "page_ptr \<Rightarrow> 'k ext \<Rightarrow> c_error + 'k ext"
  policy_add_page :: "page_ptr \<Rightarrow> 'k ext \<Rightarrow> c_error + 'k ext"
  policy_detach_page :: "page_ptr \<Rightarrow> 'k ext \<Rightarrow> c_error + 'k ext"
  policy_put_freepage :: "page_ptr \<Rightarrow> 'k ext \<Rightarrow> c_error + 'k ext"
  page_swapin_external_async :: "page_ptr \<Rightarrow> 'k ext \<Rightarrow> c_error + 'k ext"
  policy_ack_swapped_in :: "page_ptr \<Rightarrow> page_ptr \<Rightarrow> 'k ext \<Rightarrow> c_error + 'k ext"
  policy_ack_vma :: "u64 \<Rightarrow> u64 \<Rightarrow> int \<Rightarrow> 'k ext \<Rightarrow> 'k ext"

definition CORE_PREFETCH_RATE :: nat where "CORE_PREFETCH_RATE = 32"
definition CORE_PREFAULT_RATE :: nat where "CORE_PREFAULT_RATE = 128"

definition set_internal :: "bool \<Rightarrow> 'k ext \<Rightarrow> 'k ext" where
  "set_internal b = upd_me (\<lambda>t. t\<lparr>internal_call := b\<rparr>)"

definition count_wait :: "'k ext \<Rightarrow> 'k ext" where
  "count_wait = count (\<lambda>c. c\<lparr>migration_waits := migration_waits c + 1\<rparr>)"

text \<open>\<open>while (page->migrating);\<close>\<close>

definition busy_wait :: "page_ptr \<Rightarrow> 'k ext \<Rightarrow> c_error + 'k ext" where
  "busy_wait page s = (if migrating (heap s page) then Inl Spin else Inr s)"

section \<open>Write-protection faults\<close>

definition handle_wp_fault :: "page_ptr \<Rightarrow> 'k ext \<Rightarrow> c_error + 'k ext" where
  "handle_wp_fault page s = busy_wait page (count_wait s)"

section \<open>Prefetching\<close>

text \<open>
  The first loop of \<open>core_try_prefetch\<close>; its argument \<open>n\<close> is \<open>CORE_PREFETCH_RATE - nr_prefetch\<close>.
  It returns the pages it detached, in order; every other way out sets \<open>ret\<close> and ends it.
\<close>

fun prefetch_collect :: "'k policy \<Rightarrow> nat \<Rightarrow> u64 \<Rightarrow> 'k ext \<Rightarrow> c_error + page_ptr list \<times> 'k ext" where
  "prefetch_collect P 0 page_boundry s = Inr ([], s)"
| "prefetch_collect P (Suc n) page_boundry s =
     (let page_boundry = page_boundry + PAGE_SIZE in
     bindE (find_page page_boundry s) (\<lambda>(page, s).
     case page of
       None \<Rightarrow> Inr ([], s)
     | Some page \<Rightarrow>
         bindE (assertE (va (heap s page) = page_boundry)) (\<lambda>_.
         let old_va = va (heap s page) in
         bindE (lock Handler_lock s) (\<lambda>s.
         if migrating (heap s page) then Inr ([], unlock Handler_lock (count_wait s))
         else if \<not> swapped_out (heap s page) then Inr ([], unlock Handler_lock (count_wait s))
         else if va (heap s page) \<noteq> old_va then Inr ([], unlock Handler_lock s)
         else
           let s = upd_page page (\<lambda>h. h\<lparr>migrating := True\<rparr>) s;
               s = unlock Handler_lock s in
           bindE (assertE (va (heap s page) \<noteq> 0)) (\<lambda>_.
           bindE (policy_detach_page P page s) (\<lambda>s.
           bindE (prefetch_collect P n page_boundry s) (\<lambda>(ps, s).
           Inr (page # ps, s))))))))"

fun prefetch_prepare :: "'k kernel \<Rightarrow> page_ptr list \<Rightarrow> u64 \<Rightarrow> 'k ext \<Rightarrow> c_error + 'k ext" where
  "prefetch_prepare K [] buffer_pointer s = Inr s"
| "prefetch_prepare K (page # ps) buffer_pointer s =
     bindE (ioring_prepare_read K (diskfd s) (virtual_offset (heap s page)) buffer_pointer PAGE_SIZE s) (\<lambda>s.
     prefetch_prepare K ps (buffer_pointer + PAGE_SIZE) s)"

fun prefetch_frames :: "'k policy \<Rightarrow> nat \<Rightarrow> 'k ext \<Rightarrow> c_error + page_ptr list \<times> 'k ext" where
  "prefetch_frames P 0 s = Inr ([], s)"
| "prefetch_frames P (Suc n) s =
     bindE (pagefault P s) (\<lambda>(fp, s).
     bindE (prefetch_frames P n s) (\<lambda>(fps, s).
     Inr (fp # fps, s)))"

fun prefetch_finish :: "'k kernel \<Rightarrow> page_ptr list \<Rightarrow> u64 \<Rightarrow> 'k ext \<Rightarrow> c_error + 'k ext" where
  "prefetch_finish K [] buffer_pointer s = Inr s"
| "prefetch_finish K (page # ps) buffer_pointer s =
     bindE (ioring_finish_read K (diskfd s) (virtual_offset (heap s page)) buffer_pointer PAGE_SIZE s) (\<lambda>s.
     prefetch_finish K ps (buffer_pointer + PAGE_SIZE) s)"

definition prefetch_map_one :: "'k kernel \<Rightarrow> 'k policy \<Rightarrow> page_ptr \<Rightarrow> page_ptr \<Rightarrow> u64 \<Rightarrow> 'k ext \<Rightarrow> c_error + 'k ext" where
  "prefetch_map_one K P page freepage buffer_pointer s =
     bindE (kcall (k_uffd_copy K (va (heap s page)) buffer_pointer PAGE_SIZE) s) (\<lambda>s.
     bindE (policy_ack_swapped_in P page freepage s) (\<lambda>s.
     let s = upd_page page (\<lambda>h. h\<lparr>in_dram := True\<rparr>) s in
     bindE (lock Handler_lock s) (\<lambda>s.
     let s = upd_page page (\<lambda>h. h\<lparr>swapped_out := False, migrating := False\<rparr>) s in
     Inr (unlock Handler_lock s))))"

fun prefetch_map :: "'k kernel \<Rightarrow> 'k policy \<Rightarrow> (page_ptr \<times> page_ptr) list \<Rightarrow> u64 \<Rightarrow> 'k ext \<Rightarrow> c_error + 'k ext" where
  "prefetch_map K P [] buffer_pointer s = Inr s"
| "prefetch_map K P ((page, freepage) # ps) buffer_pointer s =
     bindE (prefetch_map_one K P page freepage buffer_pointer s) (\<lambda>s.
     prefetch_map K P ps (buffer_pointer + PAGE_SIZE) s)"

definition alloc_prefetch_buffer :: "'k kernel \<Rightarrow> 'k ext \<Rightarrow> c_error + 'k ext" where
  "alloc_prefetch_buffer K s =
     (if \<not> prefetch_buffer_allocated (me s) then
        bindE (libc_mmap_anon K (PAGE_SIZE * word_of_nat CORE_PREFETCH_RATE) s) (\<lambda>(a, s).
        Inr (upd_me (\<lambda>t. t\<lparr>prefetch_buffer := a, prefetch_buffer_allocated := True\<rparr>) s))
      else Inr s)"

definition core_try_prefetch :: "'k kernel \<Rightarrow> 'k policy \<Rightarrow> u64 \<Rightarrow> 'k ext \<Rightarrow> c_error + nat \<times> 'k ext" where
  "core_try_prefetch K P base_boundry s =
     bindE (assertE (base_boundry \<noteq> 0)) (\<lambda>_.
     bindE (prefetch_collect P CORE_PREFETCH_RATE base_boundry s) (\<lambda>(prefetch_list, s).
     bindE (alloc_prefetch_buffer K s) (\<lambda>s.
     bindE (prefetch_prepare K prefetch_list (prefetch_buffer (me s)) s) (\<lambda>s.
     bindE (ioring_submit_all_reads K s) (\<lambda>s.
     bindE (prefetch_frames P (length prefetch_list) s) (\<lambda>(freepage_list, s).
     bindE (prefetch_finish K prefetch_list (prefetch_buffer (me s)) s) (\<lambda>s.
     bindE (prefetch_map K P (zip prefetch_list freepage_list) (prefetch_buffer (me s)) s) (\<lambda>s.
     Inr (length prefetch_list, s)))))))))"

section \<open>Major faults\<close>

text \<open>
  \<open>must_prefetch\<close> is a local variable that is \<open>false\<close> when the condition reads it.
\<close>

definition sequential_fault :: "bool \<Rightarrow> u64 \<Rightarrow> thread_local \<Rightarrow> bool" where
  "sequential_fault must_prefetch page_boundry t \<longleftrightarrow>
     (page_boundry = prev_fault_1 t + PAGE_SIZE \<and> page_boundry = prev_fault_2 t + PAGE_SIZE * 2) \<or>
     (must_prefetch \<and> page_boundry \<le> prev_fault_1 t + PAGE_SIZE * word_of_nat CORE_PREFETCH_RATE \<and>
      page_boundry > prev_fault_1 t)"

definition handle_missing_fault :: "'k kernel \<Rightarrow> 'k policy \<Rightarrow> page_ptr \<Rightarrow> 'k ext \<Rightarrow> c_error + 'k ext" where
  "handle_missing_fault K P page s =
     (let s = set_internal True s;
          page_boundry = va (heap s page);
          old_va = va (heap s page) in
     bindE (lock Handler_lock s) (\<lambda>s.
     if migrating (heap s page) then
       let s = unlock Handler_lock (count_wait s) in busy_wait page s
     else if \<not> swapped_out (heap s page) then
       let s = unlock Handler_lock (count_wait s) in busy_wait page s
     else
       let s = upd_page page (\<lambda>h. h\<lparr>migrating := True\<rparr>) s;
           s = unlock Handler_lock s;
           must_prefetch = sequential_fault False page_boundry (me s);
           s = upd_me (\<lambda>t. t\<lparr>prev_fault_2 := prev_fault_1 t, prev_fault_1 := page_boundry\<rparr>) s in
       bindE (page_swapin_external_async P page s) (\<lambda>s.
       bindE (assertE (va (heap s page) = old_va)) (\<lambda>_.
       bindE (assertE (va (heap s page) \<noteq> 0)) (\<lambda>_.
       bindE (assertE (va (heap s page) mod PAGE_SIZE = 0)) (\<lambda>_.
       bindE (lock Handler_lock s) (\<lambda>s.
       let s = upd_page page (\<lambda>h. h\<lparr>swapped_out := False, migrating := False\<rparr>) s;
           s = unlock Handler_lock s;
           s = count (\<lambda>c. c\<lparr>major_faults_handled := major_faults_handled c + 1\<rparr>) s in
       bindE (if must_prefetch
              then bindE (core_try_prefetch K P page_boundry s) (\<lambda>(_, s). Inr s)
              else Inr s) (\<lambda>s.
       Inr (set_internal False s)))))))))"

section \<open>First faults\<close>

definition note_fault :: "u64 \<Rightarrow> 'k ext \<Rightarrow> 'k ext" where
  "note_fault page_boundry s =
     (let s = upd_me (\<lambda>t. t\<lparr>prev_fault_2 := prev_fault_1 t, prev_fault_1 := page_boundry\<rparr>) s in
      s\<lparr>prev_fault_global_2 := prev_fault_global_1 s, prev_fault_global_1 := page_boundry\<rparr>)"

definition handle_first_fault :: "'k kernel \<Rightarrow> 'k policy \<Rightarrow> u64 \<Rightarrow> 'k ext \<Rightarrow> c_error + 'k ext" where
  "handle_first_fault K P page_boundry s =
     (let s = set_internal True s in
     bindE (assertE (page_boundry \<noteq> 0)) (\<lambda>_.
     bindE (pagefault P s) (\<lambda>(newpage, s).
     bindE (lock Allocator_lock s) (\<lambda>s.
     bindE (find_page page_boundry s) (\<lambda>(page, s).
     case page of
       Some page \<Rightarrow>
         let s = unlock Allocator_lock s in
         bindE (policy_put_freepage P newpage s) (\<lambda>s. busy_wait page s)
     | None \<Rightarrow>
         let page = newpage;
             s = upd_page page (\<lambda>h. h\<lparr>migrating := True, swapped_out := False\<rparr>) s in
         bindE (assertE (va (heap s page) = 0)) (\<lambda>_.
         let s = upd_page page (\<lambda>h. h\<lparr>va := page_boundry\<rparr>) s in
         bindE (assertE (va (heap s page) \<noteq> 0)) (\<lambda>_.
         bindE (assertE (va (heap s page) mod PAGE_SIZE = 0)) (\<lambda>_.
         bindE (add_page page s) (\<lambda>s.
         let s = unlock Allocator_lock s;
             s = note_fault page_boundry s;
             pagesize = pt_to_pagesize (pt (heap s page)) in
         bindE (assertE (in_dram (heap s page))) (\<lambda>_.
         bindE (kcall (k_uffd_copy K (va (heap s page)) (page_cache s) pagesize) s) (\<lambda>s.
         let s = upd_page page (\<lambda>h. h\<lparr>migrating := False, swapped_out := False\<rparr>) s in
         bindE (policy_add_page P page s) (\<lambda>s.
         let s = count (\<lambda>c. c\<lparr>mem_allocated := mem_allocated c + pagesize,
                   first_faults_handled := first_faults_handled c + 1,
                   pages_allocated := pages_allocated c + 1\<rparr>) s in
         Inr (set_internal False s)))))))))))))"

section \<open>The signal handler\<close>

definition SIGSEGV :: int where "SIGSEGV = 11"
definition SIGBUS :: int where "SIGBUS = 7"

definition uswap_sig_handler :: "'k kernel \<Rightarrow> 'k policy \<Rightarrow> int \<Rightarrow> u64 \<Rightarrow> 'k ext \<Rightarrow> c_error + 'k ext" where
  "uswap_sig_handler K P code fault_addr s =
     (let s = set_internal True s;
          page_boundry = fault_addr AND NOT (PAGE_SIZE - 1) in
     bindE (assertE (code \<noteq> SIGSEGV)) (\<lambda>_.
     bindE (find_page page_boundry s) (\<lambda>(page, s).
     bindE (case page of
              None \<Rightarrow> handle_first_fault K P page_boundry s
            | Some page \<Rightarrow>
                if swapped_out (heap s page) then handle_missing_fault K P page s
                else handle_wp_fault page s) (\<lambda>s.
     Inr (set_internal False s)))))"

section \<open>Prefaulting\<close>

text \<open>
  \<open>core_try_prefault\<close> is compiled but not called in the default build. It adds the local variable
  \<open>pagesize\<close> to \<open>mem_allocated\<close> without ever setting it; its value is the argument \<open>junk\<close>. The
  argument \<open>n\<close> is \<open>CORE_PREFAULT_RATE - nr_prefault\<close>.
\<close>

fun prefault_loop :: "'k kernel \<Rightarrow> 'k policy \<Rightarrow> u64 \<Rightarrow> nat \<Rightarrow> u64 \<Rightarrow> 'k ext \<Rightarrow> c_error + nat \<times> 'k ext" where
  "prefault_loop K P junk 0 page_boundry s = Inr (0, s)"
| "prefault_loop K P junk (Suc n) page_boundry s =
     (let page_boundry = page_boundry + PAGE_SIZE in
     bindE (pagefault P s) (\<lambda>(newpage, s).
     bindE (lock Allocator_lock s) (\<lambda>s.
     bindE (find_page page_boundry s) (\<lambda>(page, s).
     case page of
       Some page \<Rightarrow>
         let s = unlock Allocator_lock s in
         bindE (policy_put_freepage P newpage s) (\<lambda>s. Inr (0, s))
     | None \<Rightarrow>
         let (ok, k) = k_uffd_copy K page_boundry (page_cache s) PAGE_SIZE (kst s);
             s = s\<lparr>kst := k\<rparr> in
         if \<not> ok then
           let s = unlock Allocator_lock s in
           bindE (policy_put_freepage P newpage s) (\<lambda>s. Inr (0, s))
         else
           let page = newpage;
               s = upd_page page (\<lambda>h. h\<lparr>migrating := True, swapped_out := False\<rparr>) s in
           bindE (assertE (va (heap s page) = 0)) (\<lambda>_.
           let s = upd_page page (\<lambda>h. h\<lparr>va := page_boundry\<rparr>) s in
           bindE (assertE (va (heap s page) \<noteq> 0)) (\<lambda>_.
           bindE (assertE (va (heap s page) mod PAGE_SIZE = 0)) (\<lambda>_.
           bindE (add_page page s) (\<lambda>s.
           let s = upd_page page (\<lambda>h. h\<lparr>migrating := False, swapped_out := False\<rparr>) s;
               s = unlock Allocator_lock s in
           bindE (policy_add_page P page s) (\<lambda>s.
           let s = count (\<lambda>c. c\<lparr>mem_allocated := mem_allocated c + junk,
                     pages_allocated := pages_allocated c + 1\<rparr>) s in
           bindE (prefault_loop K P junk n page_boundry s) (\<lambda>(m, s).
           Inr (m + 1, s)))))))))))"

definition core_try_prefault :: "'k kernel \<Rightarrow> 'k policy \<Rightarrow> u64 \<Rightarrow> u64 \<Rightarrow> 'k ext \<Rightarrow> c_error + nat \<times> 'k ext" where
  "core_try_prefault K P junk base_boundry s =
     bindE (assertE (base_boundry \<noteq> 0)) (\<lambda>_.
     prefault_loop K P junk CORE_PREFAULT_RATE base_boundry s)"

end
