(* ===== verification/Policy.thy ===== *)
theory Policy
  imports Pool Core_Faults
begin

text \<open>
  What the core relies on when it calls a paging policy: the contract of the operations behind the
  macros of \<open>core.h\<close>, in terms of the pool invariant. It is a locale; the policies interpret it, and
  the proofs of the fault handlers, of \<open>munmap\<close> and of the prefetcher are made once inside it.
\<close>

section \<open>Vocabulary of the contract\<close>

text \<open>What a descriptor returned by the allocation is: a free frame, in no queue.\<close>

definition free_frame :: "page_ptr set \<Rightarrow> 'k ext \<Rightarrow> page_ptr \<Rightarrow> bool" where
  "free_frame F s p \<longleftrightarrow> pool_inv (insert p F) s \<and> p \<notin> F \<and> in_dram (heap s p) \<and> va (heap s p) = 0 \<and> \<not> has_reserve (heap s p)"

text \<open>The number of DRAM frames, and of those that the caller holds.\<close>

definition nframes :: "'k ext \<Rightarrow> nat" where
  "nframes s = unat (dramsize s div PAGE_SIZE)"

definition frames_held :: "page_ptr set \<Rightarrow> 'k ext \<Rightarrow> nat" where
  "frames_held F s = card {p \<in> F. in_dram (heap s p)}"

text \<open>
  The ways in which an operation may stop the process: the kernel failed, or memory or swap space
  ran out. Not among them: a failed assertion about the library's own data, a null pointer, a mutex
  locked twice, a loop without end.
\<close>

definition stops :: "c_error \<Rightarrow> bool" where
  "stops e \<longleftrightarrow> e \<in> {Kernel_failed, Out_of_memory, No_disk_page}"

lemma stops_simps [simp]: "stops Kernel_failed" "stops Out_of_memory" "stops No_disk_page"
  "\<not> stops Assert_failed" "\<not> stops Null_deref" "\<not> stops Deadlock" "\<not> stops Spin"
  by (simp_all add: stops_def)

text \<open>An allocation does not wait for ever if its caller holds less than half of the frames.\<close>

definition can_alloc :: "page_ptr set \<Rightarrow> 'k ext \<Rightarrow> bool" where
  "can_alloc F s \<longleftrightarrow> 2 * frames_held F s < nframes s \<and> \<not> shrinkage_running s"

text \<open>
  The core sets \<open>migrating\<close> on a page that is still in its queue and clears \<open>swapped_out\<close> and
  \<open>migrating\<close> after the policy has filed it; the invariant then holds of the state with the flags as
  they were before, or will be after.
\<close>

abbreviation unmark :: "page_ptr \<Rightarrow> 'k ext \<Rightarrow> 'k ext" where
  "unmark p \<equiv> upd_page p (\<lambda>h. h\<lparr>migrating := False\<rparr>)"

abbreviation settle :: "page_ptr \<Rightarrow> 'k ext \<Rightarrow> 'k ext" where
  "settle p \<equiv> upd_page p (\<lambda>h. h\<lparr>swapped_out := False, migrating := False\<rparr>)"

text \<open>A page on disk, and one on its way in: it is in no queue.\<close>

definition on_disk :: "'k ext \<Rightarrow> page_ptr \<Rightarrow> bool" where
  "on_disk s p \<longleftrightarrow> \<not> in_dram (heap s p) \<and> swapped_out (heap s p) \<and> va (heap s p) \<noteq> 0 \<and>
     page_aligned (va (heap s p)) \<and> \<not> has_reserve (heap s p)"

definition incoming :: "page_ptr set \<Rightarrow> 'k ext \<Rightarrow> page_ptr \<Rightarrow> bool" where
  "incoming F s p \<longleftrightarrow> pool_inv (insert p F) s \<and> p \<notin> F \<and> on_disk s p"

text \<open>The acknowledgement of a prefetched page: the core will still set \<open>in_dram\<close> and clear the flags.\<close>

abbreviation arrive :: "page_ptr \<Rightarrow> 'k ext \<Rightarrow> 'k ext" where
  "arrive p \<equiv> upd_page p (\<lambda>h. h\<lparr>in_dram := True, swapped_out := False, migrating := False\<rparr>)"

text \<open>What the removal of a page leaves alone.\<close>

definition only_changes :: "page_ptr set \<Rightarrow> page_ptr \<Rightarrow> 'k ext \<Rightarrow> 'k ext \<Rightarrow> bool" where
  "only_changes F p s s' \<longleftrightarrow> env s s' \<and> (\<forall>q. q \<noteq> p \<longrightarrow> va (heap s' q) = va (heap s q)) \<and>
     (\<forall>q. q \<in> F \<or> npool s \<le> q \<longrightarrow> heap s' q = heap s q)"

section \<open>The contract\<close>

text \<open>
  What the fault handlers, the prefetcher and \<open>mmap\<close> use.
\<close>

locale fault_policy =
  fixes P :: "'k policy"
  assumes pagefault_law: "pool_inv F s \<Longrightarrow> can_alloc F s \<Longrightarrow>
      wpE (pagefault P s) (\<lambda>r. free_frame F (snd r) (fst r) \<and> pres F s (snd r)) stops"
    and add_law: "pool_inv F s \<Longrightarrow> p \<in> F \<Longrightarrow> resident_page s p \<Longrightarrow>
      wpE (policy_add_page P p s) (\<lambda>s'. pool_inv (F - {p}) s' \<and> heap s' = heap s \<and> env s s') stops"
    and put_law: "free_frame F s p \<Longrightarrow>
      wpE (policy_put_freepage P p s) (\<lambda>s'. pool_inv F s' \<and> heap s' = heap s \<and> env s s') stops"
    and swapin_law: "pool_inv F (unmark p s) \<Longrightarrow> page_list s p = Some Disk_active_list \<Longrightarrow> can_alloc F s \<Longrightarrow>
      wpE (page_swapin_external_async P p s) (\<lambda>s'. pool_inv F (settle p s') \<and> pres F s (settle p s')) stops"
    and detach_law: "pool_inv F (unmark p s) \<Longrightarrow> page_list s p = Some Disk_active_list \<Longrightarrow>
      wpE (policy_detach_page P p s) (\<lambda>s'. incoming F s' p \<and> heap s' = heap s \<and> env s s') stops"
    and ack_law: "on_disk s p \<Longrightarrow> p \<notin> F \<Longrightarrow> migrating (heap s p) \<Longrightarrow> free_frame (insert p F) s fp \<Longrightarrow>
      wpE (policy_ack_swapped_in P p fp s) (\<lambda>s'. pool_inv F (arrive p s') \<and> pres F s (arrive p s')) stops"
    and ack_vma_law: "pool_inv F s \<Longrightarrow> pool_inv F (policy_ack_vma P a len priority s) \<and>
      pres F s (policy_ack_vma P a len priority s)"

text \<open>
  What \<open>munmap\<close> uses beyond that. A policy may let the removal of a page wait for another thread; \<open>halts\<close>
  says how a removal may end without a result.
\<close>

locale paging_policy = fault_policy P for P :: "'k policy" +
  fixes halts :: "c_error \<Rightarrow> bool"
  assumes halts_stops: "stops e \<Longrightarrow> halts e"
    and remove_law: "pool_inv F (unmark p s) \<Longrightarrow> page_list s p = Some l \<Longrightarrow>
      l \<in> {Active_list, Inactive_list, Eviction_list, Disk_active_list} \<Longrightarrow>
      wpE (mmgr_remove P p s) (\<lambda>s'. pool_inv F s' \<and> only_changes F p s s' \<and> va (heap s' p) = 0) halts"

section \<open>Contracts inside a policy\<close>

text \<open>
  What the allocation of a frame relies on: the reclaim at a priority only moves pages between queues, and
  can only fail in the kernel. What the swap-in relies on: the allocation itself.
\<close>

locale reclaimer =
  fixes reclaim :: "nat \<Rightarrow> 'k ext \<Rightarrow> c_error + int \<times> 'k ext"
  assumes reclaim_law: "pool_inv F s \<Longrightarrow> wpE (reclaim priority s) (\<lambda>r. pool_inv F (snd r) \<and> pres F s (snd r)) stops"

locale frame_source =
  fixes fetch :: "'k ext \<Rightarrow> c_error + page_ptr \<times> 'k ext"
  assumes fetch_law: "pool_inv F s \<Longrightarrow> can_alloc F s \<Longrightarrow>
      wpE (fetch s) (\<lambda>r. free_frame F (snd r) (fst r) \<and> pres F s (snd r)) stops"

end
