(* ===== verification/Disklinux.thy ===== *)
theory Disklinux
  imports Policy
begin

text \<open>
  \<open>policies/disklinux.c\<close>, the default paging policy: eight queues of descriptors, the reclaim scans
  that move pages from the active over the inactive to the eviction queue, the eviction workers,
  the allocation of a free DRAM page with direct reclaim, and the entry points the core calls
  through the macros of \<open>core.h\<close>.

  The endless loops of the background threads are given by their bodies, one call per iteration.
  A loop of the source that no step of the running thread could end is the outcome \<open>Spin\<close>.
\<close>

section \<open>Parameters of the policy (disklinux.h)\<close>

definition HIGH_WATER_THRESHOLD :: u64 where "HIGH_WATER_THRESHOLD = 90"
definition LOW_WATER_THREASHOLD :: u64 where "LOW_WATER_THREASHOLD = 85"
definition WRITER_THREADS :: nat where "WRITER_THREADS = 6"
definition EVICT_VECTOR_SIZE :: nat where "EVICT_VECTOR_SIZE = 8"
definition SWAP_CLUSTER_COUNT :: nat where "SWAP_CLUSTER_COUNT = 32"

text \<open>Conversion to the 32-bit \<open>int\<close>.\<close>

definition c_int :: "int \<Rightarrow> int" where
  "c_int x = signed_take_bit 31 x"

section \<open>Migration and swap-in\<close>

definition lrudisk_migrate_down :: "'k kernel \<Rightarrow> page_ptr \<Rightarrow> u64 \<Rightarrow> bool \<Rightarrow> bool \<Rightarrow> 'k ext \<Rightarrow> c_error + 'k ext" where
  "lrudisk_migrate_down K page offset need_wp writeback s =
     (let s = upd_page page (\<lambda>h. h\<lparr>migrating := True\<rparr>) s in
     bindE (if need_wp then extmem_wp_page K page True s else Inr s) (\<lambda>s.
     extmem_migrate_downdisk K page offset False writeback s))"

definition lrudisk_migrate_up :: "'k kernel \<Rightarrow> page_ptr \<Rightarrow> u64 \<Rightarrow> 'k ext \<Rightarrow> c_error + 'k ext" where
  "lrudisk_migrate_up K page offset s = extmem_migrate_updisk K page offset s"

definition lrudisk_swapin :: "'k kernel \<Rightarrow> page_ptr \<Rightarrow> page_ptr \<Rightarrow> 'k ext \<Rightarrow> c_error + 'k ext" where
  "lrudisk_swapin K page freepage s =
     (let file_offset = virtual_offset (heap s page) in
     bindE (assertE (in_dram (heap s freepage))) (\<lambda>_.
     bindE (assertE (page_list s freepage = Some Active_list)) (\<lambda>_.
     bindE (page_list_remove_page Active_list freepage s) (\<lambda>s.
     bindE (assertE (page_list s page = Some Disk_active_list)) (\<lambda>_.
     bindE (page_list_remove_page Disk_active_list page s) (\<lambda>s.
     let offset = virtual_offset (heap s freepage) in
     bindE (lrudisk_migrate_up K page offset s) (\<lambda>s.
     let s = upd_page freepage (\<lambda>h. h\<lparr>virtual_offset := file_offset, in_dram := False,
               swapped_out := True, migrating := False\<rparr>) s in
     bindE (enqueue_fifo Active_list page s) (\<lambda>s.
     enqueue_fifo Disk_free_list freepage s))))))))"

text \<open>
  \<open>do { list = page->list; assert(list == &l); ret = tryremove(&l, page); assert(ret == 0); }
  while (ret != 0)\<close>: the loop never runs twice.
\<close>

definition detach_from :: "list_id \<Rightarrow> page_ptr \<Rightarrow> 'k ext \<Rightarrow> c_error + 'k ext" where
  "detach_from l page s =
     bindE (assertE (page_list s page = Some l)) (\<lambda>_.
     bindE (page_list_tryremove_page (Some l) page s) (\<lambda>(ret, s).
     bindE (assertE (ret = 0)) (\<lambda>_. Inr s)))"

text \<open>
  The end of every swap-in: the descriptor of the frame that was used takes over the disk slot and
  becomes the page's reserve.
\<close>

definition link_reserve :: "page_ptr \<Rightarrow> page_ptr \<Rightarrow> u64 \<Rightarrow> 'k ext \<Rightarrow> c_error + 'k ext" where
  "link_reserve page freepage file_offset s =
     (let s = upd_page freepage (\<lambda>h. h\<lparr>virtual_offset := file_offset, in_dram := False,
                swapped_out := True, migrating := False\<rparr>) s;
          s = upd_page freepage (\<lambda>h. h\<lparr>reserve := Some page\<rparr>) s;
          s = upd_page page (\<lambda>h. h\<lparr>reserve := Some freepage, has_reserve := True\<rparr>) s;
          s = upd_page freepage (\<lambda>h. h\<lparr>has_reserve := True\<rparr>) s in
     bindE (enqueue_fifo Disk_reserve_list freepage s) (\<lambda>s.
     enqueue_fifo Inactive_list page s))"

definition lrudisk_ack_swapin :: "page_ptr \<Rightarrow> page_ptr \<Rightarrow> 'k ext \<Rightarrow> c_error + 'k ext" where
  "lrudisk_ack_swapin page freepage s =
     (let offset = virtual_offset (heap s freepage);
          file_offset = virtual_offset (heap s page) in
     bindE (assertE (in_dram (heap s freepage))) (\<lambda>_.
     bindE (assertE (page_list s freepage = None)) (\<lambda>_.
     bindE (assertE (swapped_out (heap s page))) (\<lambda>_.
     bindE (assertE (migrating (heap s page))) (\<lambda>_.
     bindE (assertE (page_list s page = None)) (\<lambda>_.
     let s = upd_page freepage (\<lambda>h. h\<lparr>virtual_offset := file_offset, in_dram := False,
                swapped_out := True, migrating := False\<rparr>) s;
         s = upd_page page (\<lambda>h. h\<lparr>virtual_offset := offset\<rparr>) s;
         s = upd_page freepage (\<lambda>h. h\<lparr>reserve := Some page\<rparr>) s;
         s = upd_page page (\<lambda>h. h\<lparr>reserve := Some freepage, has_reserve := True\<rparr>) s;
         s = upd_page freepage (\<lambda>h. h\<lparr>has_reserve := True\<rparr>) s in
     bindE (enqueue_fifo Disk_reserve_list freepage s) (\<lambda>s.
     enqueue_fifo Inactive_list page s)))))))"

definition lrudisk_ack_vma :: "u64 \<Rightarrow> u64 \<Rightarrow> int \<Rightarrow> 'k ext \<Rightarrow> 'k ext" where
  "lrudisk_ack_vma vma_boundry sz priority s = s"

section \<open>The reclaim scans\<close>

text \<open>
  The loop variables are unsigned 64-bit in the source and are bounded by the number of descriptors
  of a queue, so they are natural numbers here. \<open>dequeue_fifo\<close> returning \<open>NULL\<close> while
  \<open>numentries > 0\<close> would repeat the loop unchanged.
\<close>

function shrink_active_loop :: "nat \<Rightarrow> nat \<Rightarrow> nat \<Rightarrow> 'k ext \<Rightarrow> c_error + nat \<times> 'k ext" where
  "shrink_active_loop nr_pages ret tries s =
     (if ret < nr_pages \<and> 0 < entries s Active_list \<and> tries < nr_pages * 100 then
        bindE (dequeue_fifo Active_list s) (\<lambda>(page, s).
        case page of
          None \<Rightarrow> Inl Spin
        | Some page \<Rightarrow>
            let s = upd_page page (\<lambda>h. h\<lparr>naccesses := 0\<rparr>) s in
            bindE (enqueue_fifo Inactive_list page s) (\<lambda>s.
            shrink_active_loop nr_pages (ret + 1) (tries + 1) s))
      else Inr (ret, s))"
  by pat_completeness auto
termination by (relation "measure (\<lambda>(nr, ret, _, _). nr - ret)") auto

definition shrink_active_list :: "nat \<Rightarrow> 'k ext \<Rightarrow> c_error + nat \<times> 'k ext" where
  "shrink_active_list nr_pages s =
     (if nr_pages = 0 then Inr (0, s)
      else
        let s = s\<lparr>shrinkage_running := True\<rparr>;
            nr_pages = (if nr_pages > entries s Active_list then entries s Active_list else nr_pages) in
        bindE (shrink_active_loop nr_pages 0 0 s) (\<lambda>(ret, s).
        Inr (ret, s\<lparr>shrinkage_running := False\<rparr>)))"

text \<open>One turn of the inactive scan on the page it dequeued; the flag says whether \<open>ret\<close> is counted.\<close>

definition scan_inactive_page :: "'k kernel \<Rightarrow> page_ptr \<Rightarrow> 'k ext \<Rightarrow> c_error + bool \<times> 'k ext" where
  "scan_inactive_page K page s =
     bindE (pt_get_bits K page s) (\<lambda>(bits, s).
     if bits AND PT_ACCESSED_FLAG = PT_ACCESSED_FLAG then
       let s = upd_page page (\<lambda>h. h\<lparr>naccesses := naccesses h + 1\<rparr>) s in
       bindE (pt_clear_accessed_flag K page s) (\<lambda>s.
       if naccesses (heap s page) > 1 then
         let s = upd_page page (\<lambda>h. h\<lparr>naccesses := 0\<rparr>) s in
         bindE (enqueue_fifo Active_list page s) (\<lambda>s. Inr (False, s))
       else bindE (enqueue_fifo Inactive_list page s) (\<lambda>s. Inr (False, s)))
     else
       let s = upd_page page (\<lambda>h. h\<lparr>naccesses := 0\<rparr>) s in
       bindE (enqueue_fifo Eviction_list page s) (\<lambda>s. Inr (True, s)))"

function shrink_inactive_loop :: "'k kernel \<Rightarrow> nat \<Rightarrow> nat \<Rightarrow> nat \<Rightarrow> 'k ext \<Rightarrow> c_error + nat \<times> 'k ext" where
  "shrink_inactive_loop K nr_pages ret tries s =
     (if ret < nr_pages \<and> 0 < entries s Inactive_list \<and> tries < nr_pages * 100 then
        bindE (dequeue_fifo Inactive_list s) (\<lambda>(page, s).
        case page of
          None \<Rightarrow> Inl Spin
        | Some page \<Rightarrow>
            bindE (scan_inactive_page K page s) (\<lambda>(found, s).
            shrink_inactive_loop K nr_pages (if found then ret + 1 else ret) (tries + 1) s))
      else Inr (ret, s))"
  by pat_completeness auto
termination by (relation "measure (\<lambda>(_, nr, _, tries, _). nr * 100 - tries)") auto

definition shrink_inactive_list :: "'k kernel \<Rightarrow> nat \<Rightarrow> 'k ext \<Rightarrow> c_error + nat \<times> 'k ext" where
  "shrink_inactive_list K nr_pages s =
     (let nr_pages = (if nr_pages = 0 \<or> nr_pages > entries s Inactive_list
                      then entries s Inactive_list else nr_pages);
          s = s\<lparr>shrinkage_running := True\<rparr> in
      bindE (shrink_inactive_loop K nr_pages 0 0 s) (\<lambda>(ret, s).
      Inr (ret, s\<lparr>shrinkage_running := False\<rparr>)))"

text \<open>The loop of \<open>direct_allocate_page_asynch\<close>.\<close>

function direct_allocate_loop ::
  "'k kernel \<Rightarrow> int \<Rightarrow> int \<Rightarrow> int \<Rightarrow> int \<Rightarrow> int \<Rightarrow> int \<Rightarrow> 'k ext \<Rightarrow> c_error + int \<times> 'k ext" where
  "direct_allocate_loop K nr_pages to_scan_active to_scan_inactive nr_scanned_active nr_scanned_inactive reclaimed s =
     (if nr_scanned_inactive < to_scan_inactive \<and> reclaimed < nr_pages then
        bindE (shrink_inactive_list K SWAP_CLUSTER_COUNT s) (\<lambda>(ret, s).
        let reclaimed = reclaimed + int ret;
            nr_scanned_inactive = nr_scanned_inactive + int SWAP_CLUSTER_COUNT in
        if nr_scanned_active < to_scan_active then
          bindE (shrink_active_list SWAP_CLUSTER_COUNT s) (\<lambda>(cooled, s).
          direct_allocate_loop K nr_pages to_scan_active to_scan_inactive
            (nr_scanned_active + int SWAP_CLUSTER_COUNT) nr_scanned_inactive reclaimed s)
        else
          direct_allocate_loop K nr_pages to_scan_active to_scan_inactive
            nr_scanned_active nr_scanned_inactive reclaimed s)
      else Inr (reclaimed, s))"
  by pat_completeness auto
termination
  by (relation "measure (\<lambda>(_, _, _, to_scan, _, scanned, _, _). nat (to_scan - scanned))")
     (auto simp: SWAP_CLUSTER_COUNT_def)

definition direct_allocate_page_asynch :: "'k kernel \<Rightarrow> int \<Rightarrow> nat \<Rightarrow> 'k ext \<Rightarrow> c_error + int \<times> 'k ext" where
  "direct_allocate_page_asynch K nr_pages priority s =
     (let to_scan_active = c_int (int (drop_bit priority (entries s Active_list)));
          to_scan_inactive = c_int (int (drop_bit priority (entries s Inactive_list))) in
      direct_allocate_loop K nr_pages to_scan_active to_scan_inactive 0 0 0 s)"

text \<open>The equations of the three loops unfold for ever and are applied by hand.\<close>

declare shrink_active_loop.simps [simp del] shrink_inactive_loop.simps [simp del]
  direct_allocate_loop.simps [simp del]

section \<open>kswapd\<close>

definition low_water :: "'k ext \<Rightarrow> u64" where
  "low_water s = LOW_WATER_THREASHOLD * dramsize s div (PAGE_SIZE * 100)"

definition resident :: "'k ext \<Rightarrow> u64" where
  "resident s = word_of_nat (entries s Active_list + entries s Inactive_list)"

definition kswapd_reclaim :: "'k kernel \<Rightarrow> 'k ext \<Rightarrow> c_error + 'k ext" where
  "kswapd_reclaim K s =
     (let s = s\<lparr>kswapd_running := True\<rparr>;
          nr_pages = c_int (sint (resident s - low_water s)) in
      if nr_pages \<le> 0 then Inr (s\<lparr>kswapd_running := False\<rparr>)
      else bindE (direct_allocate_page_asynch K nr_pages 12 s) (\<lambda>(_, s).
        Inr (s\<lparr>kswapd_running := False\<rparr>)))"

text \<open>
  One step of \<open>lrudisk_synchkswapd\<close>: from the top of the loop into the wait, or on to the reclaim;
  a signal lets a waiting \<open>kswapd\<close> continue after the wait.
\<close>

definition lrudisk_synchkswapd :: "'k kernel \<Rightarrow> 'k ext \<Rightarrow> c_error + 'k ext" where
  "lrudisk_synchkswapd K s =
     (case kswapd_at s of
        Kswapd_top \<Rightarrow>
          if resident s \<le> low_water s then
            bindE (lock Kswapd_lock s) (\<lambda>s. Inr ((unlock Kswapd_lock s)\<lparr>kswapd_at := Kswapd_waiting\<rparr>))
          else kswapd_reclaim K s
      | Kswapd_waiting \<Rightarrow> Inr s
      | Kswapd_signalled \<Rightarrow>
          bindE (lock Kswapd_lock s) (\<lambda>s.
          kswapd_reclaim K ((unlock Kswapd_lock s)\<lparr>kswapd_at := Kswapd_top\<rparr>)))"

definition wake_kswapd :: "'k ext \<Rightarrow> c_error + 'k ext" where
  "wake_kswapd s =
     (if \<not> kswapd_running s \<and> resident s > HIGH_WATER_THRESHOLD * dramsize s div (PAGE_SIZE * 100) then
        bindE (lock Kswapd_lock s) (\<lambda>s.
        let s = (if kswapd_at s = Kswapd_waiting then s\<lparr>kswapd_at := Kswapd_signalled\<rparr> else s) in
        Inr (unlock Kswapd_lock s))
      else Inr s)"

section \<open>Eviction\<close>

text \<open>Write-protect a victim, read its dirty bit, decide whether its contents must be written.\<close>

definition protect_victim :: "'k kernel \<Rightarrow> page_ptr \<Rightarrow> 'k ext \<Rightarrow> c_error + bool \<times> 'k ext" where
  "protect_victim K victim s =
     (let s = upd_page victim (\<lambda>h. h\<lparr>migrating := True\<rparr>) s in
     bindE (extmem_wp_page K victim True s) (\<lambda>s.
     bindE (pt_get_bits K victim s) (\<lambda>(flags, s).
     let dirty = (flags AND PT_DIRTY_FLAG \<noteq> 0) in
     Inr (dirty \<or> \<not> has_reserve (heap s victim), s))))"

text \<open>The reserve of a swap-backed victim, taken off the reserve queue.\<close>

definition take_reserve :: "page_ptr \<Rightarrow> 'k ext \<Rightarrow> c_error + page_ptr \<times> 'k ext" where
  "take_reserve victim s =
     bindE (case reserve (heap s victim) of None \<Rightarrow> Inl Assert_failed | Some d \<Rightarrow> Inr d) (\<lambda>diskpage.
     bindE (assertE (reserve (heap s diskpage) = Some victim)) (\<lambda>_.
     bindE (detach_from Disk_reserve_list diskpage s) (\<lambda>s.
     Inr (diskpage, s))))"

text \<open>The descriptor of the disk slot takes over the victim's DRAM frame.\<close>

definition take_frame :: "page_ptr \<Rightarrow> u64 \<Rightarrow> 'k ext \<Rightarrow> 'k ext" where
  "take_frame diskpage old_offset s =
     upd_page diskpage (\<lambda>h. h\<lparr>virtual_offset := old_offset, in_dram := True, present := False\<rparr>) s"

definition clear_reserves :: "page_ptr \<Rightarrow> page_ptr \<Rightarrow> 'k ext \<Rightarrow> 'k ext" where
  "clear_reserves diskpage victim s =
     upd_page victim (\<lambda>h. h\<lparr>has_reserve := False, reserve := None\<rparr>)
       (upd_page diskpage (\<lambda>h. h\<lparr>has_reserve := False, reserve := None\<rparr>) s)"

definition release_victim :: "page_ptr \<Rightarrow> 'k ext \<Rightarrow> c_error + 'k ext" where
  "release_victim victim s =
     bindE (assertE (migrating (heap s victim))) (\<lambda>_.
     bindE (assertE (swapped_out (heap s victim))) (\<lambda>_.
     Inr (upd_page victim (\<lambda>h. h\<lparr>migrating := False, swapped_out := True\<rparr>) s)))"

text \<open>One iteration of \<open>lrudisk_evictionworker\<close>, and what it does with the victim it found.\<close>

definition evict_victim :: "'k kernel \<Rightarrow> page_ptr \<Rightarrow> 'k ext \<Rightarrow> c_error + 'k ext" where
  "evict_victim K victim s =
     bindE (protect_victim K victim s) (\<lambda>(writeback, s).
     if has_reserve (heap s victim) then
       bindE (take_reserve victim s) (\<lambda>(diskpage, s).
       let old_offset = virtual_offset (heap s victim) in
       bindE (lrudisk_migrate_down K victim (virtual_offset (heap s diskpage)) False writeback s) (\<lambda>s.
       let s = clear_reserves diskpage victim (take_frame diskpage old_offset s) in
       bindE (enqueue_fifo Dram_free_list diskpage s) (\<lambda>s.
       bindE (enqueue_fifo Disk_active_list victim s) (\<lambda>s.
       release_victim victim s))))
     else
       bindE (dequeue_fifo Disk_free_list s) (\<lambda>(diskpage, s).
       case diskpage of
         None \<Rightarrow> Inl No_disk_page
       | Some diskpage \<Rightarrow>
           bindE (assertE (\<not> present (heap s diskpage))) (\<lambda>_.
           let old_offset = virtual_offset (heap s victim) in
           bindE (lrudisk_migrate_down K victim (virtual_offset (heap s diskpage)) False writeback s) (\<lambda>s.
           bindE (enqueue_fifo Disk_active_list victim s) (\<lambda>s.
           let s = take_frame diskpage old_offset s in
           bindE (enqueue_fifo Dram_free_list diskpage s) (\<lambda>s.
           release_victim victim s))))))"

definition lrudisk_evictionworker :: "'k kernel \<Rightarrow> 'k ext \<Rightarrow> c_error + 'k ext" where
  "lrudisk_evictionworker K s =
     (let s = upd_me (\<lambda>t. t\<lparr>internal_call := True\<rparr>) s in
     bindE (dequeue_fifo Eviction_list s) (\<lambda>(victim, s).
     case victim of
       None \<Rightarrow> Inr s
     | Some victim \<Rightarrow> evict_victim K victim s))"

text \<open>
  The vector worker. Its arrays \<open>victim\<close>, \<open>old_offset\<close>, \<open>writeback\<close> and \<open>diskpage\<close> are the
  lists its loops build, in the order of the victims.
\<close>

fun protect_victims :: "'k kernel \<Rightarrow> page_ptr list \<Rightarrow> 'k ext \<Rightarrow> c_error + (u64 \<times> bool) list \<times> 'k ext" where
  "protect_victims K [] s = Inr ([], s)"
| "protect_victims K (v # vs) s =
     (let old_offset = virtual_offset (heap s v) in
     bindE (protect_victim K v s) (\<lambda>(writeback, s).
     bindE (protect_victims K vs s) (\<lambda>(ows, s).
     Inr ((old_offset, writeback) # ows, s))))"

fun get_diskpages :: "page_ptr list \<Rightarrow> 'k ext \<Rightarrow> c_error + page_ptr list \<times> 'k ext" where
  "get_diskpages [] s = Inr ([], s)"
| "get_diskpages (v # vs) s =
     bindE (if has_reserve (heap s v) then take_reserve v s
            else bindE (dequeue_fifo Disk_free_list s) (\<lambda>(d, s).
              case d of
                None \<Rightarrow> Inl No_disk_page
              | Some d \<Rightarrow> bindE (assertE (\<not> present (heap s d))) (\<lambda>_. Inr (d, s)))) (\<lambda>(d, s).
     bindE (get_diskpages vs s) (\<lambda>(ds, s).
     Inr (d # ds, s)))"

definition file_victim :: "page_ptr \<Rightarrow> page_ptr \<Rightarrow> u64 \<Rightarrow> 'k ext \<Rightarrow> c_error + 'k ext" where
  "file_victim victim diskpage old_offset s =
     (if has_reserve (heap s victim) then
        let s = clear_reserves diskpage victim (take_frame diskpage old_offset s) in
        bindE (enqueue_fifo Dram_free_list diskpage s) (\<lambda>s.
        bindE (enqueue_fifo Disk_active_list victim s) (\<lambda>s.
        release_victim victim s))
      else
        bindE (assertE (\<not> present (heap s diskpage))) (\<lambda>_.
        bindE (enqueue_fifo Disk_active_list victim s) (\<lambda>s.
        let s = take_frame diskpage old_offset s in
        bindE (enqueue_fifo Dram_free_list diskpage s) (\<lambda>s.
        release_victim victim s))))"

fun file_victims :: "(page_ptr \<times> page_ptr \<times> u64) list \<Rightarrow> 'k ext \<Rightarrow> c_error + 'k ext" where
  "file_victims [] s = Inr s"
| "file_victims ((victim, diskpage, old_offset) # xs) s =
     bindE (file_victim victim diskpage old_offset s) (\<lambda>s. file_victims xs s)"

definition lrudisk_evictionworker_vector :: "'k kernel \<Rightarrow> 'k ext \<Rightarrow> c_error + 'k ext" where
  "lrudisk_evictionworker_vector K s =
     (let s = upd_me (\<lambda>t. t\<lparr>internal_call := True\<rparr>) s in
     bindE (dequeue_fifo_vector Eviction_list EVICT_VECTOR_SIZE s) (\<lambda>(vs, s).
     if vs = [] then Inr s
     else
       bindE (protect_victims K vs s) (\<lambda>(ows, s).
       bindE (get_diskpages vs s) (\<lambda>(ds, s).
       bindE (extmem_migrate_downdisk_vector K (zip vs (zip ds (map snd ows))) s) (\<lambda>s.
       file_victims (zip vs (zip ds (map fst ows))) s)))))"

section \<open>Allocation\<close>

text \<open>
  The part of \<open>fetch_free_asynch\<close> that evicts one page itself and returns the descriptor that
  then holds the freed DRAM frame.
\<close>

definition evict_for_frame :: "'k kernel \<Rightarrow> page_ptr \<Rightarrow> 'k ext \<Rightarrow> c_error + page_ptr \<times> 'k ext" where
  "evict_for_frame K page s =
     bindE (protect_victim K page s) (\<lambda>(writeback, s).
     if has_reserve (heap s page) then
       bindE (take_reserve page s) (\<lambda>(diskpage, s).
       let old_offset = virtual_offset (heap s page) in
       bindE (lrudisk_migrate_down K page (virtual_offset (heap s diskpage)) False writeback s) (\<lambda>s.
       let s = clear_reserves diskpage page (take_frame diskpage old_offset s) in
       bindE (enqueue_fifo Disk_active_list page s) (\<lambda>s.
       bindE (release_victim page s) (\<lambda>s.
       Inr (diskpage, s)))))
     else
       bindE (dequeue_fifo Disk_free_list s) (\<lambda>(diskpage, s).
       case diskpage of
         None \<Rightarrow> Inl No_disk_page
       | Some diskpage \<Rightarrow>
           bindE (assertE (\<not> present (heap s diskpage))) (\<lambda>_.
           let old_offset = virtual_offset (heap s page) in
           bindE (lrudisk_migrate_down K page (virtual_offset (heap s diskpage)) True writeback s) (\<lambda>s.
           bindE (assertE (swapped_out (heap s page))) (\<lambda>_.
           bindE (enqueue_fifo Disk_active_list page s) (\<lambda>s.
           let s = take_frame diskpage old_offset s;
               s = upd_page page (\<lambda>h. h\<lparr>migrating := False\<rparr>) s in
           Inr (diskpage, s)))))))"

text \<open>
  The loop of \<open>fetch_free_asynch\<close>, by recursion on \<open>priority\<close>. An iteration that finds no free
  page, does not lower the priority and finds no page to evict leaves the state as it was and
  would be repeated for ever by a single thread.
\<close>

fun fetch_free_loop :: "'k kernel \<Rightarrow> nat \<Rightarrow> 'k ext \<Rightarrow> c_error + page_ptr \<times> 'k ext" where
  "fetch_free_loop K 0 s = Inl Out_of_memory"
| "fetch_free_loop K (Suc priority) s =
     bindE (dequeue_fifo Dram_free_list s) (\<lambda>(page, s).
     case page of
       Some page \<Rightarrow> Inr (page, s)
     | None \<Rightarrow>
         if \<not> shrinkage_running s \<and> resident s > dramsize s div (PAGE_SIZE * 2) then
           bindE (direct_allocate_page_asynch K (int SWAP_CLUSTER_COUNT) (Suc priority) s) (\<lambda>(_, s).
           bindE (dequeue_fifo Eviction_list s) (\<lambda>(page, s).
           case page of
             Some page \<Rightarrow> evict_for_frame K page s
           | None \<Rightarrow> fetch_free_loop K priority s))
         else
           bindE (dequeue_fifo Eviction_list s) (\<lambda>(page, s).
           case page of
             Some page \<Rightarrow> evict_for_frame K page s
           | None \<Rightarrow> Inl Spin))"

definition fetch_free_asynch :: "'k kernel \<Rightarrow> 'k ext \<Rightarrow> c_error + page_ptr \<times> 'k ext" where
  "fetch_free_asynch K s = bindE (wake_kswapd s) (\<lambda>s. fetch_free_loop K 12 s)"

definition lrudisk_pagefault :: "'k kernel \<Rightarrow> 'k ext \<Rightarrow> c_error + page_ptr \<times> 'k ext" where
  "lrudisk_pagefault K s =
     bindE (fetch_free_asynch K s) (\<lambda>(page, s).
     Inr (page, upd_page page (\<lambda>h. h\<lparr>migrating := True\<rparr>) s))"

definition lrudisk_track_page :: "page_ptr \<Rightarrow> 'k ext \<Rightarrow> c_error + 'k ext" where
  "lrudisk_track_page page s =
     bindE (assertE (page_list s page = None)) (\<lambda>_. enqueue_fifo Inactive_list page s)"

definition lrudisk_put_page_free :: "page_ptr \<Rightarrow> 'k ext \<Rightarrow> c_error + 'k ext" where
  "lrudisk_put_page_free page s =
     bindE (assertE (page_list s page = None)) (\<lambda>_.
     bindE (assertE (va (heap s page) = 0)) (\<lambda>_.
     enqueue_fifo Dram_free_list page s))"

definition lrudisk_detach_page :: "page_ptr \<Rightarrow> 'k ext \<Rightarrow> c_error + 'k ext" where
  "lrudisk_detach_page page s = detach_from Disk_active_list page s"

definition lrudisk_swapin_external :: "'k kernel \<Rightarrow> page_ptr \<Rightarrow> 'k ext \<Rightarrow> c_error + 'k ext" where
  "lrudisk_swapin_external K page s =
     (let file_offset = virtual_offset (heap s page) in
     bindE (fetch_free_asynch K s) (\<lambda>(freepage, s).
     bindE (assertE (in_dram (heap s freepage))) (\<lambda>_.
     bindE (detach_from Disk_active_list page s) (\<lambda>s.
     let offset = virtual_offset (heap s freepage) in
     bindE (lrudisk_migrate_up K page offset s) (\<lambda>s.
     link_reserve page freepage file_offset s)))))"

definition lrudisk_swapin_external_async :: "'k kernel \<Rightarrow> page_ptr \<Rightarrow> 'k ext \<Rightarrow> c_error + 'k ext" where
  "lrudisk_swapin_external_async K page s =
     (let file_offset = virtual_offset (heap s page) in
     bindE (detach_from Disk_active_list page s) (\<lambda>s.
     bindE (core_migrate_up_async_start K page s) (\<lambda>s.
     bindE (fetch_free_asynch K s) (\<lambda>(freepage, s).
     bindE (assertE (in_dram (heap s freepage))) (\<lambda>_.
     let offset = virtual_offset (heap s freepage) in
     bindE (core_migrate_up_async_finish K page offset s) (\<lambda>s.
     link_reserve page freepage file_offset s))))))"

section \<open>Removal\<close>

text \<open>
  \<open>do { list = page->list; ret = tryremove(list, page); } while (ret != 0)\<close>: a page that is in no
  queue makes the loop wait for another thread.
\<close>

definition remove_from_any :: "page_ptr \<Rightarrow> 'k ext \<Rightarrow> c_error + 'k ext" where
  "remove_from_any page s =
     bindE (page_list_tryremove_page (page_list s page) page s) (\<lambda>(ret, s).
     if ret \<noteq> 0 then Inl Spin else Inr s)"

text \<open>The disk slot kept for a resident page goes back to the free slots.\<close>

definition drop_reserve :: "page_ptr \<Rightarrow> 'k ext \<Rightarrow> c_error + 'k ext" where
  "drop_reserve page s =
     (if has_reserve (heap s page) then
        bindE (case reserve (heap s page) of None \<Rightarrow> Inl Assert_failed | Some r \<Rightarrow> Inr r) (\<lambda>reserve_page.
        bindE (assertE (reserve (heap s reserve_page) = Some page)) (\<lambda>_.
        bindE (assertE (page_list s reserve_page = Some Disk_reserve_list)) (\<lambda>_.
        bindE (remove_from_any reserve_page s) (\<lambda>s.
        let s = upd_page reserve_page (\<lambda>h. h\<lparr>has_reserve := False, reserve := None, present := False\<rparr>) s in
        bindE (enqueue_fifo Disk_free_list reserve_page s) (\<lambda>s.
        Inr (upd_page page (\<lambda>h. h\<lparr>has_reserve := False, reserve := None\<rparr>) s))))))
      else Inr s)"

text \<open>The three configurations of the removed page.\<close>

definition free_place :: "page_ptr \<Rightarrow> 'k ext \<Rightarrow> c_error + 'k ext" where
  "free_place page s =
     (if in_dram (heap s page) then
        bindE (drop_reserve page s) (\<lambda>s. enqueue_fifo Dram_free_list page s)
      else if swapped_out (heap s page) then
        let s = upd_page page (\<lambda>h. h\<lparr>reserve := None, has_reserve := False\<rparr>) s in
        enqueue_fifo Disk_free_list page s
      else Inl Assert_failed)"

definition lrudisk_remove_page :: "page_ptr \<Rightarrow> 'k ext \<Rightarrow> c_error + 'k ext" where
  "lrudisk_remove_page page s =
     (let s = upd_page page (\<lambda>h. h\<lparr>migrating := True\<rparr>) s in
     bindE (remove_from_any page s) (\<lambda>s.
     let s = upd_page page (\<lambda>h. h\<lparr>present := False, va := 0\<rparr>) s in
     bindE (free_place page s) (\<lambda>s.
     Inr (upd_page page (\<lambda>h. h\<lparr>migrating := False\<rparr>) s))))"

section \<open>Initialisation\<close>

definition new_page :: "user_page \<Rightarrow> list_id \<Rightarrow> 'k ext \<Rightarrow> c_error + 'k ext" where
  "new_page h l s =
     (let p = nalloc s in
      enqueue_fifo l p (s\<lparr>heap := (heap s)(p := h), nalloc := p + 1\<rparr>))"

fun init_pool :: "bool \<Rightarrow> list_id \<Rightarrow> nat list \<Rightarrow> 'k ext \<Rightarrow> c_error + 'k ext" where
  "init_pool dram l [] s = Inr s"
| "init_pool dram l (i # is) s =
     bindE (pagesize_to_pt PAGE_SIZE) (\<lambda>t.
     bindE (new_page (calloc_page\<lparr>virtual_offset := word_of_nat i * PAGE_SIZE, present := False,
              in_dram := dram, swapped_out := \<not> dram, pt := t, has_reserve := False, reserve := None\<rparr>) l s)
       (init_pool dram l is))"

fun create_workers :: "'k kernel \<Rightarrow> nat \<Rightarrow> 'k ext \<Rightarrow> c_error + 'k ext" where
  "create_workers K 0 s = Inr s"
| "create_workers K (Suc n) s = bindE (kcall (k_pthread_create K) s) (create_workers K n)"

definition init_locks :: "mutex list \<Rightarrow> 'k ext \<Rightarrow> 'k ext" where
  "init_locks ms s = s\<lparr>held := (\<lambda>m. if m \<in> set ms then False else held s m)\<rparr>"

definition lrudisk_init :: "'k kernel \<Rightarrow> 'k ext \<Rightarrow> c_error + 'k ext" where
  "lrudisk_init K s =
     (let s = init_locks [List_lock Dram_free_list] s in
     bindE (init_pool True Dram_free_list [0..<unat (dramsize s div PAGE_SIZE)] s) (\<lambda>s.
     let s = init_locks [List_lock Disk_free_list] s in
     bindE (init_pool False Disk_free_list [0..<unat (disksize s div PAGE_SIZE)] s) (\<lambda>s.
     let s = init_locks [List_lock Active_list, List_lock Inactive_list, List_lock Disk_active_list,
               List_lock Disk_reserve_list, List_lock Eviction_list, Kswapd_lock] s in
     bindE (kcall (k_pthread_create K) s) (\<lambda>s.
     create_workers K WRITER_THREADS s))))"

end
