(* ===== verification/Disklinux_Counts.thy ===== *)
theory Disklinux_Counts
  imports Disklinux
begin

text \<open>
  How the operations of the policy move descriptors between its queues, in numbers: a scan only moves
  pages among the queues of resident pages, and an eviction turns one page of the eviction queue and one
  disk slot into one page on disk and one free frame.
\<close>

section \<open>Queue lengths\<close>

definition cnt :: "'k ext \<Rightarrow> list_id \<Rightarrow> int" where
  "cnt s l = int (entries s l)"

abbreviation moved :: "(list_id \<Rightarrow> int) \<Rightarrow> list_id \<Rightarrow> int \<Rightarrow> list_id \<Rightarrow> int" where
  "moved c l d \<equiv> c(l := c l + d)"

lemma cnt_upd [simp]:
  "cnt (s\<lparr>kst := k\<rparr>) = cnt s" "cnt (s\<lparr>tls := t\<rparr>) = cnt s" "cnt (s\<lparr>heap := h\<rparr>) = cnt s" "cnt (s\<lparr>held := hl\<rparr>) = cnt s"
  "cnt (s\<lparr>shrinkage_running := b\<rparr>) = cnt s" "cnt (upd_page p f s) = cnt s" "cnt (unlock m s) = cnt s"
  "cnt (upd_me g s) = cnt s" "cnt (count f' s) = cnt s" "cnt (kdo f'' s) = cnt s" "cnt (set_link p f3 s) = cnt s"
  by (simp_all add: cnt_def fun_eq_iff upd_page_def unlock_def upd_me_def count_def kdo_def set_link_def)

lemma cnt_queue: "cnt (set_queue l f s) = (cnt s)(l := int (numentries (f (queue (lists s) l))))"
  by (simp add: cnt_def fun_eq_iff set_queue_def)

abbreviation any_error :: "c_error \<Rightarrow> bool" where
  "any_error \<equiv> (\<lambda>_. True)"

lemma enqueue_cnt: "wpE (enqueue_fifo l p s) (\<lambda>s'. cnt s' = moved (cnt s) l 1) any_error"
  by (auto simp: enqueue_fifo_def wp_simps cnt_queue set_link_def fun_eq_iff set_queue_def cnt_def unlock_def split: option.splits)

lemma take_last_cnt: "wpE (take_last l p s) (\<lambda>s'. cnt s' = moved (cnt s) l (- 1)) any_error"
  by (auto simp: take_last_def wp_simps fun_eq_iff set_link_def set_queue_def cnt_def unlock_def Let_def split: option.splits)

lemma dequeue_cnt: "wpE (dequeue_fifo l s) (\<lambda>r. cnt (snd r) = (if fst r = None then cnt s else moved (cnt s) l (- 1))) any_error"
  by (auto simp: dequeue_fifo_def wp_simps intro!: wpE_mono [OF take_last_cnt])

lemma unlink_cnt: "wpE (unlink_page l p s) (\<lambda>s'. cnt s' = moved (cnt s) l (- 1)) any_error"
  by (auto simp: unlink_page_def wp_simps fun_eq_iff set_link_def set_queue_def cnt_def Let_def split: option.splits if_splits)

lemma tryremove_cnt: "wpE (page_list_tryremove_page (Some l) p s)
    (\<lambda>r. cnt (snd r) = (if fst r = 0 then moved (cnt s) l (- 1) else cnt s)) any_error"
  by (auto simp: page_list_tryremove_page_def wp_simps intro!: wpE_mono [OF unlink_cnt])

lemma kcall_cnt: "wpE (kcall f s) (\<lambda>s'. cnt s' = cnt s) any_error"
  by (simp add: wp_simps)

text \<open>The calls of the kernel and the migrations leave the queues alone.\<close>

lemma cnt_lists: "lists s' = lists s \<Longrightarrow> cnt s' = cnt s"
  by (simp add: cnt_def fun_eq_iff)

lemma get_bits_cnt: "wpE (pt_get_bits K p s) (\<lambda>r. cnt (snd r) = cnt s) any_error"
  by (auto simp: pt_get_bits_def wp_simps Let_def split: option.splits prod.splits)

lemma clear_accessed_cnt: "wpE (pt_clear_accessed_flag K p s) (\<lambda>s'. cnt s' = cnt s) any_error"
  by (simp add: pt_clear_accessed_flag_def wp_simps)

lemma write_store_cnt: "wpE (ioring_write_store K fd off buf sz s) (\<lambda>s'. cnt s' = cnt s) any_error"
  by (simp add: ioring_write_store_def thread_init_iouring_def wp_simps)

lemma protect_cnt: "wpE (protect_victim K v s) (\<lambda>r. cnt (snd r) = cnt s) any_error"
  by (auto simp: protect_victim_def extmem_wp_page_def wp_simps Let_def intro!: wpE_mono [OF get_bits_cnt])

lemma migrate_down_cnt: "wpE (lrudisk_migrate_down K v off nw wb s) (\<lambda>s'. cnt s' = cnt s) any_error"
  by (auto simp: lrudisk_migrate_down_def extmem_wp_page_def extmem_migrate_downdisk_def wp_simps Let_def
      intro!: wpE_mono [OF write_store_cnt])

lemma release_cnt: "wpE (release_victim v s) (\<lambda>s'. cnt s' = cnt s) any_error"
  by (simp add: release_victim_def wp_simps)

lemma take_reserve_cnt: "wpE (take_reserve v s) (\<lambda>r. cnt (snd r) = moved (cnt s) Disk_reserve_list (- 1)) any_error"
  by (auto simp: take_reserve_def detach_from_def wp_simps split: option.splits intro!: wpE_mono [OF tryremove_cnt])

lemma cnt_frames [simp]: "cnt (take_frame d off s) = cnt s" "cnt (clear_reserves d v s) = cnt s"
  by (simp_all add: take_frame_def clear_reserves_def)

section \<open>Evictions\<close>

text \<open>One page more on disk, one frame more that is free, one disk slot less.\<close>

definition one_out :: "(list_id \<Rightarrow> int) \<Rightarrow> (list_id \<Rightarrow> int) \<Rightarrow> bool" where
  "one_out c c' \<longleftrightarrow> (\<exists>l \<in> {Disk_reserve_list, Disk_free_list}. c' = moved (moved c l (- 1)) Disk_active_list 1)"

lemma evict_victim_cnt: "wpE (evict_victim K v s) (\<lambda>s'. one_out (moved (cnt s) Dram_free_list 1) (cnt s')) any_error"
  unfolding evict_victim_def wpE_bindE wpE_case_prod wpE_if wpE_Let wpE_case_option wpE_assertE
  by (rule wpE_mono [OF protect_cnt], intro conjI impI allI,
      rule wpE_mono [OF take_reserve_cnt], rule wpE_mono [OF migrate_down_cnt], rule wpE_mono [OF enqueue_cnt],
      rule wpE_mono [OF enqueue_cnt], rule wpE_mono [OF release_cnt])
     (auto simp: one_out_def fun_eq_iff wp_simps intro!: wpE_mono [OF dequeue_cnt] wpE_mono [OF migrate_down_cnt] wpE_mono [OF enqueue_cnt]
        wpE_mono [OF release_cnt])

lemma evictionworker_cnt:
  "wpE (lrudisk_evictionworker K s) (\<lambda>s'. cnt s' = cnt s \<and> last_p (queue (lists s) Eviction_list) = None \<or>
     one_out (moved (moved (cnt s) Eviction_list (- 1)) Dram_free_list 1) (cnt s')) any_error"
proof -
  let ?s = "upd_me (\<lambda>t. t\<lparr>internal_call := True\<rparr>) s"
  have d: "wpE (dequeue_fifo Eviction_list ?s) (\<lambda>r. if fst r = None then cnt (snd r) = cnt s \<and> last_p (queue (lists s) Eviction_list) = None
      else cnt (snd r) = moved (cnt s) Eviction_list (- 1)) any_error"
    by (auto simp: dequeue_fifo_def wp_simps upd_me_def intro!: wpE_mono [OF take_last_cnt])
  show ?thesis unfolding lrudisk_evictionworker_def wpE_bindE wpE_case_prod wpE_Let
    by (rule wpE_mono [OF d]) (auto simp: wp_simps intro!: wpE_mono [OF evict_victim_cnt] split: if_splits option.splits)
qed

section \<open>Scans\<close>

lemma shrink_active_loop_cnt:
  fixes s :: "'k ext"
  assumes "ret \<le> nr" "tries = ret" "nr - ret \<le> entries s Active_list"
  shows "wpE (shrink_active_loop nr ret tries s) (\<lambda>r. fst r = nr \<and>
     cnt (snd r) = moved (moved (cnt s) Active_list (- int (nr - ret))) Inactive_list (int (nr - ret))) any_error"
  using assms
proof (induction "nr - ret" arbitrary: ret tries s)
  case 0
  then have e: "ret = nr" by simp
  show ?case unfolding shrink_active_loop.simps [of nr ret tries s] by (simp add: e wp_simps)
next
  case (Suc n)
  then have c: "ret < nr \<and> 0 < entries s Active_list \<and> tries < nr * 100" by auto
  have n: "n = nr - (ret + 1)" using Suc(2) by simp
  have I: "wpE (shrink_active_loop nr (ret + 1) (tries + 1) s') (\<lambda>r. fst r = nr \<and>
     cnt (snd r) = moved (moved (cnt s) Active_list (- int (nr - ret))) Inactive_list (int (nr - ret))) any_error"
    if "cnt s' = moved (moved (cnt s) Active_list (- 1)) Inactive_list 1" for s' :: "'k ext"
  proof -
    have a: "entries s' Active_list = entries s Active_list - 1" using fun_cong [OF that, of Active_list] c by (simp add: cnt_def)
    have "wpE (shrink_active_loop nr (ret + 1) (tries + 1) s') (\<lambda>r. fst r = nr \<and>
     cnt (snd r) = moved (moved (cnt s') Active_list (- int (nr - (ret + 1)))) Inactive_list (int (nr - (ret + 1)))) any_error"
      by (rule Suc.hyps(1) [OF n]) (use Suc.prems c a in auto)
    then show ?thesis by (rule wpE_mono) (use c in \<open>auto simp: that fun_eq_iff of_nat_diff\<close>)
  qed
  show ?case unfolding shrink_active_loop.simps [of nr ret tries s] if_P [OF c] wpE_bindE wpE_case_prod wpE_case_option wpE_Let
    by (rule wpE_mono [OF dequeue_cnt]) (auto simp: wp_simps intro!: wpE_mono [OF enqueue_cnt] I [simplified])
qed

text \<open>\<open>shrink_active_list\<close> moves exactly as many pages as it is asked for, or all there are.\<close>

lemma shrink_active_list_cnt:
  "wpE (shrink_active_list n s) (\<lambda>r. fst r = min n (entries s Active_list) \<and>
     cnt (snd r) = moved (moved (cnt s) Active_list (- int (fst r))) Inactive_list (int (fst r))) any_error"
proof (cases "n = 0")
  case True
  then show ?thesis by (simp add: shrink_active_list_def wp_simps)
next
  case False
  let ?nr = "if entries s Active_list < n then entries s Active_list else n"
  have "wpE (shrink_active_loop ?nr 0 0 (s\<lparr>shrinkage_running := True\<rparr>)) (\<lambda>r. fst r = ?nr \<and>
     cnt (snd r) = moved (moved (cnt s) Active_list (- int ?nr)) Inactive_list (int ?nr)) any_error"
    using shrink_active_loop_cnt [of 0 ?nr 0 "s\<lparr>shrinkage_running := True\<rparr>"] by simp
  then show ?thesis using False by (auto simp: shrink_active_list_def wp_simps min_def elim!: wpE_mono)
qed

text \<open>
  The inactive scan sends \<open>n\<close> pages to the eviction queue and may promote others; no page is lost and no
  other queue changes.
\<close>

definition scanned :: "nat \<Rightarrow> (list_id \<Rightarrow> int) \<Rightarrow> (list_id \<Rightarrow> int) \<Rightarrow> bool" where
  "scanned n c c' \<longleftrightarrow> (\<exists>k. c' = moved (moved (moved c Inactive_list (- int n - int k)) Eviction_list (int n)) Active_list (int k))"

lemma scanned_refl: "scanned 0 c c"
  by (auto simp: scanned_def intro: exI [of _ 0])

lemma scanned_trans: "scanned m c c' \<Longrightarrow> scanned n c' c'' \<Longrightarrow> scanned (m + n) c c''"
proof -
  assume "scanned m c c'" "scanned n c' c''"
  then obtain i j where "c' = moved (moved (moved c Inactive_list (- int m - int i)) Eviction_list (int m)) Active_list (int i)"
    "c'' = moved (moved (moved c' Inactive_list (- int n - int j)) Eviction_list (int n)) Active_list (int j)"
    by (auto simp: scanned_def)
  then show ?thesis unfolding scanned_def by (intro exI [of _ "i + j"]) (auto simp: fun_eq_iff)
qed

lemma scan_page_cnt: "wpE (scan_inactive_page K p s)
    (\<lambda>r. scanned (if fst r then 1 else 0) (moved (cnt s) Inactive_list 1) (cnt (snd r))) any_error"
proof -
  have e: "wpE (enqueue_fifo l p s') (\<lambda>s''. scanned (if l = Eviction_list then 1 else 0) (moved (cnt s) Inactive_list 1) (cnt s'')) any_error"
    if "l \<in> {Active_list, Inactive_list, Eviction_list}" "cnt s' = cnt s" for l s'
  proof (rule wpE_mono [OF enqueue_cnt])
    fix s'' assume "cnt s'' = moved (cnt s') l 1"
    then show "scanned (if l = Eviction_list then 1 else 0) (moved (cnt s) Inactive_list 1) (cnt s'')"
      using that unfolding scanned_def by (intro exI [of _ "if l = Active_list then 1 else 0"]) (auto simp: fun_eq_iff)
  qed simp
  show ?thesis unfolding scan_inactive_page_def wpE_bindE wpE_case_prod wpE_if wpE_Let
    by (rule wpE_mono [OF get_bits_cnt], intro conjI impI, rule wpE_mono [OF clear_accessed_cnt])
       (auto simp: wp_simps intro!: wpE_mono [OF e])
qed

lemma shrink_inactive_loop_cnt:
  fixes s :: "'k ext"
  assumes "ret \<le> nr"
  shows "wpE (shrink_inactive_loop K nr ret tries s) (\<lambda>r. ret \<le> fst r \<and> fst r \<le> nr \<and> scanned (fst r - ret) (cnt s) (cnt (snd r))) any_error"
  using assms
proof (induction "nr * 100 - tries" arbitrary: ret tries s rule: less_induct)
  case less
  show ?case
  proof (cases "ret < nr \<and> 0 < entries s Inactive_list \<and> tries < nr * 100")
    case False
    then show ?thesis unfolding shrink_inactive_loop.simps [of K nr ret tries s] using less.prems by (auto simp: wp_simps scanned_refl)
  next
    case True
    have I: "wpE (shrink_inactive_loop K nr (if b then ret + 1 else ret) (tries + 1) s') (\<lambda>r. ret \<le> fst r \<and> fst r \<le> nr \<and>
        scanned (fst r - ret) (cnt s) (cnt (snd r))) any_error"
      if "scanned (if b then 1 else 0) (cnt s) (cnt s')" for b and s' :: "'k ext"
      by (rule wpE_mono [OF less.hyps [of "tries + 1" "if b then ret + 1 else ret" s']])
         (use True scanned_trans [OF that] in \<open>fastforce split: if_splits\<close>)+
    have J: "wpE (scan_inactive_page K p s') (\<lambda>r. scanned (if fst r then 1 else 0) (cnt s) (cnt (snd r))) any_error"
      if "cnt s' = moved (cnt s) Inactive_list (- 1)" for p and s' :: "'k ext"
      using scan_page_cnt [of K p s'] that by (simp add: fun_upd_idem_iff)
    show ?thesis unfolding shrink_inactive_loop.simps [of K nr ret tries s] if_P [OF True] wpE_bindE wpE_case_prod wpE_case_option wpE_Let
      by (rule wpE_mono [OF dequeue_cnt]) (auto simp: wp_simps split: if_splits intro!: wpE_mono [OF J] I [of True, simplified] I [of False, simplified])
  qed
qed

lemma shrink_inactive_list_cnt:
  "wpE (shrink_inactive_list K n s) (\<lambda>r. fst r \<le> entries s Inactive_list \<and> (n \<noteq> 0 \<longrightarrow> fst r \<le> n) \<and>
     scanned (fst r) (cnt s) (cnt (snd r))) any_error"
  unfolding shrink_inactive_list_def Let_def wpE_bindE
  by (rule wpE_mono [OF shrink_inactive_loop_cnt]) (auto simp: wp_simps split: if_splits)

end
