(* ===== verification/Disklinux_Scan.thy ===== *)
theory Disklinux_Scan
  imports Disklinux
begin

text \<open>
  The reclaim scans keep the pool invariant and never stop for a reason of their own: the only
  failure is a kernel call that fails.
\<close>

abbreviation kernel_only :: "c_error \<Rightarrow> bool" where
  "kernel_only e \<equiv> e = Kernel_failed"

section \<open>Rules shared by the operations of the policy\<close>

text \<open>Filing a page that was taken from a queue, with its access count changed.\<close>

lemma refile_wp:
  assumes "pool_inv (insert x F) s" "x \<notin> F" "resident_page s x" "pres F s0 s"
    "l \<in> {Active_list, Inactive_list, Eviction_list}"
    and Q: "\<And>s'. pool_inv F s' \<Longrightarrow> pres F s0 s' \<Longrightarrow>
      seq (lists s') = (seq (lists s))(l := x # seq (lists s) l) \<Longrightarrow> Q s'"
  shows "wpE (enqueue_fifo l x s) Q E"
  by (rule pool_inv_enq_wp [OF assms(1)]) (use assms in \<open>auto simp: fits_resident intro!: Q\<close>)

section \<open>The active scan\<close>

lemma shrink_active_loop_wp:
  assumes "pool_inv F s"
  shows "wpE (shrink_active_loop nr ret tries s) (\<lambda>(_, s'). pool_inv F s' \<and> pres F s s') E"
  using assms
proof (induction "nr - ret" arbitrary: ret tries s rule: less_induct)
  case less
  show ?case
  proof (cases "ret < nr \<and> 0 < entries s Active_list \<and> tries < nr * 100")
    case True
    show ?thesis
      unfolding shrink_active_loop.simps [of nr ret tries s] if_P [OF True] wpE_bindE wpE_case_prod
    proof (rule pool_inv_deq_wp [OF less.prems], goal_cases)
      case 2
      then show ?case using True pool_inv_entries [OF less.prems] by simp
    next
      case (3 fs xs x)
      let ?s = "upd_page x (\<lambda>h. h\<lparr>naccesses := 0\<rparr>) (s\<lparr>lists := fs\<rparr>)"
      have "wpE (enqueue_fifo Inactive_list x ?s)
        (\<lambda>s'. wpE (shrink_active_loop nr (ret + 1) (tries + 1) s') (\<lambda>(_, s'). pool_inv F s' \<and> pres F s s') E) E"
      proof (rule refile_wp [where F = F and ?s0.0 = s])
        fix s' assume s': "pool_inv F s'" "pres F s s'"
        have "wpE (shrink_active_loop nr (ret + 1) (tries + 1) s') (\<lambda>(_, s''). pool_inv F s'' \<and> pres F s' s'') E"
          by (rule less.hyps) (use True s' in auto)
        then show "wpE (shrink_active_loop nr (ret + 1) (tries + 1) s') (\<lambda>(_, s'). pool_inv F s' \<and> pres F s s') E"
          by (rule wpE_mono) (use s' in \<open>auto intro: pres_trans\<close>)
      qed (use 3 in \<open>auto intro!: pool_inv_upd_page resident_upd_page pres_upd_page simp: fits_resident\<close>)
      then show ?case by (simp add: Let_def wp_simps)
    qed simp
  next
    case False
    then show ?thesis unfolding shrink_active_loop.simps [of nr ret tries s] if_not_P [OF False]
      using less.prems by (simp add: wp_simps)
  qed
qed

lemma pres_shrink_end:
  "pres F (s\<lparr>shrinkage_running := b\<rparr>) s' \<Longrightarrow> pres F s (s'\<lparr>shrinkage_running := False\<rparr>)"
  by (auto simp: pres_def env_def npool_def)

lemma shrink_active_list_wp:
  assumes "pool_inv F s"
  shows "wpE (shrink_active_list nr s) (\<lambda>(_, s'). pool_inv F s' \<and> pres F s s') E"
proof -
  have "wpE (shrink_active_loop n 0 0 (s\<lparr>shrinkage_running := True\<rparr>))
    (\<lambda>r. pool_inv F (snd r) \<and> pres F s (snd r\<lparr>shrinkage_running := False\<rparr>)) E" for n
    by (rule wpE_mono [OF shrink_active_loop_wp [where F = F]]) (use assms in \<open>auto intro: pres_shrink_end\<close>)
  then show ?thesis using assms by (simp add: shrink_active_list_def Let_def wp_simps)
qed

section \<open>The inactive scan\<close>

lemma clear_accessed_wp:
  assumes "page_aligned (va (heap s p))" "\<And>k. Q (s\<lparr>kst := k\<rparr>)" "E Kernel_failed"
  shows "wpE (pt_clear_accessed_flag K p s) Q E"
  using assms by (simp add: pt_clear_accessed_flag_def page_aligned_def Let_def wp_simps)

lemma resident_kst [simp]: "resident_page (s\<lparr>kst := k\<rparr>) p = resident_page s p"
  by (simp add: resident_page_def backed_def)

lemma scan_inactive_page_wp:
  assumes inv: "pool_inv (insert x F) s" and x: "x \<notin> F" "x < npool s" "resident_page s x"
    and E: "E Kernel_failed"
  shows "wpE (scan_inactive_page K x s) (\<lambda>(_, s'). pool_inv F s' \<and> pres F s s') E"
proof -
  have al: "page_aligned (va (heap s x))" using x(3) by (simp add: resident_page_def Let_def)
  have enq: "wpE (enqueue_fifo l x s') (\<lambda>s'. pool_inv F s' \<and> pres F s s') E"
    if "pool_inv (insert x F) s'" "resident_page s' x" "pres F s s'"
      "l \<in> {Active_list, Inactive_list, Eviction_list}" for l s'
    by (rule refile_wp [OF that(1) x(1) that(2-4)]) simp
  note upd = pool_inv_upd_page [OF inv] resident_upd_page [OF x(3)] pres_upd_page
  have clr: "wpE (pt_clear_accessed_flag K x (upd_page x f (s\<lparr>kst := k\<rparr>)))
     (\<lambda>s'. (naccesses (heap s' x) > 1 \<longrightarrow>
        wpE (enqueue_fifo Active_list x (upd_page x (\<lambda>h. h\<lparr>naccesses := 0\<rparr>) s')) (\<lambda>s'. pool_inv F s' \<and> pres F s s') E) \<and>
        (\<not> naccesses (heap s' x) > 1 \<longrightarrow> wpE (enqueue_fifo Inactive_list x s') (\<lambda>s'. pool_inv F s' \<and> pres F s s') E)) E"
    if f: "f = (\<lambda>h. h\<lparr>naccesses := naccesses h + 1\<rparr>)" for f k
    by (rule clear_accessed_wp) (use al x inv E in \<open>auto simp: f intro!: enq pool_inv_upd_page resident_upd_page pres_upd_page\<close>)
  show ?thesis
    unfolding scan_inactive_page_def wpE_bindE wpE_case_prod
    by (rule get_bits_wp [OF al])
       (use E clr x inv in \<open>auto simp: Let_def wp_simps intro!: enq pool_inv_upd_page resident_upd_page pres_upd_page\<close>)
qed

lemma shrink_inactive_loop_wp:
  assumes "pool_inv F s" and E: "E Kernel_failed"
  shows "wpE (shrink_inactive_loop K nr ret tries s) (\<lambda>(_, s'). pool_inv F s' \<and> pres F s s') E"
  using assms(1)
proof (induction "nr * 100 - tries" arbitrary: ret tries s rule: less_induct)
  case less
  show ?case
  proof (cases "ret < nr \<and> 0 < entries s Inactive_list \<and> tries < nr * 100")
    case True
    show ?thesis
      unfolding shrink_inactive_loop.simps [of K nr ret tries s] if_P [OF True] wpE_bindE wpE_case_prod
    proof (rule pool_inv_deq_wp [OF less.prems], goal_cases)
      case 2
      then show ?case using True pool_inv_entries [OF less.prems] by simp
    next
      case (3 fs xs x)
      have "wpE (shrink_inactive_loop K nr ret' (tries + 1) s') (\<lambda>(_, s'). pool_inv F s' \<and> pres F s s') E"
        if "pool_inv F s'" "pres F (s\<lparr>lists := fs\<rparr>) s'" for ret' s'
      proof -
        have "pres F s s'" using that(2) by (simp add: pres_def)
        moreover have "wpE (shrink_inactive_loop K nr ret' (tries + 1) s') (\<lambda>(_, s''). pool_inv F s'' \<and> pres F s' s'') E"
          by (rule less.hyps) (use True that in auto)
        ultimately show ?thesis by (auto elim!: wpE_mono intro: pres_trans)
      qed
      moreover have "wpE (scan_inactive_page K x (s\<lparr>lists := fs\<rparr>))
          (\<lambda>(_, s'). pool_inv F s' \<and> pres F (s\<lparr>lists := fs\<rparr>) s') E"
        by (rule scan_inactive_page_wp) (use 3 E in \<open>auto simp: fits_resident\<close>)
      ultimately show ?case by (auto simp: wp_simps case_prod_beta elim!: wpE_mono)
    qed simp
  next
    case False
    then show ?thesis unfolding shrink_inactive_loop.simps [of K nr ret tries s] if_not_P [OF False]
      using less.prems by (simp add: wp_simps)
  qed
qed

lemma shrink_inactive_list_wp:
  assumes "pool_inv F s" "E Kernel_failed"
  shows "wpE (shrink_inactive_list K nr s) (\<lambda>(_, s'). pool_inv F s' \<and> pres F s s') E"
proof -
  have "wpE (shrink_inactive_loop K n 0 0 (s\<lparr>shrinkage_running := True\<rparr>))
    (\<lambda>r. pool_inv F (snd r) \<and> pres F s (snd r\<lparr>shrinkage_running := False\<rparr>)) E" for n
    by (rule wpE_mono [OF shrink_inactive_loop_wp [where F = F]]) (use assms in \<open>auto intro: pres_shrink_end\<close>)
  then show ?thesis by (simp add: shrink_inactive_list_def Let_def wp_simps)
qed

section \<open>Direct reclaim and kswapd\<close>

lemma direct_allocate_loop_wp:
  assumes "pool_inv F s" and E: "E Kernel_failed"
  shows "wpE (direct_allocate_loop K nr ta ti sa si rc s) (\<lambda>(_, s'). pool_inv F s' \<and> pres F s s') E"
  using assms(1)
proof (induction "nat (ti - si)" arbitrary: sa si rc s rule: less_induct)
  case less
  let ?Q = "\<lambda>(_, s'). pool_inv F s' \<and> pres F s s'"
  show ?case
  proof (cases "si < ti \<and> rc < nr")
    case True
    have rec: "wpE (direct_allocate_loop K nr ta ti sa' (si + int SWAP_CLUSTER_COUNT) rc' s') ?Q E"
      if "pool_inv F s'" "pres F s s'" for sa' rc' s'
    proof -
      have "wpE (direct_allocate_loop K nr ta ti sa' (si + int SWAP_CLUSTER_COUNT) rc' s')
          (\<lambda>(_, s''). pool_inv F s'' \<and> pres F s' s'') E"
        by (rule less.hyps) (use True that in \<open>auto simp: SWAP_CLUSTER_COUNT_def\<close>)
      then show ?thesis by (rule wpE_mono) (use that in \<open>auto intro: pres_trans\<close>)
    qed
    have act: "wpE (shrink_active_list SWAP_CLUSTER_COUNT s')
        (\<lambda>r. wpE (direct_allocate_loop K nr ta ti sa' (si + int SWAP_CLUSTER_COUNT) rc' (snd r)) ?Q E) E"
      if "pool_inv F s'" "pres F s s'" for sa' rc' s'
      by (rule wpE_mono [OF shrink_active_list_wp [OF that(1)]]) (use that in \<open>auto intro!: rec intro: pres_trans\<close>)
    show ?thesis
      unfolding direct_allocate_loop.simps [of K nr ta ti sa si rc s] if_P [OF True] wpE_bindE
      by (rule wpE_mono [OF shrink_inactive_list_wp [where E = E, OF less.prems E]])
         (auto simp: Let_def wp_simps intro!: rec act)
  next
    case False
    then show ?thesis unfolding direct_allocate_loop.simps [of K nr ta ti sa si rc s] if_not_P [OF False]
      using less.prems by (simp add: wp_simps)
  qed
qed

lemma direct_allocate_wp:
  assumes "pool_inv F s" "E Kernel_failed"
  shows "wpE (direct_allocate_page_asynch K nr priority s) (\<lambda>(_, s'). pool_inv F s' \<and> pres F s s') E"
  unfolding direct_allocate_page_asynch_def Let_def by (rule direct_allocate_loop_wp [where E = E, OF assms])

lemma kswapd_reclaim_wp:
  assumes "pool_inv F s" "E Kernel_failed"
  shows "wpE (kswapd_reclaim K s) (\<lambda>s'. pool_inv F s' \<and> pres F s s') E"
proof -
  have "wpE (direct_allocate_page_asynch K nr 12 (s\<lparr>kswapd_running := True\<rparr>))
      (\<lambda>r. pool_inv F (snd r) \<and> pres F s (snd r\<lparr>kswapd_running := False\<rparr>)) E" for nr
    by (rule wpE_mono [OF direct_allocate_wp [where F = F]])
       (use assms in \<open>auto simp: pres_def env_def npool_def\<close>)
  then show ?thesis using assms
    by (simp add: kswapd_reclaim_def Let_def wp_simps) (auto simp: pres_def env_def npool_def)
qed

lemma held_idem: "\<not> held s m \<Longrightarrow> (held s)(m := False) = held s"
  by (simp add: fun_upd_idem)

lemma kswapd_wp:
  assumes inv: "pool_inv F s" and E: "E Kernel_failed"
  shows "wpE (lrudisk_synchkswapd K s) (\<lambda>s'. pool_inv F s' \<and> pres F s s') E"
proof -
  note h = pool_invD(3) [OF inv]
  let ?u = "\<lambda>a. s\<lparr>held := held s, kswapd_at := a\<rparr>"
  have "pool_inv F (?u a) \<and> pres F s (?u a)" for a using inv by (simp add: pres_def)
  moreover have "wpE (kswapd_reclaim K (?u a)) (\<lambda>s'. pool_inv F s' \<and> pres F s s') E" for a
    by (rule wpE_mono [OF kswapd_reclaim_wp [where F = F and E = E]]) (use inv E in \<open>auto simp: pres_def env_def npool_def\<close>)
  ultimately show ?thesis using h inv kswapd_reclaim_wp [where E = E, OF inv E]
    by (auto simp: lrudisk_synchkswapd_def wp_simps unlock_def held_idem split: kswapd_pc.split)
qed

lemma wake_kswapd_wp:
  assumes inv: "pool_inv F s"
  shows "wpE (wake_kswapd s) (\<lambda>s'. pool_inv F s' \<and> pres F s s' \<and> heap s' = heap s) E"
  using inv pool_invD(3) [OF inv]
  by (auto simp: wake_kswapd_def wp_simps Let_def unlock_def held_idem pres_def env_def)

end
