(* ===== verification/Disklinux_Evict.thy ===== *)
theory Disklinux_Evict
  imports Disklinux_Scan
begin

text \<open>
  Eviction: the scalar worker, the vector worker and the eviction inside the allocation. Each
  exchanges the places of the victim and of the descriptor of a disk slot, so the pool invariant is
  kept and no place is lost or used twice.
\<close>

section \<open>Rules\<close>

text \<open>
  A queue operation while a change of descriptors is under way: the invariant holds of the state in
  which the change is complete.
\<close>

lemma pending_enq_wp:
  assumes inv: "pool_inv F (s\<lparr>heap := g\<rparr>)" and p: "p \<in> F" "fits (s\<lparr>heap := g\<rparr>) l p"
    and Q: "\<And>fs. pool_inv (F - {p}) (s\<lparr>lists := fs, heap := g\<rparr>) \<Longrightarrow>
      seq fs = (seq (lists s))(l := p # seq (lists s) l) \<Longrightarrow>
      (\<And>q. list_p (link fs q) = (if q = p then Some l else page_list s q)) \<Longrightarrow> Q (s\<lparr>lists := fs\<rparr>)"
  shows "wpE (enqueue_fifo l p s) Q E"
proof (rule enqueue_wp)
  show "queues_free s" using pool_invD(1) [OF inv] by (simp add: queues_free_def)
  show "page_list s p = None" using pool_invD(7) [OF inv p(1)] by simp
next
  fix fs
  assume a: "lists_ok fs" "seq fs = (seq (lists s))(l := p # seq (lists s) l)"
    "\<And>q. list_p (link fs q) = (if q = p then Some l else page_list s q)"
  have eq: "s\<lparr>heap := g, lists := fs\<rparr> = s\<lparr>lists := fs, heap := g\<rparr>" by simp
  have "pool_inv (F - {p}) (s\<lparr>heap := g, lists := fs\<rparr>)"
    using a by (intro pool_inv_file [OF inv p]) simp_all
  note this [unfolded eq]
  then show "Q (s\<lparr>lists := fs\<rparr>)" using a(2,3) by (rule Q)
qed

lemma fits_upd:
  "fits (s\<lparr>heap := g\<rparr>) Disk_active_list p \<longleftrightarrow> \<not> in_dram (g p) \<and> swapped_out (g p) \<and> va (g p) \<noteq> 0 \<and>
     page_aligned (va (g p)) \<and> \<not> has_reserve (g p) \<and> \<not> migrating (g p)"
  "fits (s\<lparr>heap := g\<rparr>) Dram_free_list p \<longleftrightarrow> in_dram (g p) \<and> va (g p) = 0 \<and> \<not> has_reserve (g p)"
  "fits (s\<lparr>heap := g\<rparr>) Disk_free_list p \<longleftrightarrow> \<not> in_dram (g p) \<and> va (g p) = 0 \<and> \<not> has_reserve (g p)"
  by (auto simp: fits_def Let_def)

section \<open>Preparing a victim\<close>

text \<open>A victim in flight and the state in which it was a resident page.\<close>

definition victim_ok :: "'k ext \<Rightarrow> page_ptr \<Rightarrow> bool" where
  "victim_ok s v \<longleftrightarrow> (let h = heap s v in in_dram h \<and> \<not> swapped_out h \<and> va h \<noteq> 0 \<and> page_aligned (va h) \<and>
     (has_reserve h \<longrightarrow> (\<exists>d. reserve h = Some d \<and> backed s d v)))"

lemma resident_victim: "resident_page s v \<Longrightarrow> victim_ok s v"
  by (simp add: victim_ok_def resident_page_def Let_def)

lemma protect_victim_wp:
  assumes inv: "pool_inv F s" and v: "v \<in> F" "victim_ok s v" and E: "E Kernel_failed"
    and Q: "\<And>wb k. Q (wb, upd_page v (\<lambda>h. h\<lparr>migrating := True\<rparr>) s\<lparr>kst := k\<rparr>)"
  shows "wpE (protect_victim K v s) Q E"
  unfolding protect_victim_def Let_def wpE_bindE
  apply (rule wp_page_wp)
     apply (use v in \<open>simp add: victim_ok_def Let_def\<close>)
    apply (use v in \<open>simp add: victim_ok_def Let_def\<close>)
   apply (rule get_bits_wp)
     apply (use v in \<open>simp add: victim_ok_def Let_def\<close>)
  using Q E by (simp_all add: wp_simps)

lemma detach_wp:
  assumes inv: "pool_inv F s" and p: "page_list s p = Some l"
    and l: "l \<noteq> Disk_reserve_list \<or> (\<exists>v \<in> F. reserve (heap s p) = Some v)"
    and Q: "\<And>fs. pool_inv (insert p F) (s\<lparr>lists := fs\<rparr>) \<Longrightarrow>
      (\<And>q. list_p (link fs q) = (if q = p then None else page_list s q)) \<Longrightarrow> Q (s\<lparr>lists := fs\<rparr>)"
  shows "wpE (detach_from l p s) Q E"
  using p unfolding detach_from_def
  by (simp add: wpE_bindE) (rule pool_inv_tryremove_wp [OF inv p l], simp add: wp_simps Q)

lemma take_reserve_wp:
  assumes inv: "pool_inv F s" and v: "v \<in> F" "victim_ok s v" "has_reserve (heap s v)"
    and Q: "\<And>d fs. pool_inv (insert d F) (s\<lparr>lists := fs\<rparr>) \<Longrightarrow> d \<notin> F \<Longrightarrow> d < npool s \<Longrightarrow>
      \<not> in_dram (heap s d) \<Longrightarrow> va (heap s d) = 0 \<Longrightarrow> reserve (heap s v) = Some d \<Longrightarrow> reserve (heap s d) = Some v \<Longrightarrow>
      (\<And>q. list_p (link fs q) = (if q = d then None else page_list s q)) \<Longrightarrow>
      Q (d, s\<lparr>lists := fs\<rparr>)"
  shows "wpE (take_reserve v s) Q E"
proof -
  obtain d where d: "reserve (heap s v) = Some d" "backed s d v" using v by (auto simp: victim_ok_def Let_def)
  then have d': "page_list s d = Some Disk_reserve_list" "reserve (heap s d) = Some v" by (auto simp: backed_def)
  note f = pool_inv_listed [OF inv d'(1)]
  then have f': "\<not> in_dram (heap s d)" "va (heap s d) = 0" by (auto simp: fits_def Let_def)
  have "wpE (detach_from Disk_reserve_list d s) (\<lambda>s. Q (d, s)) E"
    by (rule detach_wp [OF inv d'(1)]) (use f f' d d' v Q in auto)
  then show ?thesis using d d' by (simp add: take_reserve_def wp_simps)
qed

section \<open>The exchange of places\<close>

text \<open>
  \<open>evicted s g v d\<close>: the descriptors \<open>g\<close> after the eviction of \<open>v\<close> into the slot of \<open>d\<close>.
\<close>

definition evicted :: "'k ext \<Rightarrow> (page_ptr \<Rightarrow> user_page) \<Rightarrow> page_ptr \<Rightarrow> page_ptr \<Rightarrow> bool" where
  "evicted s g v d \<longleftrightarrow> (\<forall>r. r \<noteq> v \<longrightarrow> r \<noteq> d \<longrightarrow> g r = heap s r) \<and>
     \<not> in_dram (g v) \<and> virtual_offset (g v) = virtual_offset (heap s d) \<and> swapped_out (g v) \<and> \<not> migrating (g v) \<and>
     \<not> has_reserve (g v) \<and> va (g v) = va (heap s v) \<and> pt (g v) = pt (heap s v) \<and> present (g v) = present (heap s v) \<and>
     in_dram (g d) \<and> virtual_offset (g d) = virtual_offset (heap s v) \<and> \<not> has_reserve (g d) \<and>
     va (g d) = 0 \<and> pt (g d) = pt (heap s d) \<and> \<not> present (g d)"

lemma evicted_inv:
  assumes inv: "pool_inv F s" and F: "v \<in> F" "d \<in> F" "v \<noteq> d" and v: "in_dram (heap s v)" "va (heap s v) \<noteq> 0"
    "page_aligned (va (heap s v))" "has_reserve (heap s v) \<Longrightarrow> reserve (heap s v) = Some d"
    and d: "\<not> in_dram (heap s d)" "has_reserve (heap s d) \<Longrightarrow> reserve (heap s d) = Some v"
    and g: "evicted s g v d"
  shows "pool_inv F (s\<lparr>heap := g\<rparr>)" "fits (s\<lparr>heap := g\<rparr>) Disk_active_list v" "fits (s\<lparr>heap := g\<rparr>) Dram_free_list d"
proof -
  show "pool_inv F (s\<lparr>heap := g\<rparr>)"
    by (rule pool_inv_swap [OF inv F]) (use g v d F pool_invD(4,5,6) [OF inv] in \<open>auto simp: evicted_def\<close>)
  show "fits (s\<lparr>heap := g\<rparr>) Disk_active_list v" "fits (s\<lparr>heap := g\<rparr>) Dram_free_list d"
    using g v by (auto simp: fits_upd evicted_def)
qed

lemma migrate_down_wp:
  assumes inv: "pool_inv F s" and v: "v \<in> F" "in_dram (heap s v)" "\<not> swapped_out (heap s v)" "va (heap s v) \<noteq> 0"
    "page_aligned (va (heap s v))" and d: "d \<in> F" "\<not> in_dram (heap s d)"
    and Q: "\<And>s'. heap s' = (heap s)(v := (placed (virtual_offset (heap s d)) False (heap s v))
        \<lparr>migrating := True, swapped_out := True\<rparr>) \<Longrightarrow> lists s' = lists s \<Longrightarrow> env s s' \<Longrightarrow> Q s'"
    and E: "E Kernel_failed"
  shows "wpE (lrudisk_migrate_down K v (virtual_offset (heap s d)) nw wb s) Q E"
proof -
  let ?s = "upd_page v (\<lambda>h. h\<lparr>migrating := True\<rparr>) s"
  have n: "v < npool s" "d < npool s" using pool_invD(6) [OF inv] v d by auto
  note pv = pool_inv_place [OF inv n(1)] and pd = pool_inv_place [OF inv n(2)]
  have dd: "wpE (extmem_migrate_downdisk K v (virtual_offset (heap s d)) False wb (?s\<lparr>kst := k\<rparr>)) Q E" for k
    by (rule downdisk_wp)
       (use v d n pv pd pool_invD(2,4) [OF inv] in \<open>auto simp: E intro!: Q\<close>)
  have "wpE (extmem_wp_page K v True ?s)
      (\<lambda>s'. wpE (extmem_migrate_downdisk K v (virtual_offset (heap s d)) False wb s') Q E) E"
    by (rule wp_page_wp) (use v dd E in auto)
  moreover have eq: "?s\<lparr>kst := kst s\<rparr> = ?s" by (simp add: upd_page_def)
  note dd [of "kst s", unfolded eq]
  ultimately show ?thesis
    by (auto simp: lrudisk_migrate_down_def Let_def wp_simps)
qed

lemma pool_inv_env:
  assumes "env s s'" "lists s' = lists s"
  shows "pool_inv F (s'\<lparr>heap := g\<rparr>) = pool_inv F (s\<lparr>heap := g\<rparr>)"
  using assms by (intro pool_inv_cong) (auto simp: env_def)

lemma fits_env:
  assumes "env s s'" "lists s' = lists s" "l \<in> {Disk_active_list, Dram_free_list, Disk_free_list}"
  shows "fits (s'\<lparr>heap := g\<rparr>) l p = fits (s\<lparr>heap := g\<rparr>) l p"
  using assms by (auto simp: fits_upd)

text \<open>
  The two ways the code files the victim and the freed frame after the migration; \<open>s\<close> is the state
  before the migration, \<open>s'\<close> the state after it and \<open>g\<close> the descriptors at the end.
\<close>

definition ready :: "page_ptr set \<Rightarrow> 'k ext \<Rightarrow> page_ptr \<Rightarrow> page_ptr \<Rightarrow> bool" where
  "ready F s v d \<longleftrightarrow> pool_inv (insert d (insert v F)) s \<and> v \<notin> F \<and> d \<notin> insert v F \<and>
     in_dram (heap s v) \<and> \<not> swapped_out (heap s v) \<and> va (heap s v) \<noteq> 0 \<and> page_aligned (va (heap s v)) \<and>
     (has_reserve (heap s v) \<longrightarrow> reserve (heap s v) = Some d) \<and>
     \<not> in_dram (heap s d) \<and> va (heap s d) = 0 \<and> (has_reserve (heap s d) \<longrightarrow> reserve (heap s d) = Some v)"

definition migrated :: "'k ext \<Rightarrow> page_ptr \<Rightarrow> page_ptr \<Rightarrow> 'k ext \<Rightarrow> bool" where
  "migrated s v d s' \<longleftrightarrow> heap s' = (heap s)(v := (placed (virtual_offset (heap s d)) False (heap s v))
        \<lparr>migrating := True, swapped_out := True\<rparr>) \<and> lists s' = lists s \<and> env s s'"

lemma ready_migrate_wp:
  assumes "ready F s v d" "E Kernel_failed" "\<And>s'. migrated s v d s' \<Longrightarrow> Q s'"
  shows "wpE (lrudisk_migrate_down K v (virtual_offset (heap s d)) nw wb s) Q E"
  by (rule migrate_down_wp [where F = "insert d (insert v F)"])
     (use assms in \<open>auto simp: ready_def migrated_def\<close>)

lemma ready_evicted:
  assumes "ready F s v d" "evicted s g v d" "env s s'" "lists s' = lists s"
  shows "pool_inv (insert d (insert v F)) (s'\<lparr>heap := g\<rparr>)" "fits (s'\<lparr>heap := g\<rparr>) Disk_active_list v"
    "fits (s'\<lparr>heap := g\<rparr>) Dram_free_list d"
  using assms evicted_inv [of "insert d (insert v F)" s v d g]
  by (auto simp: ready_def pool_inv_env fits_env)

lemma evicted_pres:
  assumes "ready F s v d" "evicted s g v d" "env s s'" "heap s' = g"
  shows "pres F s s'"
proof -
  have "v < npool s" "d < npool s" using assms(1) pool_invD(6) [of "insert d (insert v F)" s] by (auto simp: ready_def)
  then have "heap s' q = heap s q" if "npool s \<le> q" for q using assms(2,4) that by (auto simp: evicted_def)
  moreover have "heap s' q = heap s q" if "q \<in> F" for q
    using assms(1,2,4) that by (auto simp: ready_def evicted_def)
  moreover have "va (heap s' q) = va (heap s q)" for q
    using assms(1,2,4) by (cases "q = v \<or> q = d") (auto simp: ready_def evicted_def)
  ultimately show ?thesis using assms(3) by (simp add: pres_def)
qed

lemma enq_frame:
  assumes inv: "pool_inv G (s\<lparr>heap := g\<rparr>)" and p: "p \<in> G" "fits (s\<lparr>heap := g\<rparr>) l p"
    and Q: "\<And>fs. pool_inv (G - {p}) (s\<lparr>lists := fs, heap := g\<rparr>) \<Longrightarrow> Q (s\<lparr>lists := fs\<rparr>)"
  shows "wpE (enqueue_fifo l p s) Q E"
  by (rule pending_enq_wp [OF inv p]) (rule Q)

text \<open>Victim with a reserve: the links are cut, then both descriptors are filed.\<close>

lemma file_reserved_wp:
  assumes r: "ready F s v d" and m: "env s s'" "lists s' = lists s"
    "evicted s ((heap s')(v := (heap s' v)\<lparr>migrating := False, swapped_out := True\<rparr>)) v d"
    "migrating (heap s' v)" "swapped_out (heap s' v)"
  shows "wpE (bindE (enqueue_fifo Dram_free_list d s') (\<lambda>s.
     bindE (enqueue_fifo Disk_active_list v s) (\<lambda>s. release_victim v s)))
     (\<lambda>s''. pool_inv F s'' \<and> pres F s s'') E"
proof -
  let ?g = "(heap s')(v := (heap s' v)\<lparr>migrating := False, swapped_out := True\<rparr>)"
  note e = ready_evicted [OF r m(3) m(1,2)]
  have vd: "v \<noteq> d" "v \<notin> F" "d \<notin> F" using r by (auto simp: ready_def)
  show ?thesis unfolding wpE_bindE
  proof (rule enq_frame [OF e(1) _ e(3)])
    fix fs
    assume 1: "pool_inv (insert d (insert v F) - {d}) (s'\<lparr>lists := fs, heap := ?g\<rparr>)"
    show "wpE (enqueue_fifo Disk_active_list v (s'\<lparr>lists := fs\<rparr>))
        (\<lambda>s2. wpE (release_victim v s2) (\<lambda>s''. pool_inv F s'' \<and> pres F s s'') E) E"
    proof (rule enq_frame [OF 1])
      fix fs'
      assume 2: "pool_inv (insert d (insert v F) - {d} - {v}) (s'\<lparr>lists := fs, lists := fs', heap := ?g\<rparr>)"
      moreover have "insert d (insert v F) - {d} - {v} = F" using vd by auto
      moreover have "pres F s (s'\<lparr>lists := fs', heap := ?g\<rparr>)"
        by (rule evicted_pres [OF r m(3)]) (use m in simp_all)
      ultimately show "wpE (release_victim v (s'\<lparr>lists := fs, lists := fs'\<rparr>)) (\<lambda>s''. pool_inv F s'' \<and> pres F s s'') E"
        using m by (simp add: release_victim_def wp_simps upd_page_def)
    qed (use vd e(2) in \<open>auto simp: fits_upd\<close>)
  qed simp
qed

text \<open>Victim without a reserve: the victim is filed before the slot's descriptor takes the frame.\<close>

lemma take_frame_simps [simp]:
  "lists (take_frame d off s) = lists s" "env s0 (take_frame d off s) = env s0 s"
  "heap (take_frame d off s) = (heap s)(d := (heap s d)\<lparr>virtual_offset := off, in_dram := True, present := False\<rparr>)"
  "(take_frame d off s)\<lparr>heap := g\<rparr> = s\<lparr>heap := g\<rparr>"
  "(take_frame d off s)\<lparr>lists := fs\<rparr> = take_frame d off (s\<lparr>lists := fs\<rparr>)"
  "(take_frame d off s)\<lparr>lists := fs, heap := g\<rparr> = s\<lparr>lists := fs, heap := g\<rparr>"
  by (simp_all add: take_frame_def upd_page_def)

lemma file_fresh_wp:
  assumes r: "ready F s v d" and m: "env s s'" "lists s' = lists s"
    "evicted s ((heap (take_frame d off s'))(v := (heap s' v)\<lparr>migrating := False, swapped_out := True\<rparr>)) v d"
    "migrating (heap s' v)" "swapped_out (heap s' v)"
  shows "wpE (bindE (enqueue_fifo Disk_active_list v s') (\<lambda>s. let s = take_frame d off s in
     bindE (enqueue_fifo Dram_free_list d s) (\<lambda>s. release_victim v s)))
     (\<lambda>s''. pool_inv F s'' \<and> pres F s s'') E"
proof -
  let ?g = "(heap (take_frame d off s'))(v := (heap s' v)\<lparr>migrating := False, swapped_out := True\<rparr>)"
  note e = ready_evicted [OF r m(3) m(1,2)]
  have vd: "v \<noteq> d" "v \<notin> F" "d \<notin> F" using r by (auto simp: ready_def)
  show ?thesis unfolding wpE_bindE wpE_Let
  proof (rule enq_frame [OF e(1) _ e(2)])
    fix fs
    assume 1: "pool_inv (insert d (insert v F) - {v}) (s'\<lparr>lists := fs, heap := ?g\<rparr>)"
    show "wpE (enqueue_fifo Dram_free_list d (take_frame d off (s'\<lparr>lists := fs\<rparr>)))
        (\<lambda>s2. wpE (release_victim v s2) (\<lambda>s''. pool_inv F s'' \<and> pres F s s'') E) E"
    proof (rule enq_frame [where g = ?g and G = "insert d (insert v F) - {v}"])
      fix fs'
      assume 2: "pool_inv (insert d (insert v F) - {v} - {d}) (take_frame d off (s'\<lparr>lists := fs\<rparr>)\<lparr>lists := fs', heap := ?g\<rparr>)"
      have "insert d (insert v F) - {v} - {d} = F" using vd by auto
      with 2 have i: "pool_inv F (s'\<lparr>lists := fs', heap := ?g\<rparr>)" by simp
      have p: "pres F s (s'\<lparr>lists := fs', heap := ?g\<rparr>)"
        by (rule evicted_pres [OF r m(3)]) (use m in simp_all)
      have eq: "upd_page v (\<lambda>h. h\<lparr>migrating := False, swapped_out := True\<rparr>) (take_frame d off (s'\<lparr>lists := fs'\<rparr>)) =
          s'\<lparr>lists := fs', heap := ?g\<rparr>"
        using vd by (simp add: upd_page_def take_frame_def fun_upd_twist)
      show "wpE (release_victim v (take_frame d off (s'\<lparr>lists := fs\<rparr>)\<lparr>lists := fs'\<rparr>))
          (\<lambda>s''. pool_inv F s'' \<and> pres F s s'') E"
        using m vd i p by (simp add: release_victim_def wp_simps eq)
    qed (use 1 e(3) vd in \<open>auto simp: fits_upd\<close>)
  qed simp
qed

text \<open>Getting the slot's descriptor, in both cases of the code.\<close>

lemma ready_reserved:
  assumes "pool_inv (insert d (insert v F)) s" "v \<notin> F" "d \<notin> insert v F" "victim_ok s0 v"
    "heap s = heap s0" "\<not> in_dram (heap s0 d)" "va (heap s0 d) = 0" "reserve (heap s0 v) = Some d" "reserve (heap s0 d) = Some v"
  shows "ready F s v d"
  using assms by (auto simp: ready_def victim_ok_def Let_def)

lemma ready_fresh:
  assumes "pool_inv (insert d (insert v F)) s" "v \<notin> F" "d \<notin> insert v F" "victim_ok s0 v" "heap s = heap s0"
    "\<not> has_reserve (heap s0 v)" "fits s Disk_free_list d"
  shows "ready F s v d"
  using assms by (auto simp: ready_def victim_ok_def fits_def Let_def)

lemma clear_reserves_simps [simp]:
  "lists (clear_reserves d v s) = lists s" "env s0 (clear_reserves d v s) = env s0 s"
  "v \<noteq> d \<Longrightarrow> heap (clear_reserves d v s) = (heap s)(d := (heap s d)\<lparr>has_reserve := False, reserve := None\<rparr>,
      v := (heap s v)\<lparr>has_reserve := False, reserve := None\<rparr>)"
  by (simp_all add: clear_reserves_def)

lemma migrated_reserved:
  assumes "ready F s v d" "migrated s v d s'"
  defines "u \<equiv> clear_reserves d v (take_frame d (virtual_offset (heap s v)) s')"
  shows "env s u" "lists u = lists s" "migrating (heap u v)" "swapped_out (heap u v)"
    "evicted s ((heap u)(v := (heap u v)\<lparr>migrating := False, swapped_out := True\<rparr>)) v d"
  using assms by (auto simp: ready_def migrated_def u_def evicted_def)

lemma migrated_fresh:
  assumes "ready F s v d" "migrated s v d s'" "\<not> has_reserve (heap s v)" "\<not> has_reserve (heap s d)"
  shows "env s s'" "lists s' = lists s" "migrating (heap s' v)" "swapped_out (heap s' v)"
    "evicted s ((heap (take_frame d (virtual_offset (heap s v)) s'))
       (v := (heap s' v)\<lparr>migrating := False, swapped_out := True\<rparr>)) v d"
  using assms by (auto simp: ready_def migrated_def evicted_def)

section \<open>The scalar worker\<close>

lemma protected_state:
  fixes s :: "'k ext"
  assumes "pool_inv (insert v F) s" "v \<notin> F" "resident_page s v"
  defines "s1 \<equiv> \<lambda>k. upd_page v (\<lambda>h. h\<lparr>migrating := True\<rparr>) s\<lparr>kst := k\<rparr>"
  shows "pool_inv (insert v F) (s1 k)" "victim_ok (s1 k) v" "pres F s (s1 k)" "migrating (heap (s1 k) v)"
proof -
  show "pool_inv (insert v F) (s1 k)"
    unfolding s1_def using assms by (auto intro!: pool_inv_upd_page)
  show "victim_ok (s1 k) v" using assms(3)
    by (auto simp: s1_def victim_ok_def resident_page_def Let_def backed_def)
  show "pres F s (s1 k)" using assms pool_invD(6) [OF assms(1)] by (auto simp: s1_def intro!: pres_upd_page)
  show "migrating (heap (s1 k) v)" by (simp add: s1_def)
qed

lemma evict_reserved_wp:
  assumes inv: "pool_inv (insert v F) s" and v: "v \<notin> F" "victim_ok s v" "has_reserve (heap s v)" and E: "E Kernel_failed"
    and Q: "\<And>d s1 s2. ready F s1 v d \<Longrightarrow> migrated s1 v d s2 \<Longrightarrow> heap s1 = heap s \<Longrightarrow> pres F s s1 \<Longrightarrow>
      wpE (f d (virtual_offset (heap s v)) s2) Q E"
  shows "wpE (bindE (take_reserve v s) (\<lambda>(d, s). let old = virtual_offset (heap s v) in
     bindE (lrudisk_migrate_down K v (virtual_offset (heap s d)) nw wb s) (f d old))) Q E"
  unfolding wpE_bindE wpE_case_prod wpE_Let
proof (rule take_reserve_wp [OF inv _ v(2,3)])
  fix d fs
  assume d: "pool_inv (insert d (insert v F)) (s\<lparr>lists := fs\<rparr>)" "d \<notin> insert v F" "d < npool s" "\<not> in_dram (heap s d)"
    "va (heap s d) = 0" "reserve (heap s v) = Some d" "reserve (heap s d) = Some v"
  then have r: "ready F (s\<lparr>lists := fs\<rparr>) v d" using v by (intro ready_reserved) auto
  have "wpE (lrudisk_migrate_down K v (virtual_offset (heap (s\<lparr>lists := fs\<rparr>) d)) nw wb (s\<lparr>lists := fs\<rparr>))
     (\<lambda>s2. wpE (f d (virtual_offset (heap s v)) s2) Q E) E"
    by (rule ready_migrate_wp [OF r]) (use E r in \<open>auto intro!: Q\<close>)
  then show "wpE (lrudisk_migrate_down K v (virtual_offset (heap (snd (d, s\<lparr>lists := fs\<rparr>)) (fst (d, s\<lparr>lists := fs\<rparr>)))) nw wb
       (snd (d, s\<lparr>lists := fs\<rparr>)))
     (\<lambda>s2. wpE (f (fst (d, s\<lparr>lists := fs\<rparr>)) (virtual_offset (heap (snd (d, s\<lparr>lists := fs\<rparr>)) v)) s2) Q E) E" by simp
qed simp

lemma evict_fresh_wp:
  assumes inv: "pool_inv (insert v F) s" and v: "v \<notin> F" "victim_ok s v" "\<not> has_reserve (heap s v)"
    and E: "E Kernel_failed" "E No_disk_page"
    and Q: "\<And>d s1 s2. ready F s1 v d \<Longrightarrow> migrated s1 v d s2 \<Longrightarrow> heap s1 = heap s \<Longrightarrow> pres F s s1 \<Longrightarrow>
      \<not> has_reserve (heap s d) \<Longrightarrow> wpE (f d (virtual_offset (heap s v)) s2) Q E"
  shows "wpE (bindE (dequeue_fifo Disk_free_list s) (\<lambda>(d, s). case d of None \<Rightarrow> Inl No_disk_page
     | Some d \<Rightarrow> bindE (assertE (\<not> present (heap s d))) (\<lambda>_. let old = virtual_offset (heap s v) in
         bindE (lrudisk_migrate_down K v (virtual_offset (heap s d)) nw wb s) (f d old)))) Q E"
  unfolding wpE_bindE wpE_case_prod
proof (rule pool_inv_deq_wp [OF inv])
  fix fs xs d
  assume d: "pool_inv (insert d (insert v F)) (s\<lparr>lists := fs\<rparr>)" "d \<notin> insert v F" "d < npool s"
    "fits (s\<lparr>lists := fs\<rparr>) Disk_free_list d"
  then have r: "ready F (s\<lparr>lists := fs\<rparr>) v d" using v by (intro ready_fresh) auto
  have "\<not> has_reserve (heap s d)" using d(4) by (simp add: fits_def Let_def)
  then have "wpE (lrudisk_migrate_down K v (virtual_offset (heap (s\<lparr>lists := fs\<rparr>) d)) nw wb (s\<lparr>lists := fs\<rparr>))
     (\<lambda>s2. wpE (f d (virtual_offset (heap s v)) s2) Q E) E"
    by (intro ready_migrate_wp [OF r]) (use E r in \<open>auto intro!: Q\<close>)
  moreover have "\<not> present (heap s d)" using pool_invD(5) [OF d(1)] d(3) by simp
  ultimately show "wpE (case fst (Some d, s\<lparr>lists := fs\<rparr>) of None \<Rightarrow> Inl No_disk_page
     | Some d' \<Rightarrow> bindE (assertE (\<not> present (heap (snd (Some d, s\<lparr>lists := fs\<rparr>)) d'))) (\<lambda>_.
         let old = virtual_offset (heap (snd (Some d, s\<lparr>lists := fs\<rparr>)) v) in
         bindE (lrudisk_migrate_down K v (virtual_offset (heap (snd (Some d, s\<lparr>lists := fs\<rparr>)) d')) nw wb
           (snd (Some d, s\<lparr>lists := fs\<rparr>))) (f d' old))) Q E" by (simp add: wp_simps Let_def)
qed (use E in \<open>auto simp: wp_simps\<close>)

lemma pres_then:
  assumes "wpE r (\<lambda>s'. pool_inv F s' \<and> pres F s1 s') E" "pres F s s1"
  shows "wpE r (\<lambda>s'. pool_inv F s' \<and> pres F s s') E"
  using assms(1) by (rule wpE_mono) (use assms(2) in \<open>auto intro: pres_trans\<close>)

lemma evict_victim_wp:
  assumes inv: "pool_inv (insert v F) s" and v: "v \<notin> F" "resident_page s v" and E: "E Kernel_failed" "E No_disk_page"
  shows "wpE (evict_victim K v s) (\<lambda>s'. pool_inv F s' \<and> pres F s s') E"
  unfolding evict_victim_def wpE_bindE [of "protect_victim K v s"]
proof (rule protect_victim_wp [OF inv _ resident_victim [OF v(2)]], goal_cases)
  case (3 wb k)
  note p = protected_state [OF inv v, where k = k]
  show ?case
    unfolding prod.case wpE_if
  proof (intro conjI impI, goal_cases)
    case 1
    show ?case
    proof (rule pres_then [OF evict_reserved_wp [OF p(1) v(1) p(2) 1] p(3)], goal_cases)
      case (2 d s1 s2)
      note m = migrated_reserved [OF 2(1,2)]
      show ?case using pres_then [OF file_reserved_wp [OF 2(1) m(1,2,5,3,4)] 2(4)] 2(3) by (simp add: Let_def)
    qed (rule E)
  next
    case 2
    show ?case
    proof (rule pres_then [OF evict_fresh_wp [OF p(1) v(1) p(2) 2] p(3)], goal_cases)
      case (3 d s1 s2)
      note m = migrated_fresh [OF 3(1,2)]
      show ?case using pres_then [OF file_fresh_wp [OF 3(1) m(1,2,5,3,4)] 3(4)] 2 3(3,5) by (simp add: Let_def)
    qed (use E in auto)
  qed
qed (use E in auto)

lemma evictionworker_wp:
  assumes inv: "pool_inv F s" and E: "E Kernel_failed" "E No_disk_page"
  shows "wpE (lrudisk_evictionworker K s) (\<lambda>s'. pool_inv F s' \<and> pres F s s') E"
proof -
  let ?s = "upd_me (\<lambda>t. t\<lparr>internal_call := True\<rparr>) s"
  have i: "pool_inv F ?s" "pres F s ?s" using inv by (auto simp: pres_def env_def upd_me_def tls_le_upd)
  show ?thesis unfolding lrudisk_evictionworker_def wpE_Let wpE_bindE wpE_case_prod
  proof (rule pool_inv_deq_wp [OF i(1)], goal_cases)
    case (3 fs xs v)
    have "wpE (evict_victim K v (?s\<lparr>lists := fs\<rparr>)) (\<lambda>s'. pool_inv F s' \<and> pres F (?s\<lparr>lists := fs\<rparr>) s') E"
      by (rule evict_victim_wp) (use 3 E in \<open>auto simp: fits_resident\<close>)
    then show ?case using i(2) by (auto intro: pres_then)
  qed (use i in \<open>auto simp: wp_simps\<close>)
qed

end
