(* ===== verification/Disklinux_Alloc.thy ===== *)
theory Disklinux_Alloc
  imports Disklinux_Evict
begin

text \<open>
  Allocation of a free DRAM frame with direct reclaim, the swap-in operations, and the entry points
  that file, detach and remove pages.
\<close>

section \<open>Eviction for a frame\<close>

lemma free_frame_evicted:
  assumes r: "ready F s v d" and g: "evicted s g v d" and e: "env s s'" "lists s' = lists s"
    and i: "pool_inv (insert d (insert v F) - {v}) (s'\<lparr>lists := fs, heap := g\<rparr>)"
  shows "free_frame F (s'\<lparr>lists := fs, heap := g\<rparr>) d" "pres F s (s'\<lparr>lists := fs, heap := g\<rparr>)"
proof -
  have "insert d (insert v F) - {v} = insert d F" using r by (auto simp: ready_def)
  then show "free_frame F (s'\<lparr>lists := fs, heap := g\<rparr>) d"
    using i r g by (auto simp: free_frame_def ready_def evicted_def)
  show "pres F s (s'\<lparr>lists := fs, heap := g\<rparr>)" by (rule evicted_pres [OF r g]) (use e in simp_all)
qed

lemma swapped_flag: "swapped_out h \<Longrightarrow> h\<lparr>migrating := b, swapped_out := True\<rparr> = h\<lparr>migrating := b\<rparr>"
  for h :: user_page
  by (cases h) simp

lemma frame_then:
  assumes "wpE r (\<lambda>x. free_frame F (snd x) (fst x) \<and> pres F s1 (snd x)) E" "pres F s s1"
  shows "wpE r (\<lambda>x. free_frame F (snd x) (fst x) \<and> pres F s (snd x)) E"
  using assms(1) by (rule wpE_mono) (use assms(2) in \<open>auto intro: pres_trans\<close>)

lemma evict_for_frame_wp:
  assumes inv: "pool_inv (insert v F) s" and v: "v \<notin> F" "resident_page s v" and E: "E Kernel_failed" "E No_disk_page"
  shows "wpE (evict_for_frame K v s) (\<lambda>r. free_frame F (snd r) (fst r) \<and> pres F s (snd r)) E"
  unfolding evict_for_frame_def wpE_bindE [of "protect_victim K v s"]
proof (rule protect_victim_wp [OF inv _ resident_victim [OF v(2)]], goal_cases)
  case (3 wb k)
  note p = protected_state [OF inv v, where k = k]
  show ?case
    unfolding prod.case wpE_if
  proof (intro conjI impI, goal_cases)
    case 1
    show ?case
    proof (rule frame_then [OF evict_reserved_wp [OF p(1) v(1) p(2) 1] p(3)], goal_cases)
      case (2 d s1 s2)
      note m = migrated_reserved [OF 2(1,2)]
      define u where "u = clear_reserves d v (take_frame d (virtual_offset (heap s1 v)) s2)"
      note m = m [folded u_def]
      let ?g = "(heap u)(v := (heap u v)\<lparr>migrating := False, swapped_out := True\<rparr>)"
      note e = ready_evicted [OF 2(1) m(5,1,2)]
      have "wpE (enqueue_fifo Disk_active_list v u) (\<lambda>s. wpE (bindE (release_victim v s) (\<lambda>s. Inr (d, s)))
          (\<lambda>r. free_frame F (snd r) (fst r) \<and> pres F s1 (snd r)) E) E"
      proof (rule enq_frame [OF e(1) _ e(2)])
        fix fs assume "pool_inv (insert d (insert v F) - {v}) (u\<lparr>lists := fs, heap := ?g\<rparr>)"
        note f = free_frame_evicted [OF 2(1) m(5,1,2) this]
        show "wpE (bindE (release_victim v (u\<lparr>lists := fs\<rparr>)) (\<lambda>s. Inr (d, s)))
            (\<lambda>r. free_frame F (snd r) (fst r) \<and> pres F s1 (snd r)) E"
          using f m(3,4) by (simp add: release_victim_def wp_simps upd_page_def)
      qed simp
      then have "wpE (bindE (enqueue_fifo Disk_active_list v u) (\<lambda>s. bindE (release_victim v s) (\<lambda>s. Inr (d, s))))
          (\<lambda>r. free_frame F (snd r) (fst r) \<and> pres F s1 (snd r)) E" by (simp only: wpE_bindE)
      from frame_then [OF this 2(4)] show ?case using 2(3) by (simp add: Let_def u_def)
    qed (rule E)
  next
    case 2
    show ?case
    proof (rule frame_then [OF evict_fresh_wp [OF p(1) v(1) p(2) 2] p(3)], goal_cases)
      case (3 d s1 s2)
      have nr: "\<not> has_reserve (heap s1 v)" "\<not> has_reserve (heap s1 d)" using 2 3(3,5) by simp_all
      note m = migrated_fresh [OF 3(1,2) nr]
      let ?g = "(heap (take_frame d (virtual_offset (heap s1 v)) s2))(v := (heap s2 v)\<lparr>migrating := False, swapped_out := True\<rparr>)"
      note e = ready_evicted [OF 3(1) m(5,1,2)]
      have vd: "v \<noteq> d" using 3(1) by (auto simp: ready_def)
      have "wpE (enqueue_fifo Disk_active_list v s2) (\<lambda>s. wpE (Inr (d, upd_page v (\<lambda>h. h\<lparr>migrating := False\<rparr>)
            (take_frame d (virtual_offset (heap s1 v)) s))) (\<lambda>r. free_frame F (snd r) (fst r) \<and> pres F s1 (snd r)) E) E"
      proof (rule enq_frame [OF e(1) _ e(2)])
        fix fs assume "pool_inv (insert d (insert v F) - {v}) (s2\<lparr>lists := fs, heap := ?g\<rparr>)"
        note f = free_frame_evicted [OF 3(1) m(5,1,2) this]
        have "upd_page v (\<lambda>h. h\<lparr>migrating := False\<rparr>) (take_frame d (virtual_offset (heap s1 v)) (s2\<lparr>lists := fs\<rparr>)) =
            s2\<lparr>lists := fs, heap := ?g\<rparr>"
          using vd swapped_flag [OF m(4)] by (simp add: upd_page_def take_frame_def fun_upd_twist)
        then show "wpE (Inr (d, upd_page v (\<lambda>h. h\<lparr>migrating := False\<rparr>)
            (take_frame d (virtual_offset (heap s1 v)) (s2\<lparr>lists := fs\<rparr>)))) (\<lambda>r. free_frame F (snd r) (fst r) \<and> pres F s1 (snd r)) E"
          using f by (simp only: wpE_Inr fst_conv snd_conv)
      qed simp
      then show ?case using 3(3,4) m(4) by (auto simp: Let_def wp_simps elim!: wpE_mono intro: pres_trans)
    qed (use E in auto)
  qed
qed (use E in auto)

section \<open>Counting frames\<close>

lemma dram_count:
  assumes "pool_inv F s"
  shows "card {p. p < npool s \<and> in_dram (heap s p)} = nframes s"
proof -
  note b = pool_invD(9) [OF assms]
  let ?A = "{p. p < npool s \<and> in_dram (heap s p)}"
  have "frame s ` ?A = {True} \<times> slots (dramsize s)"
  proof
    show "frame s ` ?A \<subseteq> {True} \<times> slots (dramsize s)"
    proof (rule image_subsetI)
      fix p assume p: "p \<in> ?A"
      then have "frame s p \<in> all_frames s" using bij_betwE [OF b] by simp
      with p show "frame s p \<in> {True} \<times> slots (dramsize s)" by (simp add: all_frames_def frame_def)
    qed
    show "{True} \<times> slots (dramsize s) \<subseteq> frame s ` ?A"
    proof
      fix x assume x: "x \<in> {True} \<times> slots (dramsize s)"
      then have "x \<in> frame s ` {..<npool s}" using b by (auto simp: bij_betw_def all_frames_def)
      with x show "x \<in> frame s ` ?A" by (auto simp: frame_def)
    qed
  qed
  moreover have "inj_on (frame s) ?A"
    by (rule inj_on_subset [OF bij_betw_imp_inj_on [OF b]]) auto
  ultimately have "card ?A = card ({True} \<times> slots (dramsize s))" using card_image [of "frame s" ?A] by simp
  then show ?thesis by (simp add: card_cartesian_product card_slots nframes_def)
qed

text \<open>With no free frame and nothing queued for eviction, every frame is on one of the two LRU lists.\<close>

lemma resident_count:
  assumes inv: "pool_inv F s" and e: "seq (lists s) Dram_free_list = []" "seq (lists s) Eviction_list = []"
  shows "entries s Active_list + entries s Inactive_list + frames_held F s = nframes s"
proof -
  have ok: "lists_ok (lists s)" using pool_invD(1) [OF inv] by (simp add: queues_free_def)
  let ?a = "set (seq (lists s) Active_list)" and ?i = "set (seq (lists s) Inactive_list)" and ?F = "{p \<in> F. in_dram (heap s p)}"
  note mem = lists_ok_mem [OF ok]
  have 1: "p \<in> ?a \<union> ?i \<union> ?F" if p: "p < npool s" "in_dram (heap s p)" for p
  proof (cases "p \<in> F")
    case False
    then obtain l where l: "page_list s p = Some l" "fits s l p" using pool_invD(10) [OF inv p(1)] by (auto simp: filed_def)
    then have "l \<noteq> Dram_free_list" "l \<noteq> Eviction_list" using e mem by force+
    with l p(2) have "l = Active_list \<or> l = Inactive_list" by (cases l) (auto simp: fits_def Let_def)
    with l(1) show ?thesis by (auto simp: mem)
  qed (use p in simp)
  have 2: "p < npool s \<and> in_dram (heap s p)" if "p \<in> ?a \<union> ?i \<union> ?F" for p
    using that pool_invD(6) [OF inv] pool_inv_listed(1,3) [OF inv, of p]
    by (auto simp: mem fits_def resident_page_def Let_def)
  have "{p. p < npool s \<and> in_dram (heap s p)} = ?a \<union> ?i \<union> ?F" using 1 2 by blast
  moreover have "?a \<inter> ?i = {}" "(?a \<union> ?i) \<inter> ?F = {}"
    using lists_ok_disjoint [OF ok, of Active_list Inactive_list] pool_inv_listed(2) [OF inv] by (auto simp: mem)
  moreover have "finite ?F"
    by (rule finite_subset [of _ "{..<npool s}"]) (use pool_invD(6) [OF inv] in auto)
  ultimately have "nframes s = card ?a + card ?i + card ?F"
    using dram_count [OF inv] by (simp add: card_Un_disjoint)
  then show ?thesis using lists_ok_entries [OF ok] distinct_card [OF lists_ok_distinct [OF ok]]
    by (simp add: frames_held_def)
qed

text \<open>
  So the reclaim condition of \<open>fetch_free_asynch\<close> holds unless its callers hold half of all frames.
\<close>

lemma reclaim_condition:
  assumes inv: "pool_inv F s" and e: "seq (lists s) Dram_free_list = []" "seq (lists s) Eviction_list = []"
    and f: "2 * frames_held F s < nframes s"
  shows "resident s > dramsize s div (PAGE_SIZE * 2)"
proof -
  let ?n = "entries s Active_list + entries s Inactive_list"
  have n: "?n + frames_held F s = nframes s" by (rule resident_count [OF inv e])
  have N: "nframes s = unat (dramsize s) div 4096" by (simp add: nframes_def unat_div)
  have "?n < 2 ^ 64" using n N unat64_less [of "dramsize s"] by simp
  then have "unat (resident s) = ?n" by (simp add: resident_def unat_of_nat del: of_nat_add)
  moreover have "unat (dramsize s div (PAGE_SIZE * 2)) = nframes s div 2"
    using N by (simp add: unat_div div_mult2_eq [symmetric])
  moreover have "nframes s div 2 < ?n" using n f by linarith
  ultimately show ?thesis by (simp add: word_less_nat_alt)
qed

lemma pres_frames:
  assumes "pres F s s'"
  shows "frames_held F s' = frames_held F s" "nframes s' = nframes s"
proof -
  have "{p \<in> F. in_dram (heap s' p)} = {p \<in> F. in_dram (heap s p)}" using presD(4) [OF assms] by auto
  then show "frames_held F s' = frames_held F s" by (simp add: frames_held_def)
  show "nframes s' = nframes s" using presD(1) [OF assms] by (simp add: nframes_def env_def)
qed

section \<open>Allocation\<close>

lemma can_alloc_pres: "pres F s s' \<Longrightarrow> can_alloc F s \<Longrightarrow> can_alloc F s'"
  using pres_frames [of F s s'] presD(1) [of F s s'] by (auto simp: can_alloc_def env_def)

context reclaimer
begin

text \<open>One turn of the loop of \<open>fetch_free_asynch\<close>; \<open>again\<close> is the rest of the loop.\<close>

lemma fetch_turn:
  assumes inv: "pool_inv F s" and a: "can_alloc F s"
    and rec: "\<And>s1. pool_inv F s1 \<Longrightarrow> can_alloc F s1 \<Longrightarrow> wpE (again s1) (\<lambda>r. free_frame F (snd r) (fst r) \<and> pres F s1 (snd r)) stops"
  shows "wpE (bindE (dequeue_fifo Dram_free_list s) (\<lambda>(page, s).
     case page of
       Some page \<Rightarrow> Inr (page, s)
     | None \<Rightarrow>
         if \<not> shrinkage_running s \<and> resident s > dramsize s div (PAGE_SIZE * 2) then
           bindE (reclaim priority s) (\<lambda>(_, s).
           bindE (dequeue_fifo Eviction_list s) (\<lambda>(page, s).
           case page of
             Some page \<Rightarrow> evict_for_frame K page s
           | None \<Rightarrow> again s))
         else
           bindE (dequeue_fifo Eviction_list s) (\<lambda>(page, s).
           case page of
             Some page \<Rightarrow> evict_for_frame K page s
           | None \<Rightarrow> Inl Spin))) (\<lambda>r. free_frame F (snd r) (fst r) \<and> pres F s (snd r)) stops"
  unfolding wpE_bindE wpE_case_prod
proof (rule pool_inv_deq_wp [OF inv], goal_cases)
  case 2
  let ?Q = "\<lambda>s r. free_frame F (snd r) (fst r) \<and> pres F s (snd r)"
  have ev: "wpE (dequeue_fifo Eviction_list s1) (\<lambda>r. wpE (case fst r of Some page \<Rightarrow> evict_for_frame K page (snd r)
      | None \<Rightarrow> f (snd r)) (?Q s) stops) stops"
    if "pool_inv F s1" "pres F s s1" "seq (lists s1) Eviction_list = [] \<Longrightarrow> wpE (f s1) (?Q s) stops" for s1 f
  proof (rule pool_inv_deq_wp [OF that(1)], goal_cases)
    case (3 fs xs x)
    have "wpE (evict_for_frame K x (s1\<lparr>lists := fs\<rparr>)) (?Q (s1\<lparr>lists := fs\<rparr>)) stops"
      by (rule evict_for_frame_wp) (use 3 in \<open>auto simp: fits_resident\<close>)
    then show ?case using frame_then that(2) by fastforce
  qed (use that in auto)
  have ra: "wpE (again s1) (?Q s) stops" if "pool_inv F s1" "pres F s s1" for s1
    by (rule frame_then [OF rec that(2)]) (use that a can_alloc_pres in auto)
  have da: "wpE (reclaim priority s) (\<lambda>r. wpE (dequeue_fifo Eviction_list (snd r))
      (\<lambda>r. wpE (case fst r of Some page \<Rightarrow> evict_for_frame K page (snd r)
      | None \<Rightarrow> again (snd r)) (?Q s) stops) stops) stops"
    by (rule wpE_mono [OF reclaim_law [OF inv]]) (auto intro!: ev ra)
  have sp: "resident s > dramsize s div (PAGE_SIZE * 2)" if "seq (lists s) Eviction_list = []"
    by (rule reclaim_condition [OF inv 2 that]) (use a in \<open>simp add: can_alloc_def\<close>)
  have "\<not> shrinkage_running s" using a by (simp add: can_alloc_def)
  then show ?case using da ev [of s "\<lambda>_. Inl Spin"] inv sp
    by (simp add: wp_simps case_prod_beta) (meson leD)
next
  case (3 fs xs x)
  then show ?case by (simp add: wp_simps free_frame_def fits_def Let_def)
qed simp

end

interpretation lru_reclaim: reclaimer "\<lambda>priority. direct_allocate_page_asynch K nr priority" for K nr
  by unfold_locales (rule wpE_mono [OF direct_allocate_wp [where E = stops]], auto)

lemma fetch_free_loop_wp:
  assumes "pool_inv F s" "can_alloc F s"
  shows "wpE (fetch_free_loop K priority s) (\<lambda>r. free_frame F (snd r) (fst r) \<and> pres F s (snd r)) stops"
  using assms
proof (induction priority arbitrary: s)
  case (Suc priority)
  show ?case unfolding fetch_free_loop.simps by (rule lru_reclaim.fetch_turn [OF Suc.prems]) (rule Suc.IH)
qed (simp add: wp_simps)

lemma fetch_free_wp:
  assumes inv: "pool_inv F s" and a: "can_alloc F s"
  shows "wpE (fetch_free_asynch K s) (\<lambda>r. free_frame F (snd r) (fst r) \<and> pres F s (snd r)) stops"
  unfolding fetch_free_asynch_def wpE_bindE
proof (rule wpE_mono [OF wake_kswapd_wp [where E = stops, OF inv]])
  fix s1 assume s1: "pool_inv F s1 \<and> pres F s s1 \<and> heap s1 = heap s"
  then have "can_alloc F s1" using can_alloc_pres [of F s s1] a by simp
  then have "wpE (fetch_free_loop K 12 s1) (\<lambda>r. free_frame F (snd r) (fst r) \<and> pres F s1 (snd r)) stops"
    using s1 by (intro fetch_free_loop_wp) auto
  then show "wpE (fetch_free_loop K 12 s1) (\<lambda>r. free_frame F (snd r) (fst r) \<and> pres F s (snd r)) stops"
    by (rule frame_then) (use s1 in simp)
qed

lemma free_frame_upd:
  assumes "free_frame F s p" "pres F s0 s"
  shows "free_frame F (upd_page p (\<lambda>h. h\<lparr>migrating := b\<rparr>) s) p" "pres F s0 (upd_page p (\<lambda>h. h\<lparr>migrating := b\<rparr>) s)"
proof -
  have p: "pool_inv (insert p F) s" "p \<notin> F" using assms(1) by (auto simp: free_frame_def)
  then have "pool_inv (insert p F) (upd_page p (\<lambda>h. h\<lparr>migrating := b\<rparr>) s)" by (auto intro!: pool_inv_upd_page)
  then show "free_frame F (upd_page p (\<lambda>h. h\<lparr>migrating := b\<rparr>) s) p" using assms(1) by (simp add: free_frame_def)
  have "p < npool s0" using pool_invD(6) [OF p(1), of p] presD(2) [OF assms(2)] by simp
  then show "pres F s0 (upd_page p (\<lambda>h. h\<lparr>migrating := b\<rparr>) s)" using assms(2) p by (auto intro!: pres_upd_page)
qed

lemma pagefault_wp:
  assumes "pool_inv F s" "can_alloc F s"
  shows "wpE (lrudisk_pagefault K s)
    (\<lambda>r. free_frame F (snd r) (fst r) \<and> pres F s (snd r) \<and> migrating (heap (snd r) (fst r))) stops"
  unfolding lrudisk_pagefault_def wpE_bindE wpE_case_prod
  by (rule wpE_mono [OF fetch_free_wp [OF assms]]) (auto simp: wp_simps free_frame_upd)

section \<open>Pages that the core marks before it calls the policy\<close>

lemma unmark_inv:
  assumes "p \<in> F"
  shows "pool_inv F (unmark p s) = pool_inv F s"
proof
  assume i: "pool_inv F (unmark p s)"
  have "pool_inv F ((unmark p s)\<lparr>heap := (heap (unmark p s))(p := heap s p)\<rparr>)"
    by (rule pool_inv_upd [OF i assms]) (use pool_invD(4-6) [OF i, of p] assms in auto)
  then show "pool_inv F s" by (simp add: upd_page_def)
qed (use assms in \<open>auto intro!: pool_inv_upd_page\<close>)

lemma marked_detach_wp:
  assumes inv: "pool_inv F (unmark p s)" and p: "page_list s p = Some l" "l \<noteq> Disk_reserve_list"
    and Q: "\<And>fs. pool_inv (insert p F) (s\<lparr>lists := fs\<rparr>) \<Longrightarrow>
      (\<And>q. list_p (link fs q) = (if q = p then None else page_list s q)) \<Longrightarrow> Q (0, s\<lparr>lists := fs\<rparr>)"
  shows "wpE (page_list_tryremove_page (Some l) p s) Q E"
proof (rule tryremove_wp [OF _ p(1)])
  show "queues_free s" using pool_invD(1) [OF inv] by (simp add: queues_free_def)
  fix fs
  assume fs: "lists_ok fs" "\<And>q. list_p (link fs q) = (if q = p then None else page_list s q)"
  have "pool_inv (insert p F) ((unmark p s)\<lparr>lists := fs\<rparr>)"
    by (rule pool_inv_take [OF inv]) (use p fs in auto)
  moreover have eq: "(unmark p s)\<lparr>lists := fs\<rparr> = unmark p (s\<lparr>lists := fs\<rparr>)" by (simp add: upd_page_def)
  ultimately have "pool_inv (insert p F) (s\<lparr>lists := fs\<rparr>)"
    using unmark_inv [of p "insert p F" "s\<lparr>lists := fs\<rparr>"] unfolding eq by simp
  then show "Q (0, s\<lparr>lists := fs\<rparr>)" using fs(2) by (rule Q)
qed

lemma marked_listed:
  assumes inv: "pool_inv F (unmark p s)" and p: "page_list s p = Some l"
  shows "p < npool s" "p \<notin> F" "fits (unmark p s) l p"
  using pool_inv_listed [OF inv, of p l] p by auto

lemma detach_page_wp:
  assumes inv: "pool_inv F (unmark p s)" and p: "page_list s p = Some Disk_active_list"
    and Q: "\<And>fs. pool_inv (insert p F) (s\<lparr>lists := fs\<rparr>) \<Longrightarrow> Q (s\<lparr>lists := fs\<rparr>)"
  shows "wpE (lrudisk_detach_page p s) Q E"
  using p unfolding lrudisk_detach_page_def detach_from_def
  by (simp add: wpE_bindE) (rule marked_detach_wp [OF inv p], simp, simp add: wp_simps Q)

lemma track_page_wp:
  assumes "pool_inv F s" "p \<in> F" "resident_page s p"
    and Q: "\<And>fs. pool_inv (F - {p}) (s\<lparr>lists := fs\<rparr>) \<Longrightarrow> Q (s\<lparr>lists := fs\<rparr>)"
  shows "wpE (lrudisk_track_page p s) Q E"
  using pool_invD(7) [OF assms(1,2)] unfolding lrudisk_track_page_def
  by (simp add: wpE_bindE) (rule pool_inv_enq_wp [OF assms(1,2)], use assms in \<open>auto simp: fits_resident\<close>)

lemma put_page_free_wp:
  assumes "free_frame F s p" and Q: "\<And>fs. pool_inv F (s\<lparr>lists := fs\<rparr>) \<Longrightarrow> Q (s\<lparr>lists := fs\<rparr>)"
  shows "wpE (lrudisk_put_page_free p s) Q E"
proof -
  have p: "pool_inv (insert p F) s" "p \<notin> F" "fits s Dram_free_list p" "va (heap s p) = 0"
    using assms(1) by (auto simp: free_frame_def fits_def Let_def)
  have "wpE (enqueue_fifo Dram_free_list p s) Q E"
    by (rule pool_inv_enq_wp [OF p(1) _ p(3)]) (use p Q in auto)
  then show ?thesis using p pool_invD(7) [OF p(1)] by (simp add: lrudisk_put_page_free_def wp_simps)
qed

section \<open>Swap-in\<close>

text \<open>
  \<open>linked s g p fp\<close>: the descriptors \<open>g\<close> after page \<open>p\<close> came into the frame of \<open>fp\<close>, whose
  descriptor now stands for the disk slot as the page's reserve.
\<close>

definition linked :: "'k ext \<Rightarrow> (page_ptr \<Rightarrow> user_page) \<Rightarrow> page_ptr \<Rightarrow> page_ptr \<Rightarrow> bool" where
  "linked s g p fp \<longleftrightarrow> (\<forall>r. r \<noteq> p \<longrightarrow> r \<noteq> fp \<longrightarrow> g r = heap s r) \<and>
     in_dram (g p) \<and> virtual_offset (g p) = virtual_offset (heap s fp) \<and> \<not> swapped_out (g p) \<and> \<not> migrating (g p) \<and>
     va (g p) = va (heap s p) \<and> pt (g p) = pt (heap s p) \<and> present (g p) = present (heap s p) \<and>
     has_reserve (g p) \<and> reserve (g p) = Some fp \<and>
     \<not> in_dram (g fp) \<and> virtual_offset (g fp) = virtual_offset (heap s p) \<and> va (g fp) = va (heap s fp) \<and>
     pt (g fp) = pt (heap s fp) \<and> present (g fp) = present (heap s fp) \<and> has_reserve (g fp) \<and> reserve (g fp) = Some p"

lemma linked_inv:
  assumes p: "on_disk s p" "p \<notin> F" and fp: "free_frame (insert p F) s fp" and g: "linked s g p fp"
  shows "pool_inv (insert fp (insert p F)) (s\<lparr>heap := g\<rparr>)" "fits (s\<lparr>heap := g\<rparr>) Disk_reserve_list fp"
proof -
  have i: "pool_inv (insert fp (insert p F)) s" "fp \<noteq> p" using fp by (auto simp: free_frame_def)
  have pp: "\<not> in_dram (heap s p)" "\<not> has_reserve (heap s p)" "pt (heap s p) = BASEP" "\<not> present (heap s p)"
    using p pool_invD(4-6) [OF i(1), of p] by (auto simp: incoming_def on_disk_def)
  have ff: "pt (heap s fp) = BASEP" "\<not> present (heap s fp)" using pool_invD(4-6) [OF i(1), of fp] by auto
  show 1: "pool_inv (insert fp (insert p F)) (s\<lparr>heap := g\<rparr>)"
    by (rule pool_inv_swap [OF i(1), where p = p and q = fp])
       (use g pp fp i(2) ff in \<open>auto simp: linked_def free_frame_def\<close>)
  show "fits (s\<lparr>heap := g\<rparr>) Disk_reserve_list fp"
    using g fp pool_invD(6) [OF i(1), of p] by (auto simp: linked_def free_frame_def fits_def Let_def)
qed

lemma linked_pres:
  assumes p: "on_disk s p" "p \<notin> F" and fp: "free_frame (insert p F) s fp" and g: "linked s g p fp"
    and s': "env s s'" "heap s' = g"
  shows "pres F s s'"
proof -
  have i: "pool_inv (insert fp (insert p F)) s" "fp \<noteq> p" "fp \<notin> F" "p \<notin> F" using fp p by (auto simp: free_frame_def incoming_def on_disk_def)
  have n: "p < npool s" "fp < npool s" using pool_invD(6) [OF i(1)] by auto
  have "g q = heap s q" if "q \<in> F \<or> npool s \<le> q" for q using that g i n by (auto simp: linked_def)
  moreover have "va (g q) = va (heap s q)" for q using g by (cases "q = p \<or> q = fp") (auto simp: linked_def)
  ultimately show ?thesis using s' by (simp add: pres_def)
qed

text \<open>The last two calls of a swap-in; \<open>g\<close> is what the descriptors will be when the core is done.\<close>

lemma file_linked_wp:
  assumes p: "on_disk s p" "p \<notin> F" and fp: "free_frame (insert p F) s fp" and g: "linked s g p fp"
    and s': "env s s'" "lists s' = lists s"
    and Q: "\<And>fs. pool_inv F (s'\<lparr>lists := fs, heap := g\<rparr>) \<Longrightarrow> page_list (s'\<lparr>lists := fs\<rparr>) p = Some Inactive_list \<Longrightarrow> Q (s'\<lparr>lists := fs\<rparr>)"
  shows "wpE (bindE (enqueue_fifo Disk_reserve_list fp s') (\<lambda>s. enqueue_fifo Inactive_list p s)) Q E"
proof -
  note l = linked_inv [OF p fp g]
  have i: "fp \<noteq> p" "fp \<notin> F" "p \<notin> F" using fp p by (auto simp: free_frame_def incoming_def on_disk_def)
  have l': "pool_inv (insert fp (insert p F)) (s'\<lparr>heap := g\<rparr>)" using l(1) pool_inv_env [OF s'] by simp
  have n: "npool s' = npool s" using env_npool [OF s'(1)] .
  have f: "fits (s'\<lparr>heap := g\<rparr>) Disk_reserve_list fp" using l(2) n by (simp add: fits_def)
  show ?thesis unfolding wpE_bindE
  proof (rule pending_enq_wp [OF l' _ f])
    fix fs
    assume fs: "pool_inv (insert fp (insert p F) - {fp}) (s'\<lparr>lists := fs, heap := g\<rparr>)"
      "\<And>q. list_p (link fs q) = (if q = fp then Some Disk_reserve_list else page_list s' q)"
    have e: "insert fp (insert p F) - {fp} = insert p F" using i by auto
    have "backed (s'\<lparr>lists := fs, heap := g\<rparr>) fp p"
      using g fs(2) pool_invD(6) [OF l', of fp] by (simp add: backed_def linked_def)
    then have "fits (s'\<lparr>lists := fs, heap := g\<rparr>) Inactive_list p"
      using g p by (auto simp: fits_def resident_page_def linked_def incoming_def on_disk_def Let_def)
    then show "wpE (enqueue_fifo Inactive_list p (s'\<lparr>lists := fs\<rparr>)) Q E"
    proof (rule pending_enq_wp [OF fs(1) [unfolded e] insertI1])
      fix fs'
      assume 1: "pool_inv (insert p F - {p}) (s'\<lparr>lists := fs, lists := fs', heap := g\<rparr>)"
        "\<And>q. list_p (link fs' q) = (if q = p then Some Inactive_list else page_list (s'\<lparr>lists := fs\<rparr>) q)"
      have "insert p F - {p} = F" using i by auto
      with 1 Q [of fs'] show "Q (s'\<lparr>lists := fs, lists := fs'\<rparr>)" by simp
    qed
  qed simp
qed

lemma settle_lists: "settle p (s\<lparr>lists := fs\<rparr>) = s\<lparr>lists := fs, heap := (heap s)(p := (heap s p)\<lparr>swapped_out := False, migrating := False\<rparr>)\<rparr>"
  by (simp add: upd_page_def)

lemma link_reserve_wp:
  assumes p: "on_disk s p" "p \<notin> F" and fp: "free_frame (insert p F) s fp"
    and s': "heap s' = (heap s)(p := placed (virtual_offset (heap s fp)) True (heap s p))" "lists s' = lists s" "env s s'"
    and off: "off = virtual_offset (heap s p)"
    and Q: "\<And>s''. pool_inv F (settle p s'') \<Longrightarrow> pres F s (settle p s'') \<Longrightarrow> Q s''"
  shows "wpE (link_reserve p fp off s') Q E"
proof -
  have i: "fp \<noteq> p" using fp by (auto simp: free_frame_def)
  let ?u = "upd_page fp (\<lambda>h. h\<lparr>has_reserve := True\<rparr>) (upd_page p (\<lambda>h. h\<lparr>reserve := Some fp, has_reserve := True\<rparr>)
     (upd_page fp (\<lambda>h. h\<lparr>reserve := Some p\<rparr>) (upd_page fp (\<lambda>h. h\<lparr>virtual_offset := off, in_dram := False,
        swapped_out := True, migrating := False\<rparr>) s')))"
  let ?g = "(heap ?u)(p := (heap ?u p)\<lparr>swapped_out := False, migrating := False\<rparr>)"
  have g: "linked s ?g p fp" using i by (auto simp: linked_def s'(1) off)
  have "wpE (bindE (enqueue_fifo Disk_reserve_list fp ?u) (\<lambda>s. enqueue_fifo Inactive_list p s)) Q E"
  proof (rule file_linked_wp [OF p fp g])
    fix fs
    assume 1: "pool_inv F (?u\<lparr>lists := fs, heap := ?g\<rparr>)"
    have "pres F s (?u\<lparr>lists := fs, heap := ?g\<rparr>)" by (rule linked_pres [OF p fp g]) (use s' in simp_all)
    with 1 show "Q (?u\<lparr>lists := fs\<rparr>)" by (intro Q) (simp_all only: settle_lists)
  qed (use s' in simp_all)
  then show ?thesis by (simp add: link_reserve_def Let_def)
qed

lemma incoming_detached:
  assumes "pool_inv F (unmark p s)" "page_list s p = Some Disk_active_list" "pool_inv (insert p F) (s\<lparr>lists := fs\<rparr>)"
  shows "incoming F (s\<lparr>lists := fs\<rparr>) p"
  using marked_listed [OF assms(1,2)] assms(3) by (auto simp: incoming_def on_disk_def fits_def Let_def)

lemma frames_held_disk: "\<not> in_dram (heap s p) \<Longrightarrow> frames_held (insert p F) s = frames_held F s"
proof -
  assume "\<not> in_dram (heap s p)"
  then have "{q \<in> insert p F. in_dram (heap s q)} = {q \<in> F. in_dram (heap s q)}" by auto
  then show ?thesis by (simp add: frames_held_def)
qed

lemma marked_detach_from_wp:
  assumes inv: "pool_inv F (unmark p s)" and p: "page_list s p = Some Disk_active_list"
    and Q: "\<And>fs. incoming F (s\<lparr>lists := fs\<rparr>) p \<Longrightarrow> Q (s\<lparr>lists := fs\<rparr>)"
  shows "wpE (detach_from Disk_active_list p s) Q E"
proof -
  have "wpE (lrudisk_detach_page p s) Q E"
    by (rule detach_page_wp [OF inv p]) (use incoming_detached [OF inv p] Q in blast)
  then show ?thesis by (simp add: lrudisk_detach_page_def)
qed

lemma incoming_place:
  assumes "incoming F s p"
  shows "\<not> in_dram (heap s p)" "pt (heap s p) = BASEP" "page_aligned (va (heap s p))"
    "virtual_offset (heap s p) < disksize s" "virtual_offset (heap s p) + PAGE_SIZE \<le> disksize s"
proof -
  have i: "pool_inv (insert p F) s" "\<not> in_dram (heap s p)" "page_aligned (va (heap s p))" using assms by (auto simp: incoming_def on_disk_def)
  have n: "p < npool s" using pool_invD(6) [OF i(1), of p] by simp
  show "\<not> in_dram (heap s p)" "page_aligned (va (heap s p))" using i by auto
  show "pt (heap s p) = BASEP" using pool_invD(4) [OF i(1) n] .
  show "virtual_offset (heap s p) < disksize s" "virtual_offset (heap s p) + PAGE_SIZE \<le> disksize s"
    using pool_inv_place(3,4) [OF i(1) n i(2)] by auto
qed

lemma free_frame_place:
  assumes "free_frame F s p"
  shows "virtual_offset (heap s p) < dramsize s" "virtual_offset (heap s p) + PAGE_SIZE \<le> dramsize s"
proof -
  have i: "pool_inv (insert p F) s" "in_dram (heap s p)" using assms by (auto simp: free_frame_def)
  have n: "p < npool s" using pool_invD(6) [OF i(1), of p] by simp
  show "virtual_offset (heap s p) < dramsize s" "virtual_offset (heap s p) + PAGE_SIZE \<le> dramsize s"
    using pool_inv_place(1,2) [OF i(1) n i(2)] by auto
qed

context frame_source
begin

text \<open>A swap-in from the point at which the page is detached.\<close>

lemma swapin_detached:
  assumes inc: "incoming F u p" and u: "pres F s u" and a: "can_alloc F u" and off: "off = virtual_offset (heap u p)"
  shows "wpE (bindE (core_migrate_up_async_start K p u) (\<lambda>s.
     bindE (fetch s) (\<lambda>(freepage, s).
     bindE (assertE (in_dram (heap s freepage))) (\<lambda>_.
     let offset = virtual_offset (heap s freepage) in
     bindE (core_migrate_up_async_finish K p offset s) (\<lambda>s.
     link_reserve p freepage off s)))))
    (\<lambda>s'. pool_inv F (settle p s') \<and> pres F s (settle p s')) stops"
proof -
  let ?Q = "\<lambda>s'. pool_inv F (settle p s') \<and> pres F s (settle p s')"
  note pl = incoming_place [OF inc]
  have fin: "wpE (bindE (assertE (in_dram (heap s2 fp))) (\<lambda>_. let offset = virtual_offset (heap s2 fp) in
      bindE (core_migrate_up_async_finish K p offset s2) (\<lambda>s. link_reserve p fp off s))) ?Q stops"
    if ff: "free_frame (insert p F) s2 fp" and p2: "pres (insert p F) u s2"
      and bf: "buffer_allocated (me s2)" "uring_read_init (me s2)" for s2 fp
  proof -
    have h2: "heap s2 p = heap u p" using presD(4) [OF p2] by simp
    have e: "disksize s2 = disksize u" using presD(1) [OF p2] by (auto simp: env_def)
    have pF: "pres F s s2" using u pres_mono [OF p2] pres_trans by blast
    have od: "on_disk s2 p" "p \<notin> F" using inc h2 by (simp_all add: incoming_def on_disk_def)
    have "wpE (core_migrate_up_async_finish K p (virtual_offset (heap s2 fp)) s2) (\<lambda>s3. wpE (link_reserve p fp off s3) ?Q stops) stops"
    proof (rule async_finish_wp)
      fix s3 assume "heap s3 = (heap s2)(p := placed (virtual_offset (heap s2 fp)) True (heap s2 p))" "lists s3 = lists s2" "env s2 s3"
      then show "wpE (link_reserve p fp off s3) ?Q stops"
        by (rule link_reserve_wp [OF od ff]) (use h2 off pF in \<open>auto intro: pres_trans\<close>)
    qed (use pl free_frame_place [OF ff] bf h2 e in auto)
    moreover have "in_dram (heap s2 fp)" using ff by (simp add: free_frame_def)
    ultimately show ?thesis by (simp add: wp_simps)
  qed
  show ?thesis unfolding wpE_bindE [of "core_migrate_up_async_start K p u"]
  proof (rule async_start_wp)
    fix k t
    assume t: "tls_le (tls u) t" "buffer_allocated (t (cur u))" "uring_read_init (t (cur u))"
    let ?u = "u\<lparr>kst := k, tls := t\<rparr>"
    have au: "can_alloc (insert p F) ?u" using a pl(1) by (simp add: can_alloc_def frames_held_disk) (simp add: frames_held_def nframes_def)
    have iu: "pool_inv (insert p F) ?u" using inc by (simp add: incoming_def)
    show "wpE (bindE (fetch ?u) (\<lambda>(freepage, s). bindE (assertE (in_dram (heap s freepage))) (\<lambda>_.
       let offset = virtual_offset (heap s freepage) in
       bindE (core_migrate_up_async_finish K p offset s) (\<lambda>s. link_reserve p freepage off s)))) ?Q stops"
      unfolding wpE_bindE [of "fetch ?u"]
    proof (rule wpE_mono [OF fetch_law [OF iu au]], goal_cases)
      case (1 x)
      have uu: "pres (insert p F) u ?u" using t(1) by (simp add: pres_def env_def)
      have e: "cur (snd x) = cur u" "tls_le t (tls (snd x))" using presD(1) [of "insert p F" ?u "snd x"] 1 by (auto simp: env_def)
      have bf: "buffer_allocated (me (snd x))" "uring_read_init (me (snd x))" using e t by (auto simp: tls_le_def)
      show ?case using fin [of "snd x" "fst x"] 1 pres_trans [OF uu] bf by (simp add: case_prod_beta)
    qed simp
  qed (use pl in auto)
qed

end

interpretation lru_frames: frame_source "fetch_free_asynch K" for K
  by unfold_locales (rule fetch_free_wp)

lemma can_alloc_lists [simp]: "can_alloc F (s\<lparr>lists := fs\<rparr>) = can_alloc F s"
  by (simp add: can_alloc_def frames_held_def nframes_def)

lemma swapin_external_async_wp:
  assumes inv: "pool_inv F (unmark p s)" and p: "page_list s p = Some Disk_active_list" and a: "can_alloc F s"
  shows "wpE (lrudisk_swapin_external_async K p s) (\<lambda>s'. pool_inv F (settle p s') \<and> pres F s (settle p s')) stops"
  unfolding lrudisk_swapin_external_async_def wpE_Let wpE_bindE [of "detach_from _ _ _"]
  by (rule marked_detach_from_wp [OF inv p], rule lru_frames.swapin_detached) (use a in simp_all)

lemma ack_swapin_wp:
  assumes p: "on_disk s p" "p \<notin> F" "migrating (heap s p)" and fp: "free_frame (insert p F) s fp"
  shows "wpE (lrudisk_ack_swapin p fp s) (\<lambda>s'. pool_inv F (arrive p s') \<and> pres F s (arrive p s')) E"
proof -
  have i: "fp \<noteq> p" "in_dram (heap s fp)" "pool_inv (insert fp (insert p F)) s" "swapped_out (heap s p)"
    using fp p by (auto simp: free_frame_def incoming_def on_disk_def)
  have N: "page_list s fp = None" "page_list s p = None" using pool_invD(7) [OF i(3)] by auto
  let ?u = "upd_page fp (\<lambda>h. h\<lparr>has_reserve := True\<rparr>) (upd_page p (\<lambda>h. h\<lparr>reserve := Some fp, has_reserve := True\<rparr>)
     (upd_page fp (\<lambda>h. h\<lparr>reserve := Some p\<rparr>) (upd_page p (\<lambda>h. h\<lparr>virtual_offset := virtual_offset (heap s fp)\<rparr>)
     (upd_page fp (\<lambda>h. h\<lparr>virtual_offset := virtual_offset (heap s p), in_dram := False,
        swapped_out := True, migrating := False\<rparr>) s))))"
  let ?g = "(heap ?u)(p := (heap ?u p)\<lparr>in_dram := True, swapped_out := False, migrating := False\<rparr>)"
  have g: "linked s ?g p fp" using i by (auto simp: linked_def)
  have "wpE (bindE (enqueue_fifo Disk_reserve_list fp ?u) (\<lambda>s. enqueue_fifo Inactive_list p s))
      (\<lambda>s'. pool_inv F (arrive p s') \<and> pres F s (arrive p s')) E"
  proof (rule file_linked_wp [OF p(1,2) fp g])
    fix fs
    assume 1: "pool_inv F (?u\<lparr>lists := fs, heap := ?g\<rparr>)"
    have "pres F s (?u\<lparr>lists := fs, heap := ?g\<rparr>)" by (rule linked_pres [OF p(1,2) fp g]) simp_all
    moreover have "arrive p (?u\<lparr>lists := fs\<rparr>) = ?u\<lparr>lists := fs, heap := ?g\<rparr>" by (simp add: upd_page_def)
    ultimately show "pool_inv F (arrive p (?u\<lparr>lists := fs\<rparr>)) \<and> pres F s (arrive p (?u\<lparr>lists := fs\<rparr>))"
      using 1 by (simp only:)
  qed simp_all
  then show ?thesis using i N p(3) by (simp add: lrudisk_ack_swapin_def Let_def wpE_bindE)
qed

section \<open>Removal\<close>

lemma unmark_upd [simp]: "unmark p (upd_page p (\<lambda>h. h\<lparr>migrating := b\<rparr>) s) = unmark p s"
  by (simp add: upd_page_def)

lemma reserve_page_wp:
  assumes inv: "pool_inv F s" and r: "page_list s r = Some Disk_reserve_list" "reserve (heap s r) = Some p" "p \<in> F"
    and Q: "\<And>fs. pool_inv F (s\<lparr>lists := fs, heap := (heap s)(r := (heap s r)\<lparr>has_reserve := False, reserve := None, present := False\<rparr>)\<rparr>) \<Longrightarrow>
      Q (s\<lparr>lists := fs, heap := (heap s)(r := (heap s r)\<lparr>has_reserve := False, reserve := None, present := False\<rparr>)\<rparr>)"
  shows "wpE (bindE (remove_from_any r s) (\<lambda>s.
     let s = upd_page r (\<lambda>h. h\<lparr>has_reserve := False, reserve := None, present := False\<rparr>) s in
     enqueue_fifo Disk_free_list r s)) Q E"
proof -
  note f = pool_inv_listed [OF inv r(1)]
  let ?f = "\<lambda>h. h\<lparr>has_reserve := False, reserve := None, present := False\<rparr>"
  have "wpE (page_list_tryremove_page (Some Disk_reserve_list) r s)
      (\<lambda>x. fst x = 0 \<and> wpE (enqueue_fifo Disk_free_list r (upd_page r ?f (snd x))) Q E) E"
  proof (rule pool_inv_tryremove_wp [OF inv r(1)])
    fix fs assume i: "pool_inv (insert r F) (s\<lparr>lists := fs\<rparr>)"
    let ?s = "upd_page r ?f (s\<lparr>lists := fs\<rparr>)"
    have i': "pool_inv (insert r F) ?s" unfolding upd_page_def
      by (rule pool_inv_upd [OF i]) (use f r pool_invD(4) [OF inv] in auto)
    have "wpE (enqueue_fifo Disk_free_list r ?s) Q E"
    proof (rule pool_inv_enq_wp [OF i'])
      show "fits ?s Disk_free_list r" using f(3) by (auto simp: fits_def Let_def)
      fix fs' assume "pool_inv (insert r F - {r}) (?s\<lparr>lists := fs'\<rparr>)"
      moreover have "insert r F - {r} = F" using f(2) by auto
      moreover have eq: "?s\<lparr>lists := fs'\<rparr> = s\<lparr>lists := fs', heap := (heap s)(r := ?f (heap s r))\<rparr>" by (simp add: upd_page_def)
      ultimately show "Q (?s\<lparr>lists := fs'\<rparr>)" using Q [of fs'] unfolding eq by simp
    qed simp
    then show "fst (0 :: int, s\<lparr>lists := fs\<rparr>) = 0 \<and> wpE (enqueue_fifo Disk_free_list r (upd_page r ?f (snd (0 :: int, s\<lparr>lists := fs\<rparr>)))) Q E" by simp
  qed (use r in auto)
  then show ?thesis using r(1)
    by (auto simp: remove_from_any_def wp_simps Let_def case_prod_beta elim!: wpE_mono)
qed

text \<open>Filing the removed page; its \<open>migrating\<close> flag is cleared after it is in the queue.\<close>

lemma file_removed_wp:
  assumes inv: "pool_inv (insert p F) s" and p: "p \<notin> F" "va (heap s p) = 0" "\<not> has_reserve (heap s p)"
    and l: "l = (if in_dram (heap s p) then Dram_free_list else Disk_free_list)"
    and Q: "\<And>fs. pool_inv F (s\<lparr>lists := fs, heap := heap (unmark p s)\<rparr>) \<Longrightarrow> Q (s\<lparr>lists := fs, heap := heap (unmark p s)\<rparr>)"
  shows "wpE (bindE (enqueue_fifo l p s) (\<lambda>s. Inr (unmark p s))) Q E"
  unfolding wpE_bindE
proof (rule pending_enq_wp)
  show "pool_inv (insert p F) (s\<lparr>heap := heap (unmark p s)\<rparr>)"
    using unmark_inv [of p "insert p F" s] inv by (simp add: upd_page_def)
  show "fits (s\<lparr>heap := heap (unmark p s)\<rparr>) l p" using p l by (auto simp: fits_upd)
  fix fs assume 1: "pool_inv (insert p F - {p}) (s\<lparr>lists := fs, heap := heap (unmark p s)\<rparr>)"
  have "insert p F - {p} = F" using p(1) by auto
  moreover have "unmark p (s\<lparr>lists := fs\<rparr>) = s\<lparr>lists := fs, heap := heap (unmark p s)\<rparr>" by (simp add: upd_page_def)
  ultimately show "wpE (Inr (unmark p (s\<lparr>lists := fs\<rparr>))) Q E" using 1 Q [of fs] by (simp add: wpE_Inr)
qed simp

text \<open>A page that is being removed: off its queue, without address.\<close>

definition leaving :: "page_ptr set \<Rightarrow> 'k ext \<Rightarrow> page_ptr \<Rightarrow> bool" where
  "leaving F s p \<longleftrightarrow> pool_inv (insert p F) s \<and> p \<notin> F \<and> va (heap s p) = 0 \<and>
     (in_dram (heap s p) \<or> swapped_out (heap s p) \<and> \<not> has_reserve (heap s p)) \<and>
     (has_reserve (heap s p) \<longrightarrow> (\<exists>r. reserve (heap s p) = Some r \<and> backed s r p))"

lemma drop_reserve_wp:
  assumes l: "leaving F s p" "in_dram (heap s p)"
    and Q: "\<And>s'. leaving F s' p \<Longrightarrow> in_dram (heap s' p) \<Longrightarrow> \<not> has_reserve (heap s' p) \<Longrightarrow> only_changes F p s s' \<Longrightarrow> Q s'"
  shows "wpE (drop_reserve p s) Q E"
proof (cases "has_reserve (heap s p)")
  case False
  then show ?thesis using l by (auto simp: drop_reserve_def wp_simps only_changes_def intro!: Q)
next
  case True
  have i: "pool_inv (insert p F) s" "p \<notin> F" "va (heap s p) = 0" using l by (auto simp: leaving_def)
  obtain r where r: "reserve (heap s p) = Some r" "backed s r p" using l True by (auto simp: leaving_def)
  then have r': "page_list s r = Some Disk_reserve_list" "reserve (heap s r) = Some p" by (auto simp: backed_def)
  note lr = pool_inv_listed [OF i(1) r'(1)]
  let ?f = "\<lambda>h. h\<lparr>has_reserve := False, reserve := None, present := False\<rparr>"
  let ?c = "\<lambda>h. h\<lparr>has_reserve := False, reserve := None\<rparr>"
  have "wpE (bindE (remove_from_any r s) (\<lambda>s. let s = upd_page r ?f s in enqueue_fifo Disk_free_list r s))
     (\<lambda>s. Q (upd_page p ?c s)) E"
  proof (rule reserve_page_wp [OF i(1) r' insertI1])
    fix fs
    let ?s1 = "s\<lparr>lists := fs, heap := (heap s)(r := ?f (heap s r))\<rparr>"
    assume i1: "pool_inv (insert p F) ?s1"
    have rp: "r \<noteq> p" "r \<notin> F" "r < npool s" using lr by auto
    have i2: "pool_inv (insert p F) (upd_page p ?c ?s1)" unfolding upd_page_def
      by (rule pool_inv_upd [OF i1]) (use rp r pool_invD(4-6) [OF i1, of p] in auto)
    have "leaving F (upd_page p ?c ?s1) p" using i2 i rp l(2) by (simp add: leaving_def)
    moreover have "only_changes F p s (upd_page p ?c ?s1)"
      using rp i(2) pool_invD(6) [OF i(1), of p] by (auto simp: only_changes_def)
    ultimately show "Q (upd_page p ?c ?s1)" using rp l(2) by (intro Q) simp_all
  qed
  then show ?thesis using True r(1) r' by (simp add: drop_reserve_def wp_simps Let_def)
qed

lemma free_place_wp:
  assumes l: "leaving F s p"
  shows "wpE (bindE (free_place p s) (\<lambda>s. Inr (unmark p s)))
    (\<lambda>s'. pool_inv F s' \<and> only_changes F p s s' \<and> va (heap s' p) = 0) E"
proof -
  have filing: "wpE (bindE (enqueue_fifo l p s1) (\<lambda>s. Inr (unmark p s)))
      (\<lambda>s'. pool_inv F s' \<and> only_changes F p s s' \<and> va (heap s' p) = 0) E"
    if "leaving F s1 p" "only_changes F p s s1" "\<not> has_reserve (heap s1 p)"
      "l = (if in_dram (heap s1 p) then Dram_free_list else Disk_free_list)" for s1 l
  proof (rule file_removed_wp [OF _ _ _ that(3,4)])
    have i: "pool_inv (insert p F) s1" "p \<notin> F" using that(1) by (auto simp: leaving_def)
    have n: "p < npool s" using pool_invD(6) [OF i(1), of p] env_npool [of s s1] that(2) by (simp add: only_changes_def)
    show "pool_inv (insert p F) s1" "p \<notin> F" "va (heap s1 p) = 0" using that(1) by (auto simp: leaving_def)
    fix fs assume "pool_inv F (s1\<lparr>lists := fs, heap := heap (unmark p s1)\<rparr>)"
    then show "pool_inv F (s1\<lparr>lists := fs, heap := heap (unmark p s1)\<rparr>) \<and>
        only_changes F p s (s1\<lparr>lists := fs, heap := heap (unmark p s1)\<rparr>) \<and>
        va (heap (s1\<lparr>lists := fs, heap := heap (unmark p s1)\<rparr>) p) = 0"
      using that(1,2) i(2) n by (auto simp: only_changes_def leaving_def)
  qed
  show ?thesis
  proof (cases "in_dram (heap s p)")
    case True
    have "wpE (drop_reserve p s) (\<lambda>s1. wpE (bindE (enqueue_fifo Dram_free_list p s1) (\<lambda>s. Inr (unmark p s)))
        (\<lambda>s'. pool_inv F s' \<and> only_changes F p s s' \<and> va (heap s' p) = 0) E) E"
      by (rule drop_reserve_wp [OF l True]) (auto intro!: filing)
    then show ?thesis using True by (simp add: free_place_def wp_simps)
  next
    case False
    let ?s = "upd_page p (\<lambda>h. h\<lparr>reserve := None, has_reserve := False\<rparr>) s"
    have i: "pool_inv (insert p F) s" "p \<notin> F" "swapped_out (heap s p)" "\<not> has_reserve (heap s p)" "va (heap s p) = 0"
      using l False by (auto simp: leaving_def)
    have "pool_inv (insert p F) ?s" unfolding upd_page_def
      by (rule pool_inv_upd [OF i(1)]) (use i pool_invD(4-6) [OF i(1), of p] in auto)
    then have "leaving F ?s p" using i by (simp add: leaving_def)
    moreover have "only_changes F p s ?s" using i(2) pool_invD(6) [OF i(1), of p] by (auto simp: only_changes_def)
    ultimately have "wpE (bindE (enqueue_fifo Disk_free_list p ?s) (\<lambda>s. Inr (unmark p s)))
        (\<lambda>s'. pool_inv F s' \<and> only_changes F p s s' \<and> va (heap s' p) = 0) E"
      using False by (intro filing) auto
    then show ?thesis using False i by (simp add: free_place_def wp_simps Let_def)
  qed
qed

lemma remove_page_wp:
  assumes inv: "pool_inv F (unmark p s)" and p: "page_list s p = Some l"
    and l: "l \<in> {Active_list, Inactive_list, Eviction_list, Disk_active_list}"
  shows "wpE (lrudisk_remove_page p s) (\<lambda>s'. pool_inv F s' \<and> only_changes F p s s' \<and> va (heap s' p) = 0) E"
proof -
  let ?s0 = "upd_page p (\<lambda>h. h\<lparr>migrating := True\<rparr>) s"
  let ?z = "\<lambda>h. h\<lparr>present := False, va := 0\<rparr>"
  note m = marked_listed [OF inv p]
  have p0: "page_list ?s0 p = Some l" using p by simp
  have "wpE (page_list_tryremove_page (Some l) p ?s0) (\<lambda>x. fst x = 0 \<and>
      wpE (bindE (free_place p (upd_page p ?z (snd x))) (\<lambda>s. Inr (unmark p s)))
        (\<lambda>s'. pool_inv F s' \<and> only_changes F p s s' \<and> va (heap s' p) = 0) E) E"
  proof (rule marked_detach_wp [OF _ p0])
    show "pool_inv F (unmark p ?s0)" using inv by simp
    fix fs
    assume i: "pool_inv (insert p F) (?s0\<lparr>lists := fs\<rparr>)"
      and fs: "\<And>q. list_p (link fs q) = (if q = p then None else page_list ?s0 q)"
    let ?s1 = "upd_page p ?z (?s0\<lparr>lists := fs\<rparr>)"
    have i1: "pool_inv (insert p F) ?s1" unfolding upd_page_def [of p ?z]
      by (rule pool_inv_upd [OF i]) (use pool_invD(4) [OF i, of p] m(1) in auto)
    have "backed ?s1 d p" if "backed (unmark p s) d p" for d
      using that p l fs [of d] by (cases "d = p") (auto simp: backed_def)
    then have "leaving F ?s1 p"
      using i1 m l by (auto simp: leaving_def fits_def resident_page_def Let_def)
    note f = free_place_wp [where E = E, OF this]
    have "wpE (bindE (free_place p ?s1) (\<lambda>s. Inr (unmark p s)))
        (\<lambda>s'. pool_inv F s' \<and> only_changes F p s s' \<and> va (heap s' p) = 0) E"
      by (rule wpE_mono [OF f]) (use m(1,2) in \<open>auto simp: only_changes_def\<close>)
    then show "fst (0 :: int, ?s0\<lparr>lists := fs\<rparr>) = 0 \<and>
      wpE (bindE (free_place p (upd_page p ?z (snd (0 :: int, ?s0\<lparr>lists := fs\<rparr>)))) (\<lambda>s. Inr (unmark p s)))
        (\<lambda>s'. pool_inv F s' \<and> only_changes F p s s' \<and> va (heap s' p) = 0) E" by simp
  qed (use l in auto)
  then show ?thesis using p
    by (auto simp: lrudisk_remove_page_def remove_from_any_def wp_simps Let_def case_prod_beta elim!: wpE_mono)
qed

end
