(* ===== verification/Disklinux_Unused.thy ===== *)
theory Disklinux_Unused
  imports Disklinux_Alloc
begin

text \<open>
  The synchronous allocators \<open>lrudisk_allocate_page_critical\<close> and \<open>fetch_free_page\<close> of \<open>policies/disklinux.c\<close>, the first of
  which \<open>policies/pageRank.c\<close> repeats. They call \<open>direct_allocate_page\<close>, which no file of the repository defines and which is
  a parameter here, and nothing calls them.
\<close>

type_synonym 'k direct_allocate = "'k ext \<Rightarrow> c_error + page_ptr option \<times> 'k ext"

definition allocate_page_critical :: "'k direct_allocate \<Rightarrow> 'k ext \<Rightarrow> c_error + page_ptr \<times> 'k ext" where
  "allocate_page_critical direct s =
     bindE (dequeue_fifo Dram_free_list s) (\<lambda>(page, s).
     case page of
       Some page \<Rightarrow>
         bindE (assertE (in_dram (heap s page))) (\<lambda>_.
         bindE (enqueue_fifo Inactive_list page s) (\<lambda>s. Inr (page, s)))
     | None \<Rightarrow>
         bindE (direct s) (\<lambda>(page, s).
         case page of
           None \<Rightarrow> Inl Out_of_memory
         | Some page \<Rightarrow> bindE (enqueue_fifo Inactive_list page s) (\<lambda>s. Inr (page, s))))"

definition pr_allocate_page_critical :: "'k direct_allocate \<Rightarrow> 'k ext \<Rightarrow> c_error + page_ptr \<times> 'k ext" where
  "pr_allocate_page_critical = allocate_page_critical"

definition fetch_free_page :: "'k direct_allocate \<Rightarrow> 'k ext \<Rightarrow> c_error + page_ptr \<times> 'k ext" where
  "fetch_free_page direct s =
     bindE (wake_kswapd s) (\<lambda>s.
     bindE (dequeue_fifo Dram_free_list s) (\<lambda>(page, s).
     case page of
       Some page \<Rightarrow> bindE (assertE (in_dram (heap s page))) (\<lambda>_. Inr (page, s))
     | None \<Rightarrow>
         bindE (direct s) (\<lambda>(page, s).
         case page of
           None \<Rightarrow> Inl Out_of_memory
         | Some page \<Rightarrow> Inr (page, s))))"

text \<open>What the name promises of \<open>direct_allocate_page\<close>: if it finds a frame, then one that is free.\<close>

definition direct_ok :: "page_ptr set \<Rightarrow> 'k direct_allocate \<Rightarrow> bool" where
  "direct_ok F direct \<longleftrightarrow> (\<forall>s. pool_inv F s \<longrightarrow> can_alloc F s \<longrightarrow>
     wpE (direct s) (\<lambda>(page, s'). \<forall>p. page = Some p \<longrightarrow> free_frame F s' p \<and> pres F s s') stops)"

lemma free_frame_dequeued:
  assumes "pool_inv (insert x F) (s\<lparr>lists := fs\<rparr>)" "x \<notin> F" "fits (s\<lparr>lists := fs\<rparr>) Dram_free_list x"
  shows "free_frame F (s\<lparr>lists := fs\<rparr>) x" "pres F s (s\<lparr>lists := fs\<rparr>)"
  using assms by (auto simp: free_frame_def fits_def Let_def)

lemma fetch_free_page_wp:
  assumes inv: "pool_inv F s" and a: "can_alloc F s" and d: "direct_ok F direct"
  shows "wpE (fetch_free_page direct s) (\<lambda>r. free_frame F (snd r) (fst r) \<and> pres F s (snd r)) stops"
  unfolding fetch_free_page_def wpE_bindE wpE_case_prod
proof (rule wpE_mono [OF wake_kswapd_wp [where E = stops, OF inv]])
  fix s1 assume s1: "pool_inv F s1 \<and> pres F s s1 \<and> heap s1 = heap s"
  then have a1: "can_alloc F s1" using can_alloc_pres [of F s s1] a by simp
  show "wpE (dequeue_fifo Dram_free_list s1) (\<lambda>r. wpE (case fst r of
      Some page \<Rightarrow> bindE (assertE (in_dram (heap (snd r) page))) (\<lambda>_. Inr (page, snd r))
    | None \<Rightarrow> bindE (direct (snd r)) (\<lambda>(page, s). case page of None \<Rightarrow> Inl Out_of_memory | Some page \<Rightarrow> Inr (page, s)))
      (\<lambda>r. free_frame F (snd r) (fst r) \<and> pres F s (snd r)) stops) stops"
  proof (rule pool_inv_deq_wp [OF s1 [THEN conjunct1]], goal_cases)
    case 2
    have "wpE (direct s1) (\<lambda>(page, s'). \<forall>p. page = Some p \<longrightarrow> free_frame F s' p \<and> pres F s1 s') stops"
      using d s1 a1 by (simp add: direct_ok_def)
    then show ?case using s1 unfolding fst_conv snd_conv option.case wpE_bindE
      by (elim wpE_mono) (auto simp: wp_simps stops_def split: option.splits intro: pres_trans)
  next
    case (3 fs xs x)
    then show ?case using free_frame_dequeued [OF 3(1,2,4)] s1
      by (auto simp: wp_simps free_frame_def intro: pres_trans)
  qed simp
qed

text \<open>The other allocator files the frame before it has an address.\<close>

lemma allocate_page_critical_wp:
  assumes inv: "pool_inv F s" and f: "seq (lists s) Dram_free_list \<noteq> []"
  shows "wpE (allocate_page_critical direct s) (\<lambda>(p, s'). page_list s' p = Some Inactive_list \<and> in_dram (heap s' p) \<and>
     va (heap s' p) = 0 \<and> heap s' = heap s) stops"
  unfolding allocate_page_critical_def wpE_bindE wpE_case_prod
proof (rule pool_inv_deq_wp [OF inv], goal_cases)
  case (3 fs xs x)
  note q = pool_invD(1,7) [OF 3(1)]
  have "wpE (enqueue_fifo Inactive_list x (s\<lparr>lists := fs\<rparr>)) (\<lambda>s'. page_list s' x = Some Inactive_list \<and> heap s' = heap s) stops"
    by (rule enqueue_wp) (use q in auto)
  then show ?case using free_frame_dequeued(1) [OF 3(1,2,4)]
    by (auto simp: wp_simps free_frame_def elim!: wpE_mono)
qed (use f in auto)

end
