(* ===== verification/Timer.thy ===== *)
theory Timer
  imports Main
begin

text \<open>
  \<open>timer.c\<close>: differences of time stamps. The fields are 64-bit and far from their limits for the
  times that occur, so they are integers. The functions that return \<open>double\<close> are given by the exact
  number of microseconds.
\<close>

record timeval =
  tv_sec :: int
  tv_usec :: int

record timespec =
  ts_sec :: int
  ts_nsec :: int

definition timeDiff :: "timeval \<Rightarrow> timeval \<Rightarrow> timeval" where
  "timeDiff a b =
     (let d = \<lparr>tv_sec = tv_sec a - tv_sec b, tv_usec = tv_usec a - tv_usec b\<rparr> in
      if tv_usec d < 0 then d\<lparr>tv_sec := tv_sec d - 1, tv_usec := tv_usec d + 1000000\<rparr> else d)"

definition tv_to_micro :: "timeval \<Rightarrow> int" where
  "tv_to_micro t = tv_sec t * 1000000 + tv_usec t"

definition elapsed_micro :: "timeval \<Rightarrow> timeval \<Rightarrow> int" where
  "elapsed_micro starttime endtime = tv_to_micro (timeDiff endtime starttime)"

definition clock_time_elapsed :: "timespec \<Rightarrow> timespec \<Rightarrow> int" where
  "clock_time_elapsed start stop =
     (let seconds = ts_sec stop - ts_sec start; nanoseconds = ts_nsec stop - ts_nsec start in
      seconds * 1000000000 + nanoseconds)"

definition valid_timeval :: "timeval \<Rightarrow> bool" where
  "valid_timeval t \<longleftrightarrow> 0 \<le> tv_usec t \<and> tv_usec t < 1000000"

text \<open>The difference of two normalised times is normalised, and it is the difference in microseconds.\<close>

lemma timeDiff_correct:
  assumes "valid_timeval a" "valid_timeval b"
  shows "valid_timeval (timeDiff a b) \<and> tv_to_micro (timeDiff a b) = tv_to_micro a - tv_to_micro b"
  using assms by (auto simp: timeDiff_def valid_timeval_def tv_to_micro_def Let_def)

end
