(* ===== verification/Polling.thy ===== *)
theory Polling
  imports Core_Faults
begin

text \<open>
  The thread that polls \<open>userfaultfd\<close> for faults (\<open>handle_fault\<close> of \<open>core.c\<close>), which a build with \<open>USWAP_UFFD\<close> runs in
  place of the signal handler. One turn of its loop is one call; \<open>poll\<close>, \<open>read\<close> and the wake-up are parameters.
\<close>

section \<open>Messages\<close>

type_synonym u8 = "8 word"

text \<open>\<open>struct uffd_msg\<close>, of 32 bytes, with the part of its union for page faults, and the constants of \<open>linux/userfaultfd.h\<close>.\<close>

record uffd_msg =
  msg_event :: u8
  msg_flags :: u64
  msg_address :: u64

definition UFFD_EVENT_PAGEFAULT :: u8 where "UFFD_EVENT_PAGEFAULT = 0x12"
definition UFFD_EVENT_FORK :: u8 where "UFFD_EVENT_FORK = 0x13"
definition UFFD_EVENT_REMAP :: u8 where "UFFD_EVENT_REMAP = 0x14"
definition UFFD_EVENT_REMOVE :: u8 where "UFFD_EVENT_REMOVE = 0x15"
definition UFFD_EVENT_UNMAP :: u8 where "UFFD_EVENT_UNMAP = 0x16"
definition UFFD_PAGEFAULT_FLAG_WP :: u64 where "UFFD_PAGEFAULT_FLAG_WP = 2"

definition POLLIN :: u32 where "POLLIN = 1"
definition POLLERR :: u32 where "POLLERR = 8"
definition sizeof_uffd_msg :: int where "sizeof_uffd_msg = 32"

lemmas uffd_consts = UFFD_EVENT_PAGEFAULT_def UFFD_EVENT_FORK_def UFFD_EVENT_REMAP_def UFFD_EVENT_REMOVE_def
  UFFD_EVENT_UNMAP_def UFFD_PAGEFAULT_FLAG_WP_def

section \<open>The loop\<close>

text \<open>
  \<open>p_poll\<close> returns its result and \<open>revents\<close>; \<open>p_read\<close> returns the number of bytes, whether \<open>errno\<close> is \<open>EAGAIN\<close>, and the
  message buffer, of one element. \<open>p_descriptor\<close> tells which descriptor of the library, if any, lies at an address.
\<close>

record 'k polling =
  p_poll :: "'k \<Rightarrow> (int \<times> u32) \<times> 'k"
  p_read :: "'k \<Rightarrow> (int \<times> bool \<times> uffd_msg) \<times> 'k"
  p_wake :: "u64 \<Rightarrow> u64 \<Rightarrow> 'k \<Rightarrow> bool \<times> 'k"
  p_descriptor :: "u64 \<Rightarrow> page_ptr option"

text \<open>Which branch the thread takes for a message; the last three stop the process, with different reports.\<close>

datatype uffd_branch = Page_fault | Unmap_event | Remove_event | Other_event

definition uffd_branch :: "u8 \<Rightarrow> uffd_branch" where
  "uffd_branch e =
     (if e AND UFFD_EVENT_PAGEFAULT \<noteq> 0 then Page_fault
      else if e AND UFFD_EVENT_UNMAP \<noteq> 0 then Unmap_event
      else if e AND UFFD_EVENT_REMOVE \<noteq> 0 then Remove_event
      else Other_event)"

text \<open>
  The handlers take a descriptor, but the thread passes them the address of the page as if it were one. An address at
  which there is no descriptor is an invalid pointer.
\<close>

definition poll_fault :: "'k kernel \<Rightarrow> 'k policy \<Rightarrow> 'k polling \<Rightarrow> u64 \<Rightarrow> u64 \<Rightarrow> 'k ext \<Rightarrow> c_error + 'k ext" where
  "poll_fault K P D fault_flags page_boundry s =
     (case p_descriptor D page_boundry of
        None \<Rightarrow> Inl Null_deref
      | Some page \<Rightarrow>
          if fault_flags AND UFFD_PAGEFAULT_FLAG_WP \<noteq> 0 then handle_wp_fault page s
          else handle_missing_fault K P page s)"

definition handle_msg :: "'k kernel \<Rightarrow> 'k policy \<Rightarrow> 'k polling \<Rightarrow> uffd_msg \<Rightarrow> 'k ext \<Rightarrow> c_error + 'k ext" where
  "handle_msg K P D msg s =
     (if uffd_branch (msg_event msg) = Page_fault then
        let page_boundry = msg_address msg AND NOT (PAGE_SIZE - 1) in
        bindE (poll_fault K P D (msg_flags msg) page_boundry s) (\<lambda>s.
        kcall (p_wake D page_boundry PAGE_SIZE) s)
      else Inl Assert_failed)"

definition take_message :: "'k kernel \<Rightarrow> 'k policy \<Rightarrow> 'k polling \<Rightarrow> 'k ext \<Rightarrow> c_error + 'k ext" where
  "take_message K P D s =
     (let ((nread, again, msg), k) = p_read D (kst s); s = s\<lparr>kst := k\<rparr> in
      if nread = 0 then Inl Assert_failed
      else if nread < 0 then (if again then Inr s else Inl Kernel_failed)
      else if nread mod sizeof_uffd_msg \<noteq> 0 then Inl Assert_failed
      else if 0 < nread div sizeof_uffd_msg then handle_msg K P D msg s
      else Inr s)"

text \<open>\<open>!pollfd.revents & POLLIN\<close> negates first.\<close>

definition no_input :: "u32 \<Rightarrow> bool" where
  "no_input revents \<longleftrightarrow> (if revents = 0 then 1 else 0) AND POLLIN \<noteq> 0"

definition handle_fault :: "'k kernel \<Rightarrow> 'k policy \<Rightarrow> 'k polling \<Rightarrow> 'k ext \<Rightarrow> c_error + 'k ext" where
  "handle_fault K P D s =
     (let ((pollres, revents), k) = p_poll D (kst s); s = s\<lparr>kst := k\<rparr> in
      if pollres = -1 then Inl Kernel_failed
      else if pollres = 0 then Inr s
      else if pollres \<noteq> 1 then Inl Assert_failed
      else if revents AND POLLERR \<noteq> 0 then Inl Assert_failed
      else if no_input revents then Inr s
      else take_message K P D s)"

section \<open>What becomes of a message\<close>

text \<open>Every event of the kernel has a bit in common with the code of a page fault.\<close>

lemma every_event_a_fault:
  "e \<in> {UFFD_EVENT_PAGEFAULT, UFFD_EVENT_FORK, UFFD_EVENT_REMAP, UFFD_EVENT_REMOVE, UFFD_EVENT_UNMAP} \<Longrightarrow>
     uffd_branch e = Page_fault"
  unfolding uffd_branch_def uffd_consts by auto

lemma no_input_iff: "no_input revents \<longleftrightarrow> revents = 0"
  by (simp add: no_input_def POLLIN_def)

text \<open>\<open>message_ready\<close>: the turn gets as far as a message.\<close>

definition message_ready :: "'k polling \<Rightarrow> uffd_msg \<Rightarrow> 'k ext \<Rightarrow> bool" where
  "message_ready D msg s \<longleftrightarrow> fst (fst (p_poll D (kst s))) = 1 \<and> snd (fst (p_poll D (kst s))) = POLLIN \<and>
     (\<exists>again. fst (p_read D (snd (p_poll D (kst s)))) = (sizeof_uffd_msg, again, msg))"

lemma handle_fault_ready:
  assumes "message_ready D msg s"
  shows "handle_fault K P D s = handle_msg K P D msg (s\<lparr>kst := snd (p_read D (snd (p_poll D (kst s))))\<rparr>)"
  using assms by (auto simp: message_ready_def handle_fault_def take_message_def no_input_iff Let_def split_beta POLLIN_def POLLERR_def sizeof_uffd_msg_def)

text \<open>A kernel that reports an event at an address where there is no descriptor.\<close>

definition events_machine :: "u8 \<Rightarrow> 'k polling" where
  "events_machine e = \<lparr>p_poll = (\<lambda>k. ((1, POLLIN), k)),
     p_read = (\<lambda>k. ((sizeof_uffd_msg, False, \<lparr>msg_event = e, msg_flags = 0, msg_address = 0x7000000010\<rparr>), k)),
     p_wake = (\<lambda>_ _ k. (True, k)), p_descriptor = (\<lambda>_. None)\<rparr>"

end
