(* ===== verification/Interleaving.thy ===== *)
theory Interleaving
  imports Machine
begin

text \<open>
  One tracked page and any number of threads that run concurrently: the flags \<open>migrating\<close>, \<open>swapped_out\<close> and \<open>in_dram\<close>, the
  address \<open>va\<close>, the queue that holds the page, \<open>handler_lock\<close> and \<open>allocator_lock\<close>, with the accesses to them in the order in
  which \<open>core.c\<close> and \<open>policies/disklinux.c\<close> make them. The steps of the threads interleave in any order. A step is one store, one
  test or one assertion of a field, an operation on a queue (which holds the mutex of the queue), or an operation on a lock. The
  remaining fields, the data and the other pages are left out. A page that has been unmapped and given back to the free pages is
  not taken for another address.
\<close>

section \<open>Control points\<close>

text \<open>
  \<open>sh_addr\<close> is the address \<open>page_boundry\<close> under which the page was entered into the index, \<open>sh_old_va t\<close> the local variable \<open>old_va\<close>
  of thread \<open>t\<close>.
\<close>

record shared =
  sh_migrating :: bool
  sh_swapped_out :: bool
  sh_in_dram :: bool
  sh_va :: u64
  sh_list :: "list_id option"
  sh_lock :: "tid option"
  sh_mapped :: bool
  sh_alloc :: "tid option"
  sh_addr :: u64
  sh_old_va :: "tid \<Rightarrow> u64"

text \<open>
  Where a thread stands that wants the page in memory, for a fault or to prefetch it. Each name says what the thread does
  next. The handler does not pass \<open>Recheck\<close>, \<open>Check_mapped\<close> and the \<open>Ack\<close> points, the prefetcher does not pass \<open>Await\<close>, the two
  \<open>read\<close> points, \<open>Check_place\<close>, \<open>Check_va\<close>, \<open>Check_zero\<close> and \<open>Check_aligned\<close>; their steps there lead on to the next point.
\<close>

datatype fetch_pc = Dispatch | Read_va | Enter | Test_migrating | Test_swapped | Recheck | Claim | Leave_claimed | Leave_waiting
  | Await | Check_mapped | Look | Detach | Start_read | Finish_read | Check_place | Ack_swapped | Ack_migrating | Ack_list | Bring
  | Settle | Check_va | Check_zero | Check_aligned | Reenter | Clear_swapped | Clear_migrating | Leave

text \<open>
  Where an eviction stands. The flag of \<open>Evict\<close> tells evictions of a page without reserve by \<open>fetch_free_asynch\<close> from the others, by
  a worker or of a page with a reserve. The worker that evicts several pages at a time starts at \<open>Mark_vector\<close>.
\<close>

datatype evict_pc = Mark | Protect | Mark_down | Protect_again | Remark | Mark_vector | Protect_vector | Check_resident | Send
  | Evict_enter | Set_swapped | Swap_out | Test_marked | Evict_leave | Check_direct | File | Check_marked | Check_swapped | Release
  | Store_swapped

text \<open>Where a thread stands that unmaps the page.\<close>

datatype unmap_pc = Enter_all | Find | Enter_page | Test_page | Leave_page | Await_page | Reenter_page | Claim_page | Release_page
  | Unindex | Mark_page | Detach_page | Forget_va | Test_place | Test_slot | Free_frame | Free_slot | Unmark_page | Leave_all

datatype pc = Idle | Fetch fetch_pc | Prefetch fetch_pc | Scan list_id | Evict bool evict_pc | Unmap unmap_pc

section \<open>The steps of one thread\<close>

text \<open>Acquiring \<open>handler_lock\<close>; a thread that finds it taken tries again.\<close>

definition take_lock :: "tid \<Rightarrow> pc \<Rightarrow> pc \<Rightarrow> shared \<Rightarrow> pc \<times> shared" where
  "take_lock t stay go s = (if sh_lock s = None then (go, s\<lparr>sh_lock := Some t\<rparr>) else (stay, s))"

text \<open>
  Adding the page to a queue. What \<open>enqueue_fifo\<close> asserts is that the page has no predecessor; adding a page that any queue holds
  counts as a failure, as it would break the links. Section ``Exclusion'' shows that this never happens.
\<close>

definition file_page :: "list_id \<Rightarrow> pc \<Rightarrow> shared \<Rightarrow> c_error + pc \<times> shared" where
  "file_page l go s = (if sh_list s = None then Inr (go, s\<lparr>sh_list := Some l\<rparr>) else Inl Assert_failed)"

text \<open>An assertion.\<close>

definition check :: "bool \<Rightarrow> pc \<Rightarrow> shared \<Rightarrow> c_error + pc \<times> shared" where
  "check b go s = (if b then Inr (go, s) else Inl Assert_failed)"

text \<open>The handler, from the point where the index has found the page: \<open>uswap_sig_handler\<close>, \<open>handle_wp_fault\<close> (\<open>Await\<close>) and
  \<open>handle_missing_fault\<close>, with \<open>lrudisk_swapin_external_async\<close> from \<open>Look\<close> to \<open>Settle\<close>.\<close>

fun fault_step :: "tid \<Rightarrow> fetch_pc \<Rightarrow> shared \<Rightarrow> c_error + pc \<times> shared" where
  "fault_step t Dispatch s = Inr (if sh_swapped_out s then Fetch Read_va else Fetch Await, s)"
| "fault_step t Read_va s = Inr (Fetch Enter, s\<lparr>sh_old_va := (sh_old_va s)(t := sh_va s)\<rparr>)"
| "fault_step t Enter s = Inr (take_lock t (Fetch Enter) (Fetch Test_migrating) s)"
| "fault_step t Test_migrating s = Inr (if sh_migrating s then Fetch Leave_waiting else Fetch Test_swapped, s)"
| "fault_step t Test_swapped s = Inr (if \<not> sh_swapped_out s then Fetch Leave_waiting else Fetch Claim, s)"
| "fault_step t Recheck s = Inr (Fetch Claim, s)"
| "fault_step t Claim s = Inr (Fetch Leave_claimed, s\<lparr>sh_migrating := True\<rparr>)"
| "fault_step t Leave_claimed s = Inr (Fetch Look, s\<lparr>sh_lock := None\<rparr>)"
| "fault_step t Leave_waiting s = Inr (Fetch Await, s\<lparr>sh_lock := None\<rparr>)"
| "fault_step t Await s = Inr (if sh_migrating s then Fetch Await else Idle, s)"
| "fault_step t Check_mapped s = Inr (Fetch Look, s)"
| "fault_step t Look s = check (sh_list s = Some Disk_active_list) (Fetch Detach) s"
| "fault_step t Detach s =
     (if sh_list s = Some Disk_active_list then Inr (Fetch Start_read, s\<lparr>sh_list := None\<rparr>) else Inl Assert_failed)"
| "fault_step t Start_read s = check (\<not> sh_in_dram s) (Fetch Finish_read) s"
| "fault_step t Finish_read s = check (\<not> sh_in_dram s) (Fetch Check_place) s"
| "fault_step t Check_place s = check (page_aligned (sh_va s)) (Fetch Bring) s"
| "fault_step t Ack_swapped s = Inr (Fetch Bring, s)"
| "fault_step t Ack_migrating s = Inr (Fetch Bring, s)"
| "fault_step t Ack_list s = Inr (Fetch Bring, s)"
| "fault_step t Bring s = Inr (Fetch Settle, s\<lparr>sh_in_dram := True\<rparr>)"
| "fault_step t Settle s = file_page Inactive_list (Fetch Check_va) s"
| "fault_step t Check_va s = check (sh_va s = sh_old_va s t) (Fetch Check_zero) s"
| "fault_step t Check_zero s = check (sh_va s \<noteq> 0) (Fetch Check_aligned) s"
| "fault_step t Check_aligned s = check (page_aligned (sh_va s)) (Fetch Reenter) s"
| "fault_step t Reenter s = Inr (take_lock t (Fetch Reenter) (Fetch Clear_swapped) s)"
| "fault_step t Clear_swapped s = Inr (Fetch Clear_migrating, s\<lparr>sh_swapped_out := False\<rparr>)"
| "fault_step t Clear_migrating s = Inr (Fetch Leave, s\<lparr>sh_migrating := False\<rparr>)"
| "fault_step t Leave s = Inr (Idle, s\<lparr>sh_lock := None\<rparr>)"

text \<open>
  The prefetcher, \<open>core_try_prefetch\<close>, with \<open>lrudisk_detach_page\<close> (\<open>Look\<close>, \<open>Detach\<close>) and \<open>lrudisk_ack_swapin\<close> (\<open>Ack_swapped\<close> to
  \<open>Bring\<close>). It gives up where the handler waits and where the address has changed, and it files the page before it sets
  \<open>in_dram\<close>.
\<close>

fun prefetch_step :: "tid \<Rightarrow> fetch_pc \<Rightarrow> shared \<Rightarrow> c_error + pc \<times> shared" where
  "prefetch_step t Dispatch s = check (sh_va s = sh_addr s) (Prefetch Read_va) s"
| "prefetch_step t Read_va s = Inr (Prefetch Enter, s\<lparr>sh_old_va := (sh_old_va s)(t := sh_va s)\<rparr>)"
| "prefetch_step t Enter s = Inr (take_lock t (Prefetch Enter) (Prefetch Test_migrating) s)"
| "prefetch_step t Test_migrating s = Inr (if sh_migrating s then Prefetch Leave_waiting else Prefetch Test_swapped, s)"
| "prefetch_step t Test_swapped s = Inr (if \<not> sh_swapped_out s then Prefetch Leave_waiting else Prefetch Recheck, s)"
| "prefetch_step t Recheck s = Inr (if sh_va s \<noteq> sh_old_va s t then Prefetch Leave_waiting else Prefetch Claim, s)"
| "prefetch_step t Claim s = Inr (Prefetch Leave_claimed, s\<lparr>sh_migrating := True\<rparr>)"
| "prefetch_step t Leave_claimed s = Inr (Prefetch Check_mapped, s\<lparr>sh_lock := None\<rparr>)"
| "prefetch_step t Leave_waiting s = Inr (Idle, s\<lparr>sh_lock := None\<rparr>)"
| "prefetch_step t Await s = Inr (Idle, s)"
| "prefetch_step t Check_mapped s = check (sh_va s \<noteq> 0) (Prefetch Look) s"
| "prefetch_step t Look s = check (sh_list s = Some Disk_active_list) (Prefetch Detach) s"
| "prefetch_step t Detach s =
     (if sh_list s = Some Disk_active_list then Inr (Prefetch Ack_swapped, s\<lparr>sh_list := None\<rparr>) else Inl Assert_failed)"
| "prefetch_step t Start_read s = Inr (Prefetch Ack_swapped, s)"
| "prefetch_step t Finish_read s = Inr (Prefetch Ack_swapped, s)"
| "prefetch_step t Check_place s = Inr (Prefetch Ack_swapped, s)"
| "prefetch_step t Ack_swapped s = check (sh_swapped_out s) (Prefetch Ack_migrating) s"
| "prefetch_step t Ack_migrating s = check (sh_migrating s) (Prefetch Ack_list) s"
| "prefetch_step t Ack_list s = check (sh_list s = None) (Prefetch Bring) s"
| "prefetch_step t Bring s = file_page Inactive_list (Prefetch Settle) s"
| "prefetch_step t Settle s = Inr (Prefetch Reenter, s\<lparr>sh_in_dram := True\<rparr>)"
| "prefetch_step t Check_va s = Inr (Prefetch Reenter, s)"
| "prefetch_step t Check_zero s = Inr (Prefetch Reenter, s)"
| "prefetch_step t Check_aligned s = Inr (Prefetch Reenter, s)"
| "prefetch_step t Reenter s = Inr (take_lock t (Prefetch Reenter) (Prefetch Clear_swapped) s)"
| "prefetch_step t Clear_swapped s = Inr (Prefetch Clear_migrating, s\<lparr>sh_swapped_out := False\<rparr>)"
| "prefetch_step t Clear_migrating s = Inr (Prefetch Leave, s\<lparr>sh_migrating := False\<rparr>)"
| "prefetch_step t Leave s = Inr (Idle, s\<lparr>sh_lock := None\<rparr>)"

text \<open>
  The eviction of a page that has been taken off the eviction queue. \<open>migrating\<close> is set by the evicting function, by
  \<open>lrudisk_migrate_down\<close> (\<open>Mark_down\<close>) and by \<open>extmem_migrate_downdisk\<close> (\<open>Remark\<close>), whose steps go on to \<open>Evict_leave\<close>; only
  \<open>fetch_free_asynch\<close> has the page protected twice. The vector worker makes the first of the three stores only, and
  \<open>extmem_migrate_downdisk_vector\<close> goes from \<open>Check_resident\<close> to \<open>Evict_leave\<close>. \<open>Protect\<close> stands for \<open>extmem_wp_page\<close>, \<open>Set_swapped\<close>
  for the assertion before the store \<open>Swap_out\<close>.
\<close>

fun evict_step :: "bool \<Rightarrow> tid \<Rightarrow> evict_pc \<Rightarrow> shared \<Rightarrow> c_error + pc \<times> shared" where
  "evict_step d t Mark s = Inr (Evict d Protect, s\<lparr>sh_migrating := True\<rparr>)"
| "evict_step d t Protect s = check (sh_va s \<noteq> 0 \<and> page_aligned (sh_va s)) (Evict d Mark_down) s"
| "evict_step d t Mark_down s = Inr (Evict d (if d then Protect_again else Remark), s\<lparr>sh_migrating := True\<rparr>)"
| "evict_step d t Protect_again s = check (sh_va s \<noteq> 0 \<and> page_aligned (sh_va s)) (Evict d Remark) s"
| "evict_step d t Remark s = Inr (Evict d Check_resident, s\<lparr>sh_migrating := True\<rparr>)"
| "evict_step d t Mark_vector s = Inr (Evict d Protect_vector, s\<lparr>sh_migrating := True\<rparr>)"
| "evict_step d t Protect_vector s = check (sh_va s \<noteq> 0 \<and> page_aligned (sh_va s)) (Evict d Check_resident) s"
| "evict_step d t Check_resident s = check (sh_in_dram s) (Evict d Send) s"
| "evict_step d t Send s = Inr (Evict d Evict_enter, s\<lparr>sh_in_dram := False\<rparr>)"
| "evict_step d t Evict_enter s = Inr (take_lock t (Evict d Evict_enter) (Evict d Set_swapped) s)"
| "evict_step d t Set_swapped s = check (\<not> sh_swapped_out s) (Evict d Swap_out) s"
| "evict_step d t Swap_out s = Inr (Evict d Test_marked, s\<lparr>sh_swapped_out := True\<rparr>)"
| "evict_step d t Test_marked s = check (sh_migrating s) (Evict d Evict_leave) s"
| "evict_step d t Evict_leave s = Inr (Evict d (if d then Check_direct else File), s\<lparr>sh_lock := None\<rparr>)"
| "evict_step d t Check_direct s = check (sh_swapped_out s) (Evict d File) s"
| "evict_step d t File s = file_page Disk_active_list (Evict d (if d then Release else Check_marked)) s"
| "evict_step d t Check_marked s = check (sh_migrating s) (Evict d Check_swapped) s"
| "evict_step d t Check_swapped s = check (sh_swapped_out s) (Evict d Release) s"
| "evict_step d t Release s = Inr (if d then Idle else Evict d Store_swapped, s\<lparr>sh_migrating := False\<rparr>)"
| "evict_step d t Store_swapped s = Inr (Idle, s\<lparr>sh_swapped_out := True\<rparr>)"

text \<open>
  \<open>extmem_munmap\<close>, from the point where it takes \<open>allocator_lock\<close>, with \<open>lrudisk_remove_page\<close> from \<open>Mark_page\<close> to
  \<open>Unmark_page\<close>. Having waited for a migration it takes the page without another look at the flag. \<open>Detach_page\<close> is one turn of
  the loop that reads the page's queue and tries to remove the page from it: a turn in between which the page has moved changes
  nothing, like one that finds no queue.
\<close>

fun unmap_step :: "tid \<Rightarrow> unmap_pc \<Rightarrow> shared \<Rightarrow> c_error + pc \<times> shared" where
  "unmap_step t Enter_all s =
     Inr (if sh_alloc s = None then (Unmap Find, s\<lparr>sh_alloc := Some t\<rparr>) else (Unmap Enter_all, s))"
| "unmap_step t Find s = Inr (if sh_mapped s then Unmap Enter_page else Unmap Leave_all, s)"
| "unmap_step t Enter_page s = Inr (take_lock t (Unmap Enter_page) (Unmap Test_page) s)"
| "unmap_step t Test_page s = Inr (if sh_migrating s then Unmap Leave_page else Unmap Claim_page, s)"
| "unmap_step t Leave_page s = Inr (Unmap Await_page, s\<lparr>sh_lock := None\<rparr>)"
| "unmap_step t Await_page s = Inr (if sh_migrating s then Unmap Await_page else Unmap Reenter_page, s)"
| "unmap_step t Reenter_page s = Inr (take_lock t (Unmap Reenter_page) (Unmap Claim_page) s)"
| "unmap_step t Claim_page s = Inr (Unmap Release_page, s\<lparr>sh_migrating := True\<rparr>)"
| "unmap_step t Release_page s = Inr (Unmap Unindex, s\<lparr>sh_lock := None\<rparr>)"
| "unmap_step t Unindex s = Inr (Unmap Mark_page, s\<lparr>sh_mapped := False\<rparr>)"
| "unmap_step t Mark_page s = Inr (Unmap Detach_page, s\<lparr>sh_migrating := True\<rparr>)"
| "unmap_step t Detach_page s =
     Inr (if sh_list s = None then (Unmap Detach_page, s) else (Unmap Forget_va, s\<lparr>sh_list := None\<rparr>))"
| "unmap_step t Forget_va s = Inr (Unmap Test_place, s\<lparr>sh_va := 0\<rparr>)"
| "unmap_step t Test_place s = Inr (if sh_in_dram s then Unmap Free_frame else Unmap Test_slot, s)"
| "unmap_step t Test_slot s = check (sh_swapped_out s) (Unmap Free_slot) s"
| "unmap_step t Free_frame s = file_page Dram_free_list (Unmap Unmark_page) s"
| "unmap_step t Free_slot s = file_page Disk_free_list (Unmap Unmark_page) s"
| "unmap_step t Unmark_page s = Inr (Unmap Leave_all, s\<lparr>sh_migrating := False\<rparr>)"
| "unmap_step t Leave_all s = Inr (Idle, s\<lparr>sh_alloc := None\<rparr>)"

text \<open>A reclaim scan puts the page that it has taken into a queue of resident pages.\<close>

fun thread_step :: "tid \<Rightarrow> pc \<Rightarrow> shared \<Rightarrow> c_error + pc \<times> shared" where
  "thread_step t Idle s = Inr (Idle, s)"
| "thread_step t (Fetch p) s = fault_step t p s"
| "thread_step t (Prefetch p) s = prefetch_step t p s"
| "thread_step t (Scan l) s = file_page l Idle s"
| "thread_step t (Evict d p) s = evict_step d t p s"
| "thread_step t (Unmap p) s = unmap_step t p s"

section \<open>Runs\<close>

record world =
  pcs :: "tid \<Rightarrow> pc"
  pg :: shared

text \<open>The queue from which a reclaim scan takes pages, and where it puts them.\<close>

fun scans :: "list_id \<Rightarrow> list_id \<Rightarrow> bool" where
  "scans Active_list l \<longleftrightarrow> l = Inactive_list"
| "scans Inactive_list l \<longleftrightarrow> l = Eviction_list \<or> l = Inactive_list \<or> l = Active_list"
| "scans _ l \<longleftrightarrow> False"

text \<open>
  A thread that is not at work on the page may take it up: a fault, when the page is not in memory or is being
  migrated and so protected, and the prefetcher, as long as the index has the page; a scan or an eviction by taking the page
  off its queue; and \<open>munmap\<close>.
\<close>

inductive starts :: "pc \<Rightarrow> shared \<Rightarrow> shared \<Rightarrow> bool" where
  faults: "sh_mapped s \<Longrightarrow> \<not> sh_in_dram s \<or> sh_migrating s \<Longrightarrow> starts (Fetch Dispatch) s s"
| unmaps: "starts (Unmap Enter_all) s s"
| prefetches: "sh_mapped s \<Longrightarrow> starts (Prefetch Dispatch) s s"
| scanned: "sh_list s = Some l \<Longrightarrow> scans l l' \<Longrightarrow> starts (Scan l') s (s\<lparr>sh_list := None\<rparr>)"
| evicts: "sh_list s = Some Eviction_list \<Longrightarrow> starts (Evict d Mark) s (s\<lparr>sh_list := None\<rparr>)"
| evicts_vector: "sh_list s = Some Eviction_list \<Longrightarrow> starts (Evict False Mark_vector) s (s\<lparr>sh_list := None\<rparr>)"

inductive step :: "world \<Rightarrow> world \<Rightarrow> bool" where
  begins: "pcs w t = Idle \<Longrightarrow> starts p (pg w) s \<Longrightarrow> step w \<lparr>pcs = (pcs w)(t := p), pg = s\<rparr>"
| goes: "thread_step t (pcs w t) (pg w) = Inr (p, s) \<Longrightarrow> step w \<lparr>pcs = (pcs w)(t := p), pg = s\<rparr>"

text \<open>A thread stops the process with a failed assertion.\<close>

definition crashes :: "world \<Rightarrow> bool" where
  "crashes w \<longleftrightarrow> (\<exists>t e. thread_step t (pcs w t) (pg w) = Inl e)"

text \<open>A page that no thread works on: the flags say where it is.\<close>

definition coherent :: "shared \<Rightarrow> bool" where
  "coherent s \<longleftrightarrow> \<not> sh_migrating s \<and>
     (sh_list s = Some Disk_active_list \<and> sh_swapped_out s \<and> \<not> sh_in_dram s \<or>
      sh_list s \<in> Some ` {Active_list, Inactive_list, Eviction_list} \<and> \<not> sh_swapped_out s \<and> sh_in_dram s)"

definition at_rest :: "world \<Rightarrow> bool" where
  "at_rest w \<longleftrightarrow> pcs w = (\<lambda>_. Idle) \<and> sh_lock (pg w) = None \<and> sh_alloc (pg w) = None"

text \<open>A page that the index has: its address is the one under which it was entered.\<close>

definition indexed :: "shared \<Rightarrow> bool" where
  "indexed s \<longleftrightarrow> sh_mapped s \<and> sh_va s = sh_addr s \<and> sh_va s \<noteq> 0 \<and> page_aligned (sh_va s)"

inductive interleaved :: "world \<Rightarrow> bool" where
  rest: "at_rest w \<Longrightarrow> coherent (pg w) \<Longrightarrow> indexed (pg w) \<Longrightarrow> interleaved w"
| steps: "interleaved w \<Longrightarrow> step w w' \<Longrightarrow> interleaved w'"

section \<open>Exclusion\<close>

text \<open>The threads that have taken the page out of its queue, those inside \<open>handler_lock\<close>, and those inside \<open>allocator_lock\<close>.\<close>

fun carrying :: "pc \<Rightarrow> bool" where
  "carrying (Fetch p) \<longleftrightarrow> p \<in> {Start_read, Finish_read, Check_place, Ack_swapped, Ack_migrating, Ack_list, Bring, Settle}"
| "carrying (Prefetch p) \<longleftrightarrow> p \<in> {Start_read, Finish_read, Check_place, Ack_swapped, Ack_migrating, Ack_list, Bring}"
| "carrying (Scan l) \<longleftrightarrow> True"
| "carrying (Evict d p) \<longleftrightarrow> p \<notin> {Check_marked, Check_swapped, Release, Store_swapped}"
| "carrying (Unmap p) \<longleftrightarrow> p \<in> {Forget_va, Test_place, Test_slot, Free_frame, Free_slot}"
| "carrying Idle \<longleftrightarrow> False"

abbreviation locked_fetch :: "fetch_pc \<Rightarrow> bool" where
  "locked_fetch p \<equiv> p \<in> {Test_migrating, Test_swapped, Recheck, Claim, Leave_claimed, Leave_waiting, Clear_swapped,
    Clear_migrating, Leave}"

fun locked :: "pc \<Rightarrow> bool" where
  "locked (Fetch p) \<longleftrightarrow> locked_fetch p"
| "locked (Prefetch p) \<longleftrightarrow> locked_fetch p"
| "locked (Evict d p) \<longleftrightarrow> p \<in> {Set_swapped, Swap_out, Test_marked, Evict_leave}"
| "locked (Unmap p) \<longleftrightarrow> p \<in> {Test_page, Leave_page, Claim_page, Release_page}"
| "locked _ \<longleftrightarrow> False"

fun allocating :: "pc \<Rightarrow> bool" where
  "allocating (Unmap p) \<longleftrightarrow> p \<noteq> Enter_all"
| "allocating _ \<longleftrightarrow> False"

definition exclusive :: "world \<Rightarrow> bool" where
  "exclusive w \<longleftrightarrow> (\<forall>t. locked (pcs w t) \<longleftrightarrow> sh_lock (pg w) = Some t) \<and> (\<forall>t. allocating (pcs w t) \<longleftrightarrow> sh_alloc (pg w) = Some t) \<and>
     (sh_list (pg w) = None \<longleftrightarrow> (\<exists>t. carrying (pcs w t))) \<and>
     (\<forall>t u. carrying (pcs w t) \<longrightarrow> carrying (pcs w u) \<longrightarrow> t = u)"

text \<open>How a step of a thread changes a lock, held while \<open>inside\<close> holds, and the queue.\<close>

definition lock_moves :: "tid \<Rightarrow> (pc \<Rightarrow> bool) \<Rightarrow> pc \<Rightarrow> pc \<Rightarrow> tid option \<Rightarrow> tid option \<Rightarrow> bool" where
  "lock_moves t inside p p' l l' \<longleftrightarrow> l' = l \<and> (inside p' \<longleftrightarrow> inside p) \<or>
     l = None \<and> l' = Some t \<and> inside p' \<or> l = Some t \<and> l' = None \<and> \<not> inside p'"

definition page_moves :: "pc \<Rightarrow> pc \<Rightarrow> shared \<Rightarrow> shared \<Rightarrow> bool" where
  "page_moves p p' s s' \<longleftrightarrow> sh_list s' = sh_list s \<and> (carrying p' \<longleftrightarrow> carrying p) \<or>
     sh_list s \<noteq> None \<and> sh_list s' = None \<and> carrying p' \<or> sh_list s = None \<and> sh_list s' \<noteq> None \<and> carrying p \<and> \<not> carrying p'"

definition moves :: "tid \<Rightarrow> pc \<Rightarrow> pc \<Rightarrow> shared \<Rightarrow> shared \<Rightarrow> bool" where
  "moves t p p' s s' \<longleftrightarrow> lock_moves t locked p p' (sh_lock s) (sh_lock s') \<and>
     lock_moves t allocating p p' (sh_alloc s) (sh_alloc s') \<and> page_moves p p' s s'"

lemmas moves_simps = check_def take_lock_def file_page_def lock_moves_def page_moves_def moves_def

lemma thread_step_moves:
  assumes "thread_step t p s = Inr (p', s')" "locked p \<longleftrightarrow> sh_lock s = Some t" "allocating p \<longleftrightarrow> sh_alloc s = Some t"
  shows "moves t p p' s s'"
proof (cases p)
  case (Fetch q)
  then show ?thesis using assms by (cases q) (auto simp: moves_simps split: if_splits)
next
  case (Prefetch q)
  then show ?thesis using assms by (cases q) (auto simp: moves_simps split: if_splits)
next
  case (Evict d q)
  then show ?thesis using assms by (cases q) (auto simp: moves_simps split: if_splits)
next
  case (Unmap q)
  then show ?thesis using assms by (cases q) (auto simp: moves_simps split: if_splits)
qed (use assms in \<open>auto simp: moves_simps split: if_splits\<close>)

lemma lock_moves_inside:
  assumes "\<And>u. inside (f u) \<longleftrightarrow> l = Some u" "lock_moves t inside (f t) p l l'"
  shows "inside ((f(t := p)) u) \<longleftrightarrow> l' = Some u"
  using assms(1) [of u] assms(1) [of t] assms(2) unfolding lock_moves_def by (cases "u = t") auto

lemma exclusive_moves:
  assumes w: "exclusive w" and m: "moves t (pcs w t) p (pg w) s"
  shows "exclusive \<lparr>pcs = (pcs w)(t := p), pg = s\<rparr>"
proof -
  have l: "locked (pcs w u) \<longleftrightarrow> sh_lock (pg w) = Some u" "allocating (pcs w u) \<longleftrightarrow> sh_alloc (pg w) = Some u" for u
    using w by (simp_all add: exclusive_def)
  have c: "sh_list (pg w) = None \<longleftrightarrow> (\<exists>u. carrying (pcs w u))" "\<And>u v. carrying (pcs w u) \<Longrightarrow> carrying (pcs w v) \<Longrightarrow> u = v"
    using w by (auto simp: exclusive_def)
  have "locked (((pcs w)(t := p)) u) \<longleftrightarrow> sh_lock s = Some u" "allocating (((pcs w)(t := p)) u) \<longleftrightarrow> sh_alloc s = Some u" for u
    using m lock_moves_inside [of locked "pcs w", OF l(1)] lock_moves_inside [of allocating "pcs w", OF l(2)] by (auto simp: moves_def)
  moreover have "(sh_list s = None \<longleftrightarrow> (\<exists>u. carrying (((pcs w)(t := p)) u))) \<and>
     (\<forall>u v. carrying (((pcs w)(t := p)) u) \<longrightarrow> carrying (((pcs w)(t := p)) v) \<longrightarrow> u = v)"
    using m [unfolded moves_def, THEN conjunct2, THEN conjunct2] unfolding page_moves_def
  proof (elim disjE conjE, goal_cases)
    case 1
    then have "carrying (((pcs w)(t := p)) u) = carrying (pcs w u)" for u by simp
    then show ?case using c 1(1) by simp
  next
    case 2
    then have "\<not> carrying (pcs w u)" for u using c(1) by simp
    then show ?case using 2 by auto
  next
    case 3
    then have "\<not> carrying (((pcs w)(t := p)) u)" for u using c(2) [of t u] by auto
    then show ?case using 3 by auto
  qed
  ultimately show ?thesis unfolding exclusive_def world.select_convs by blast
qed

lemma exclusive_step:
  assumes w: "exclusive w" and s: "step w w'"
  shows "exclusive w'"
  using s
proof cases
  case (begins t p s)
  have "\<not> locked (pcs w t)" "\<not> allocating (pcs w t)" using begins(2) by simp_all
  then have "moves t (pcs w t) p (pg w) s" using begins(2,3) by (auto simp: moves_simps elim!: starts.cases)
  then show ?thesis unfolding begins(1) by (rule exclusive_moves [OF w])
next
  case (goes t p s)
  have "locked (pcs w t) \<longleftrightarrow> sh_lock (pg w) = Some t" "allocating (pcs w t) \<longleftrightarrow> sh_alloc (pg w) = Some t"
    using w by (simp_all add: exclusive_def)
  from thread_step_moves [OF goes(2) this] show ?thesis unfolding goes(1) by (rule exclusive_moves [OF w])
qed

lemma interleaved_exclusive: "interleaved w \<Longrightarrow> exclusive w"
proof (induction rule: interleaved.induct)
  case (rest w)
  then show ?case by (auto simp: exclusive_def at_rest_def coherent_def)
qed (rule exclusive_step)


section \<open>Runs without a race\<close>

text \<open>The threads that a page is in the hands of, and what they know of it at each point.\<close>

abbreviation claimed_fetch :: "fetch_pc \<Rightarrow> bool" where
  "claimed_fetch p \<equiv> p \<in> {Leave_claimed, Check_mapped, Look, Detach, Start_read, Finish_read, Check_place, Ack_swapped,
    Ack_migrating, Ack_list, Bring, Settle, Check_va, Check_zero, Check_aligned, Reenter, Clear_swapped, Clear_migrating}"

fun claimed :: "pc \<Rightarrow> bool" where
  "claimed (Fetch p) \<longleftrightarrow> claimed_fetch p"
| "claimed (Prefetch p) \<longleftrightarrow> claimed_fetch p"
| "claimed _ \<longleftrightarrow> False"

fun active :: "pc \<Rightarrow> bool" where
  "active (Scan l) \<longleftrightarrow> True"
| "active (Evict d p) \<longleftrightarrow> True"
| "active p \<longleftrightarrow> claimed p"

text \<open>\<open>is_at s m o d l\<close>: the flags \<open>migrating\<close>, \<open>swapped_out\<close>, \<open>in_dram\<close> and the queue.\<close>

definition is_at :: "shared \<Rightarrow> bool \<Rightarrow> bool \<Rightarrow> bool \<Rightarrow> list_id option \<Rightarrow> bool" where
  "is_at s m so d l \<longleftrightarrow> sh_migrating s = m \<and> sh_swapped_out s = so \<and> sh_in_dram s = d \<and> sh_list s = l"

fun fetch_phase :: "bool \<Rightarrow> fetch_pc \<Rightarrow> shared \<Rightarrow> bool" where
  "fetch_phase f Settle s \<longleftrightarrow> (if f then is_at s True True True None else is_at s True True False (Some Inactive_list))"
| "fetch_phase f Clear_migrating s \<longleftrightarrow> is_at s True False True (Some Inactive_list)"
| "fetch_phase f p s \<longleftrightarrow>
     (p \<in> {Leave_claimed, Check_mapped, Look, Detach} \<longrightarrow> is_at s True True False (Some Disk_active_list)) \<and>
     (p \<in> {Start_read, Finish_read, Check_place, Ack_swapped, Ack_migrating, Ack_list, Bring} \<longrightarrow> is_at s True True False None) \<and>
     (p \<in> {Check_va, Check_zero, Check_aligned, Reenter, Clear_swapped} \<longrightarrow> is_at s True True True (Some Inactive_list))"

fun evict_phase :: "evict_pc \<Rightarrow> shared \<Rightarrow> bool" where
  "evict_phase Store_swapped s \<longleftrightarrow> is_at s False True False (Some Disk_active_list)"
| "evict_phase p s \<longleftrightarrow>
     (p \<in> {Mark, Mark_vector} \<longrightarrow> is_at s False False True None) \<and>
     (p \<in> {Protect, Mark_down, Protect_again, Remark, Protect_vector, Check_resident, Send} \<longrightarrow> is_at s True False True None) \<and>
     (p \<in> {Evict_enter, Set_swapped, Swap_out} \<longrightarrow> is_at s True False False None) \<and>
     (p \<in> {Test_marked, Evict_leave, Check_direct, File} \<longrightarrow> is_at s True True False None) \<and>
     (p \<in> {Check_marked, Check_swapped, Release} \<longrightarrow> is_at s True True False (Some Disk_active_list))"

fun phase :: "pc \<Rightarrow> shared \<Rightarrow> bool" where
  "phase (Fetch p) s \<longleftrightarrow> fetch_phase True p s"
| "phase (Prefetch p) s \<longleftrightarrow> fetch_phase False p s"
| "phase (Scan l) s \<longleftrightarrow> l \<in> {Active_list, Inactive_list, Eviction_list} \<and> is_at s False False True None"
| "phase (Evict d p) s \<longleftrightarrow> evict_phase p s \<and> (d \<longrightarrow> p \<noteq> Store_swapped)"
| "phase (Unmap p) s \<longleftrightarrow> True"
| "phase Idle s \<longleftrightarrow> True"

text \<open>What a thread that holds \<open>handler_lock\<close> knows from its tests.\<close>

fun tested :: "pc \<Rightarrow> shared \<Rightarrow> bool" where
  "tested (Fetch Test_swapped) s \<longleftrightarrow> (sh_swapped_out s \<longrightarrow> \<not> sh_migrating s)"
| "tested (Prefetch Test_swapped) s \<longleftrightarrow> (sh_swapped_out s \<longrightarrow> \<not> sh_migrating s)"
| "tested (Fetch Recheck) s \<longleftrightarrow> sh_swapped_out s \<and> \<not> sh_migrating s"
| "tested (Prefetch Recheck) s \<longleftrightarrow> sh_swapped_out s \<and> \<not> sh_migrating s"
| "tested (Fetch Claim) s \<longleftrightarrow> sh_swapped_out s \<and> \<not> sh_migrating s"
| "tested (Prefetch Claim) s \<longleftrightarrow> sh_swapped_out s \<and> \<not> sh_migrating s"
| "tested _ s \<longleftrightarrow> True"

lemma tested_locked: "\<not> tested p s \<Longrightarrow> locked p"
  by (cases "(p, s)" rule: tested.cases) auto

text \<open>The races: a page is taken off the inactive queue before the thread that brought it in has cleared its flags; a
  page is claimed between the last two stores of an eviction; a page is unmapped while others may work on it.\<close>

fun unsettled :: "pc \<Rightarrow> bool" where
  "unsettled (Fetch p) \<longleftrightarrow> p \<in> {Check_va, Check_zero, Check_aligned, Reenter, Clear_swapped, Clear_migrating}"
| "unsettled (Prefetch p) \<longleftrightarrow> p \<in> {Settle, Check_va, Check_zero, Check_aligned, Reenter, Clear_swapped, Clear_migrating}"
| "unsettled _ \<longleftrightarrow> False"

fun unmapping :: "pc \<Rightarrow> bool" where
  "unmapping (Unmap p) \<longleftrightarrow> True"
| "unmapping _ \<longleftrightarrow> False"

definition raced :: "world \<Rightarrow> bool" where
  "raced w \<longleftrightarrow> (\<exists>t. unsettled (pcs w t) \<and> sh_list (pg w) \<noteq> Some Inactive_list) \<or>
     (\<exists>t u. pcs w t = Evict False Store_swapped \<and> claimed (pcs w u)) \<or> (\<exists>t. unmapping (pcs w t))"

definition owned :: "world \<Rightarrow> bool" where
  "owned w \<longleftrightarrow> (\<forall>t. active (pcs w t) \<longrightarrow> phase (pcs w t) (pg w) \<and> (\<forall>u. active (pcs w u) \<longrightarrow> u = t)) \<and>
     ((\<forall>t. \<not> active (pcs w t)) \<longrightarrow> coherent (pg w)) \<and> (\<forall>t. tested (pcs w t) (pg w))"

lemmas step_simps = check_def take_lock_def file_page_def is_at_def coherent_def

lemma active_step:
  assumes "thread_step t p s = Inr (p', s')" "active p" "phase p s"
  shows "(if active p' then phase p' s' else coherent s') \<and> tested p' s'"
proof (cases p)
  case (Fetch q)
  then show ?thesis using assms by (cases q) (auto simp: step_simps split: if_splits)
next
  case (Prefetch q)
  then show ?thesis using assms by (cases q) (auto simp: step_simps split: if_splits)
next
  case (Evict d q)
  then show ?thesis using assms by (cases q) (auto simp: step_simps split: if_splits)
qed (use assms in \<open>auto simp: step_simps split: if_splits\<close>)

text \<open>An active thread outside \<open>handler_lock\<close> does not disturb what a thread inside has tested.\<close>

lemma active_flags:
  assumes "thread_step t p s = Inr (p', s')" "active p" "phase p s" "\<not> locked p"
  shows "sh_swapped_out s' = sh_swapped_out s" "sh_swapped_out s \<Longrightarrow> sh_migrating s' \<Longrightarrow> sh_migrating s"
proof -
  have "sh_swapped_out s' = sh_swapped_out s \<and> (sh_swapped_out s \<longrightarrow> sh_migrating s' \<longrightarrow> sh_migrating s)"
  proof (cases p)
    case (Fetch q)
    then show ?thesis using assms by (cases q) (auto simp: step_simps split: if_splits)
  next
    case (Prefetch q)
    then show ?thesis using assms by (cases q) (auto simp: step_simps split: if_splits)
  next
    case (Evict d q)
    then show ?thesis using assms by (cases q) (auto simp: step_simps split: if_splits)
  qed (use assms in \<open>auto simp: step_simps split: if_splits\<close>)
  then show "sh_swapped_out s' = sh_swapped_out s" "sh_swapped_out s \<Longrightarrow> sh_migrating s' \<Longrightarrow> sh_migrating s" by auto
qed

lemma tested_mono:
  assumes "tested q s" "sh_swapped_out s' = sh_swapped_out s" "sh_swapped_out s \<Longrightarrow> sh_migrating s' \<Longrightarrow> sh_migrating s"
  shows "tested q s'"
  using assms by (cases "(q, s)" rule: tested.cases) auto

lemma passive_step:
  assumes "thread_step t p s = Inr (p', s')" "\<not> active p" "tested p s" "\<not> unmapping p"
  shows "is_at s' (sh_migrating s) (sh_swapped_out s) (sh_in_dram s) (sh_list s) \<and> \<not> active p' \<and> tested p' s' \<or>
    locked p \<and> sh_swapped_out s \<and> \<not> sh_migrating s \<and> p' \<in> {Fetch Leave_claimed, Prefetch Leave_claimed} \<and> is_at s' True True (sh_in_dram s) (sh_list s)"
proof (cases p)
  case (Fetch q)
  then show ?thesis using assms by (cases q) (auto simp: step_simps split: if_splits)
next
  case (Prefetch q)
  then show ?thesis using assms by (cases q) (auto simp: step_simps split: if_splits)
qed (use assms in \<open>auto simp: is_at_def\<close>)

text \<open>As long as nobody unmaps the page its address stays, and so does what a thread has read of it.\<close>

fun noted :: "pc \<Rightarrow> bool" where
  "noted (Fetch p) \<longleftrightarrow> p \<notin> {Dispatch, Read_va, Await}"
| "noted (Prefetch p) \<longleftrightarrow> p \<notin> {Dispatch, Read_va, Await}"
| "noted _ \<longleftrightarrow> False"

definition homed :: "world \<Rightarrow> bool" where
  "homed w \<longleftrightarrow> indexed (pg w) \<and> (\<forall>t. noted (pcs w t) \<longrightarrow> sh_old_va (pg w) t = sh_va (pg w))"

lemma step_va:
  assumes "thread_step t p s = Inr (p', s')" "\<not> unmapping p"
  shows "sh_mapped s' = sh_mapped s \<and> sh_va s' = sh_va s \<and> sh_addr s' = sh_addr s \<and>
    (\<forall>u. u \<noteq> t \<longrightarrow> sh_old_va s' u = sh_old_va s u) \<and>
    (noted p' \<longrightarrow> sh_old_va s' t = sh_va s \<or> noted p \<and> sh_old_va s' t = sh_old_va s t)"
proof (cases p)
  case (Fetch q)
  then show ?thesis using assms by (cases q) (auto simp: step_simps split: if_splits)
next
  case (Prefetch q)
  then show ?thesis using assms by (cases q) (auto simp: step_simps split: if_splits)
next
  case (Evict d q)
  then show ?thesis using assms by (cases q) (auto simp: step_simps split: if_splits)
qed (use assms in \<open>auto simp: step_simps split: if_splits\<close>)

lemma homed_step:
  assumes h: "homed w" and s: "step w w'" and r: "\<not> raced w"
  shows "homed w'"
  using s
proof cases
  case (begins t p s)
  then have "\<not> noted p \<and> indexed s = indexed (pg w) \<and> sh_va s = sh_va (pg w) \<and> sh_old_va s = sh_old_va (pg w)"
    by (auto elim!: starts.cases simp: indexed_def)
  then show ?thesis using h begins by (auto simp: homed_def)
next
  case (goes t p s)
  have "\<not> unmapping (pcs w t)" using r by (auto simp: raced_def)
  from step_va [OF goes(2) this] h show ?thesis unfolding goes(1) homed_def indexed_def by auto
qed

lemma active_runs:
  assumes "active p" "phase p s" "indexed s" "noted p \<Longrightarrow> sh_old_va s t = sh_va s"
  shows "thread_step t p s \<noteq> Inl e"
proof (cases p)
  case (Fetch q)
  then show ?thesis using assms by (cases q) (auto simp: step_simps indexed_def)
next
  case (Prefetch q)
  then show ?thesis using assms by (cases q) (auto simp: step_simps indexed_def)
next
  case (Evict d q)
  then show ?thesis using assms by (cases q) (auto simp: step_simps indexed_def)
qed (use assms in \<open>auto simp: step_simps\<close>)

lemma passive_runs: "\<not> active p \<Longrightarrow> \<not> unmapping p \<Longrightarrow> indexed s \<Longrightarrow> thread_step t p s \<noteq> Inl e"
proof (cases p)
  case (Fetch q)
  then show "\<not> active p \<Longrightarrow> ?thesis" by (cases q) auto
next
  case (Prefetch q)
  then show "\<not> active p \<Longrightarrow> indexed s \<Longrightarrow> ?thesis" by (cases q) (auto simp: check_def indexed_def)
qed auto

lemma owned_runs:
  assumes "owned w" "homed w" "\<not> raced w"
  shows "\<not> crashes w"
proof -
  have "thread_step t (pcs w t) (pg w) \<noteq> Inl e" for t e
  proof (cases "active (pcs w t)")
    case True
    then show ?thesis using assms(1,2) active_runs [of "pcs w t" "pg w" t e] unfolding owned_def homed_def by blast
  next
    case False
    then show ?thesis using assms(2,3) passive_runs [of "pcs w t" "pg w" t e] unfolding raced_def homed_def by blast
  qed
  then show ?thesis by (auto simp: crashes_def)
qed

text \<open>The queue of a page in somebody's hands.\<close>

lemma phase_list:
  assumes "active p" "phase p s" "sh_list s = Some l"
  shows "l = Disk_active_list \<or> l = Inactive_list \<and> unsettled p"
proof (cases p)
  case (Fetch q)
  then show ?thesis using assms by (cases q) (auto simp: step_simps)
next
  case (Prefetch q)
  then show ?thesis using assms by (cases q) (auto simp: step_simps)
next
  case (Evict d q)
  then show ?thesis using assms by (cases q) (auto simp: step_simps)
qed (use assms in \<open>auto simp: step_simps\<close>)

lemma phase_claimable:
  assumes "active p" "phase p s" "sh_swapped_out s" "\<not> sh_migrating s"
  shows "p = Evict False Store_swapped"
proof (cases p)
  case (Fetch q)
  then show ?thesis using assms by (cases q) (auto simp: step_simps)
next
  case (Prefetch q)
  then show ?thesis using assms by (cases q) (auto simp: step_simps)
next
  case (Evict d q)
  then show ?thesis using assms by (cases q) (auto simp: step_simps)
qed (use assms in \<open>auto simp: step_simps\<close>)

lemma phase_same:
  assumes "is_at s' (sh_migrating s) (sh_swapped_out s) (sh_in_dram s) (sh_list s)"
  shows "phase p s' = phase p s" "coherent s' = coherent s" "tested p s' = tested p s"
proof -
  have f: "is_at s' m so d l = is_at s m so d l" for m so d l using assms by (auto simp: is_at_def)
  have "fetch_phase b q s' = fetch_phase b q s" "evict_phase r s' = evict_phase r s" for b q r
    by (cases q; simp add: f) (cases r; simp add: f)
  then show "phase p s' = phase p s" by (cases p) (simp_all add: f)
  show "coherent s' = coherent s" using assms by (simp add: coherent_def is_at_def)
  show "tested p s' = tested p s" using assms by (cases "(p, s)" rule: tested.cases) (simp_all add: is_at_def)
qed

lemma untested: "\<not> locked p \<Longrightarrow> tested p s"
  using tested_locked by blast

lemma owned_updI:
  assumes "tested p s" "\<And>v. v \<noteq> t \<Longrightarrow> tested (pcs w v) s"
    and "active p \<Longrightarrow> phase p s" "\<And>v. active p \<Longrightarrow> v \<noteq> t \<Longrightarrow> \<not> active (pcs w v)"
    and "\<And>v. \<not> active p \<Longrightarrow> v \<noteq> t \<Longrightarrow> active (pcs w v) \<Longrightarrow> phase (pcs w v) s"
    and "\<And>u v. \<not> active p \<Longrightarrow> u \<noteq> t \<Longrightarrow> v \<noteq> t \<Longrightarrow> active (pcs w u) \<Longrightarrow> active (pcs w v) \<Longrightarrow> u = v"
    and "\<not> active p \<Longrightarrow> (\<And>v. v \<noteq> t \<Longrightarrow> \<not> active (pcs w v)) \<Longrightarrow> coherent s"
  shows "owned \<lparr>pcs = (pcs w)(t := p), pg = s\<rparr>"
  unfolding owned_def world.select_convs
proof (intro conjI allI impI)
  fix v assume v: "active (((pcs w)(t := p)) v)"
  show "phase (((pcs w)(t := p)) v) s" using assms(3) assms(4,5) [of v] v by (cases "v = t"; cases "active p") auto
  fix u assume u: "active (((pcs w)(t := p)) u)"
  show "u = v" using assms(4) [of u] assms(4) [of v] assms(6) [of u v] u v by (cases "u = t"; cases "v = t"; cases "active p") auto
next
  assume n: "\<forall>v. \<not> active (((pcs w)(t := p)) v)"
  have "\<not> active p" using spec [OF n, of t] by simp
  moreover have "\<not> active (pcs w v)" if "v \<noteq> t" for v using spec [OF n, of v] that by simp
  ultimately show "coherent s" by (rule assms(7))
next
  fix v show "tested (((pcs w)(t := p)) v) s" using assms(1,2) by simp
qed

lemma ownedD:
  assumes "owned w"
  shows "active (pcs w t) \<Longrightarrow> phase (pcs w t) (pg w)" "active (pcs w t) \<Longrightarrow> active (pcs w u) \<Longrightarrow> u = t"
    "(\<And>t. \<not> active (pcs w t)) \<Longrightarrow> coherent (pg w)" "tested (pcs w t) (pg w)"
  using assms unfolding owned_def by blast+

lemma owned_active:
  assumes x: "exclusive w" and o: "owned w" and g: "thread_step t (pcs w t) (pg w) = Inr (p, s)" and a: "active (pcs w t)"
  shows "owned \<lparr>pcs = (pcs w)(t := p), pg = s\<rparr>"
proof -
  have u: "\<not> active (pcs w u)" if "u \<noteq> t" for u using ownedD(2) [OF o a] that by blast
  have ph: "phase (pcs w t) (pg w)" by (rule ownedD(1) [OF o a])
  note n = active_step [OF g a ph]
  have "tested (pcs w v) s" if "v \<noteq> t" for v
  proof (cases "locked (pcs w v)")
    case True
    then have "\<not> locked (pcs w t)" using x that unfolding exclusive_def by auto
    then show ?thesis by (intro tested_mono [OF ownedD(4) [OF o]] active_flags [OF g a ph])
  qed (rule untested)
  then show ?thesis using n u by (intro owned_updI) (auto split: if_splits)
qed

lemma owned_passive:
  assumes x: "exclusive w" and o: "owned w" and g: "thread_step t (pcs w t) (pg w) = Inr (p, s)" and a: "\<not> active (pcs w t)"
    and r: "\<not> raced w" "\<not> raced \<lparr>pcs = (pcs w)(t := p), pg = s\<rparr>"
  shows "owned \<lparr>pcs = (pcs w)(t := p), pg = s\<rparr>"
proof -
  have tt: "tested (pcs w u) (pg w)" for u using ownedD [OF o] by blast
  have um: "\<not> unmapping (pcs w t)" using r(1) by (auto simp: raced_def)
  consider (same) "is_at s (sh_migrating (pg w)) (sh_swapped_out (pg w)) (sh_in_dram (pg w)) (sh_list (pg w))" "\<not> active p" "tested p s"
    | (claim) "locked (pcs w t)" "sh_swapped_out (pg w)" "\<not> sh_migrating (pg w)" "p \<in> {Fetch Leave_claimed, Prefetch Leave_claimed}"
      "is_at s True True (sh_in_dram (pg w)) (sh_list (pg w))"
    using passive_step [OF g a tt um] by blast
  then show ?thesis
  proof cases
    case same
    note [simp] = phase_same [OF same(1)]
    show ?thesis
    proof (rule owned_updI)
      assume nv: "\<And>v. v \<noteq> t \<Longrightarrow> \<not> active (pcs w v)"
      have "\<not> active (pcs w v)" for v using nv [of v] a by (cases "v = t") simp_all
      then show "coherent s" using ownedD(3) [OF o] by simp
    qed (use same(2,3) ownedD(1,2,4) [OF o] in simp_all)
  next
    case claim
    have n: "\<not> active (pcs w u)" for u
    proof
      assume u: "active (pcs w u)"
      then have "phase (pcs w u) (pg w)" using ownedD [OF o] by blast
      then have "pcs w u = Evict False Store_swapped" "u \<noteq> t" using phase_claimable [OF u _ claim(2,3)] u a by auto
      moreover have "claimed p" using claim(4) by auto
      ultimately have "raced \<lparr>pcs = (pcs w)(t := p), pg = s\<rparr>" unfolding raced_def
        by (intro disjI2 disjI1 exI [of _ u] exI [of _ t]) simp
      with r(2) show False by simp
    qed
    then have "coherent (pg w)" using ownedD [OF o] by blast
    then have "phase p s" "tested p s" using claim by (auto simp: coherent_def is_at_def)
    moreover have "tested (pcs w v) s" if "v \<noteq> t" for v
      by (rule untested) (use x claim(1) that in \<open>auto simp: exclusive_def\<close>)
    moreover have "active p" using claim(4) by auto
    ultimately show ?thesis using n by (intro owned_updI) simp_all
  qed
qed

lemma owned_begins:
  assumes o: "owned w" and i: "pcs w t = Idle" and b: "starts p (pg w) s" and r: "\<not> raced \<lparr>pcs = (pcs w)(t := p), pg = s\<rparr>"
  shows "owned \<lparr>pcs = (pcs w)(t := p), pg = s\<rparr>"
proof -
  have n: "\<not> active (pcs w u)" if l: "sh_list (pg w) = Some l" "l \<noteq> Disk_active_list" "sh_list s = None" for l u
  proof
    assume u: "active (pcs w u)"
    then have "phase (pcs w u) (pg w)" using ownedD [OF o] by blast
    then have "unsettled (pcs w u)" "u \<noteq> t" using phase_list [OF u _ l(1)] l(2) u i by auto
    then have "raced \<lparr>pcs = (pcs w)(t := p), pg = s\<rparr>" unfolding raced_def
      by (intro disjI1 exI [of _ u]) (simp add: l(3))
    with r show False by simp
  qed
  have taken: ?thesis if l: "sh_list (pg w) = Some l" "l \<in> {Active_list, Inactive_list, Eviction_list}" "s = pg w\<lparr>sh_list := None\<rparr>"
    "active p" "phase p (pg w\<lparr>sh_list := None\<rparr>) \<longleftrightarrow> is_at (pg w\<lparr>sh_list := None\<rparr>) False False True None" for l
  proof -
    have na: "\<not> active (pcs w u)" for u by (rule n [OF l(1)]) (use l(2,3) in auto)
    then have "coherent (pg w)" using ownedD [OF o] by blast
    then have "phase p s" using l by (auto simp: coherent_def is_at_def)
    moreover have "tested q s \<longleftrightarrow> tested q (pg w)" for q unfolding l(3) by (cases "(q, pg w)" rule: tested.cases) simp_all
    moreover have "tested p s" by (rule untested) (use l(4) b in \<open>auto elim: starts.cases\<close>)
    ultimately show ?thesis using na l(4) ownedD(4) [OF o] by (intro owned_updI) simp_all
  qed
  have idle_start: ?thesis if "s = pg w" "\<not> active p" "tested p s"
  proof (rule owned_updI)
    assume nv: "\<And>v. v \<noteq> t \<Longrightarrow> \<not> active (pcs w v)"
    have "\<not> active (pcs w v)" for v using nv [of v] i by (cases "v = t") simp_all
    then show "coherent s" using ownedD(3) [OF o] that(1) by simp
  qed (use that ownedD(1,2,4) [OF o] in simp_all)
  from b show ?thesis
  proof cases
    case faults
    show ?thesis by (rule idle_start) (use faults in auto)
  next
    case unmaps
    then have "raced \<lparr>pcs = (pcs w)(t := p), pg = s\<rparr>" unfolding raced_def
      by (intro disjI2 exI [of _ t]) simp
    with r show ?thesis by simp
  next
    case prefetches
    show ?thesis by (rule idle_start) (use prefetches in auto)
  next
    case (scanned l l')
    show ?thesis by (rule taken [OF scanned(3)]) (use scanned in \<open>cases l; auto\<close>)+
  next
    case evicts
    show ?thesis by (rule taken [OF evicts(3)]) (use evicts in auto)
  next
    case evicts_vector
    show ?thesis by (rule taken [OF evicts_vector(3)]) (use evicts_vector in auto)
  qed
qed

text \<open>The states that are reached without a race.\<close>

inductive unraced :: "world \<Rightarrow> bool" where
  rest: "at_rest w \<Longrightarrow> coherent (pg w) \<Longrightarrow> indexed (pg w) \<Longrightarrow> unraced w"
| steps: "unraced w \<Longrightarrow> step w w' \<Longrightarrow> \<not> raced w' \<Longrightarrow> unraced w'"

lemma unraced_not_raced: "unraced w \<Longrightarrow> \<not> raced w"
  by (induction rule: unraced.induct) (auto simp: at_rest_def raced_def)

lemma unraced_homed: "unraced w \<Longrightarrow> homed w"
proof (induction rule: unraced.induct)
  case (rest w)
  then show ?case by (simp add: homed_def at_rest_def)
next
  case (steps w w')
  then show ?case using homed_step [of w w'] unraced_not_raced [of w] by simp
qed

lemma unraced_owned: "unraced w \<Longrightarrow> exclusive w \<and> owned w"
proof (induction rule: unraced.induct)
  case (rest w)
  then show ?case using interleaved_exclusive [OF interleaved.rest [OF rest]] by (auto simp: owned_def at_rest_def)
next
  case (steps w w')
  have "owned w'" using steps(2)
  proof cases
    case (begins t p s)
    then show ?thesis using owned_begins [of w t p s] steps by simp
  next
    case (goes t p s)
    then show ?thesis using owned_active [of w t p s] owned_passive [of w t p s] steps unraced_not_raced [OF steps(1)] by blast
  qed
  then show ?case using exclusive_step steps by blast
qed

lemma unraced_interleaved: "unraced w \<Longrightarrow> interleaved w"
  by (induction rule: unraced.induct) (auto intro: interleaved.intros)

lemma unraced_safe:
  assumes "unraced w"
  shows "\<not> crashes w" "at_rest w \<Longrightarrow> coherent (pg w)"
proof -
  have o: "owned w" using unraced_owned [OF assms] by simp
  show "\<not> crashes w" by (rule owned_runs [OF o unraced_homed [OF assms] unraced_not_raced [OF assms]])
  show "coherent (pg w)" if "at_rest w" using o that by (simp add: owned_def at_rest_def)
qed


section \<open>A way back to rest\<close>

text \<open>An upper bound on the steps that a thread still takes, the waiting left out.\<close>

fun fetch_work :: "fetch_pc \<Rightarrow> nat" where
  "fetch_work Dispatch = 28"
| "fetch_work Read_va = 27"
| "fetch_work Enter = 26"
| "fetch_work Test_migrating = 25"
| "fetch_work Test_swapped = 24"
| "fetch_work Recheck = 23"
| "fetch_work Claim = 22"
| "fetch_work Leave_claimed = 21"
| "fetch_work Check_mapped = 20"
| "fetch_work Look = 19"
| "fetch_work Detach = 18"
| "fetch_work Start_read = 17"
| "fetch_work Finish_read = 16"
| "fetch_work Check_place = 15"
| "fetch_work Ack_swapped = 14"
| "fetch_work Ack_migrating = 13"
| "fetch_work Ack_list = 12"
| "fetch_work Bring = 11"
| "fetch_work Settle = 10"
| "fetch_work Check_va = 9"
| "fetch_work Check_zero = 8"
| "fetch_work Check_aligned = 7"
| "fetch_work Reenter = 6"
| "fetch_work Clear_swapped = 5"
| "fetch_work Clear_migrating = 4"
| "fetch_work Leave = 3"
| "fetch_work Leave_waiting = 2"
| "fetch_work Await = 1"

fun evict_work :: "evict_pc \<Rightarrow> nat" where
  "evict_work Mark = 20"
| "evict_work Protect = 19"
| "evict_work Mark_down = 18"
| "evict_work Protect_again = 17"
| "evict_work Remark = 16"
| "evict_work Mark_vector = 15"
| "evict_work Protect_vector = 14"
| "evict_work Check_resident = 13"
| "evict_work Send = 12"
| "evict_work Evict_enter = 11"
| "evict_work Set_swapped = 10"
| "evict_work Swap_out = 9"
| "evict_work Test_marked = 8"
| "evict_work Evict_leave = 7"
| "evict_work Check_direct = 6"
| "evict_work File = 5"
| "evict_work Check_marked = 4"
| "evict_work Check_swapped = 3"
| "evict_work Release = 2"
| "evict_work Store_swapped = 1"

fun work :: "pc \<Rightarrow> nat" where
  "work Idle = 0"
| "work (Fetch p) = fetch_work p"
| "work (Prefetch p) = fetch_work p"
| "work (Scan l) = 1"
| "work (Evict d p) = evict_work p"
| "work (Unmap p) = 0"

definition workers :: "world \<Rightarrow> tid set" where
  "workers w = {t. pcs w t \<noteq> Idle}"

definition work_left :: "world \<Rightarrow> nat" where
  "work_left w = (\<Sum>t\<in>workers w. work (pcs w t))"

lemma work_step:
  assumes "thread_step t p s = Inr (p', s')" "p \<noteq> Idle" "locked p \<or> sh_lock s = None" "p = Fetch Await \<Longrightarrow> \<not> sh_migrating s" "\<not> unmapping p"
  shows "work p' < work p"
proof (cases p)
  case (Fetch q)
  then show ?thesis using assms by (cases q) (auto simp: step_simps split: if_splits)
next
  case (Prefetch q)
  then show ?thesis using assms by (cases q) (auto simp: step_simps split: if_splits)
next
  case (Evict d q)
  then show ?thesis using assms by (cases q) (auto simp: step_simps split: if_splits)
qed (use assms in \<open>auto simp: step_simps split: if_splits\<close>)

lemma work_left_less:
  assumes f: "finite (workers w)" and p: "work p < work (pcs w t)"
  shows "work_left \<lparr>pcs = (pcs w)(t := p), pg = s\<rparr> < work_left w"
proof -
  let ?w = "\<lparr>pcs = (pcs w)(t := p), pg = s\<rparr>"
  have t: "t \<in> workers w" using p by (auto simp: workers_def)
  have "workers ?w \<subseteq> workers w" using t by (auto simp: workers_def split: if_splits)
  then have "work_left ?w = (\<Sum>u\<in>workers w. work (pcs ?w u))" unfolding work_left_def
    using f by (intro sum.mono_neutral_left) (auto simp: workers_def)
  also have "\<dots> < work_left w" unfolding work_left_def
    using f p t by (intro sum_strict_mono_ex1) auto
  finally show ?thesis .
qed

lemma unraced_workers: "unraced w \<Longrightarrow> finite (workers w)"
proof (induction rule: unraced.induct)
  case (rest w)
  then show ?case by (simp add: at_rest_def workers_def)
next
  case (steps w w')
  have "\<exists>t p s. w' = \<lparr>pcs = (pcs w)(t := p), pg = s\<rparr>" using steps(2) by cases blast+
  then obtain t p s where "w' = \<lparr>pcs = (pcs w)(t := p), pg = s\<rparr>" by blast
  then have "workers w' \<subseteq> insert t (workers w)" by (auto simp: workers_def split: if_splits)
  then show ?case using steps by (auto intro: finite_subset)
qed

lemma unsettled_claimed: "unsettled p \<Longrightarrow> claimed p"
  by (cases p) auto

lemma claimed_active: "claimed p \<Longrightarrow> active p"
  by (cases p) auto

lemma unsettled_list: "unsettled p \<Longrightarrow> phase p s \<Longrightarrow> sh_list s = Some Inactive_list"
proof (cases p)
  case (Fetch q)
  then show "unsettled p \<Longrightarrow> phase p s \<Longrightarrow> ?thesis" by (cases q) (auto simp: is_at_def)
next
  case (Prefetch q)
  then show "unsettled p \<Longrightarrow> phase p s \<Longrightarrow> ?thesis" by (cases q) (auto simp: is_at_def)
qed auto

lemma unmapping_step: "thread_step t p s = Inr (p', s') \<Longrightarrow> unmapping p' \<Longrightarrow> unmapping p"
proof (cases p)
  case (Fetch q)
  then show "thread_step t p s = Inr (p', s') \<Longrightarrow> unmapping p' \<Longrightarrow> ?thesis" by (cases q) (auto simp: step_simps split: if_splits)
next
  case (Prefetch q)
  then show "thread_step t p s = Inr (p', s') \<Longrightarrow> unmapping p' \<Longrightarrow> ?thesis" by (cases q) (auto simp: step_simps split: if_splits)
next
  case (Evict d q)
  then show "thread_step t p s = Inr (p', s') \<Longrightarrow> unmapping p' \<Longrightarrow> ?thesis" by (cases q) (auto simp: step_simps split: if_splits)
qed (auto simp: step_simps split: if_splits)

lemma raced_step:
  assumes o: "owned w" and r: "\<not> raced w" and n: "\<And>u. pcs w u \<noteq> Evict False Store_swapped"
    and g: "thread_step t (pcs w t) (pg w) = Inr (p, s)"
  shows "\<not> raced \<lparr>pcs = (pcs w)(t := p), pg = s\<rparr>"
proof
  have um: "\<not> unmapping (pcs w v)" for v using r by (auto simp: raced_def)
  assume "raced \<lparr>pcs = (pcs w)(t := p), pg = s\<rparr>"
  then consider (list) v where "unsettled (((pcs w)(t := p)) v)" "sh_list s \<noteq> Some Inactive_list"
    | (last) v u where "((pcs w)(t := p)) v = Evict False Store_swapped" "claimed (((pcs w)(t := p)) u)"
    | (unmap) v where "unmapping (((pcs w)(t := p)) v)"
    unfolding raced_def world.select_convs by blast
  then show False
  proof cases
    case list
    show False
    proof (cases "active (pcs w t)")
      case True
      have "v = t"
      proof (rule ccontr)
        assume "v \<noteq> t"
        then have "active (pcs w v)" using list(1) unsettled_claimed claimed_active by simp
        with \<open>v \<noteq> t\<close> show False using ownedD(2) [OF o True] by blast
      qed
      then have "unsettled p" using list(1) by simp
      moreover have "phase p s" using active_step [OF g True ownedD(1) [OF o True]] unsettled_claimed [OF \<open>unsettled p\<close>] claimed_active by auto
      ultimately show False using unsettled_list list(2) by blast
    next
      case False
      from passive_step [OF g False ownedD(4) [OF o] um]
      have "sh_list s = sh_list (pg w)" "\<not> unsettled p" using unsettled_claimed claimed_active by (auto simp: is_at_def)
      then have "unsettled (pcs w v)" using list(1) by (auto split: if_splits)
      then show False using r list(2) \<open>sh_list s = sh_list (pg w)\<close> unfolding raced_def by auto
    qed
  next
    case last
    then have p: "p = Evict False Store_swapped" "v = t" using n by (auto split: if_splits)
    then have u: "u \<noteq> t" "active (pcs w u)" using last(2) claimed_active by (auto split: if_splits)
    have "active (pcs w t)"
    proof (rule ccontr)
      assume "\<not> active (pcs w t)"
      from passive_step [OF g this ownedD(4) [OF o] um] show False unfolding p by auto
    qed
    then show False using ownedD(2) [OF o] u by blast
  next
    case unmap
    then show False using um unmapping_step [OF g] by (cases "v = t") auto
  qed
qed

lemma last_store_step:
  assumes o: "owned w" and r: "\<not> raced w" and t: "pcs w t = Evict False Store_swapped"
  shows "\<not> raced \<lparr>pcs = (pcs w)(t := Idle), pg = s\<rparr>"
proof -
  have "\<not> active (pcs w u)" if "u \<noteq> t" for u using ownedD(2) [OF o, of t u] t that by auto
  then have "\<not> active (((pcs w)(t := Idle)) u)" for u by simp
  then have "\<not> claimed (((pcs w)(t := Idle)) u)" for u using claimed_active by blast
  moreover from this have "\<not> unsettled (((pcs w)(t := Idle)) u)" for u using unsettled_claimed by blast
  moreover have "\<not> unmapping (((pcs w)(t := Idle)) u)" for u using r by (auto simp: raced_def)
  ultimately show ?thesis unfolding raced_def world.select_convs by blast
qed

lemma unraced_steps_down:
  assumes u: "unraced w" and n: "\<not> at_rest w"
  shows "\<exists>w'. step w w' \<and> \<not> raced w' \<and> work_left w' < work_left w"
proof -
  have x: "exclusive w" and o: "owned w" using unraced_owned [OF u] by auto
  note f = unraced_workers [OF u] and r = unraced_not_raced [OF u]
  have um: "\<not> unmapping (pcs w t)" for t using r by (auto simp: raced_def)
  have lock: "locked (pcs w t) \<longleftrightarrow> sh_lock (pg w) = Some t" for t using x by (simp add: exclusive_def)
  have "\<not> allocating (pcs w t)" for t using um [of t] by (cases "pcs w t") auto
  then have alloc: "sh_alloc (pg w) = None" using x by (cases "sh_alloc (pg w)") (auto simp: exclusive_def)
  show ?thesis
  proof (cases "\<exists>t. pcs w t = Evict False Store_swapped")
    case True
    then obtain t where t: "pcs w t = Evict False Store_swapped" by blast
    then show ?thesis
      using step.goes [of t w Idle "(pg w)\<lparr>sh_swapped_out := True\<rparr>"] last_store_step [OF o r t] work_left_less [OF f, of Idle t]
      by (intro exI conjI) simp_all
  next
    case False
    then have none: "pcs w v \<noteq> Evict False Store_swapped" for v by blast
    have down: ?thesis if t: "pcs w t \<noteq> Idle" "locked (pcs w t) \<or> sh_lock (pg w) = None"
      "pcs w t = Fetch Await \<Longrightarrow> \<not> sh_migrating (pg w)" for t
    proof -
      have "\<not> crashes w" by (rule owned_runs [OF o unraced_homed [OF u] r])
      then obtain p s where g: "thread_step t (pcs w t) (pg w) = Inr (p, s)"
        unfolding crashes_def by (cases "thread_step t (pcs w t) (pg w)") auto
      from step.goes [OF g] raced_step [OF o r none g] work_left_less [OF f work_step [OF g t um]]
      show ?thesis by blast
    qed
    show ?thesis
    proof (cases "sh_lock (pg w)")
      case (Some t)
      then have "locked (pcs w t)" using lock by simp
      then show ?thesis by (intro down [of t]) auto
    next
      case free: None
      show ?thesis
      proof (cases "\<exists>t. active (pcs w t)")
        case True
        then obtain t where "active (pcs w t)" by blast
        then show ?thesis using free by (intro down [of t]) auto
      next
        case False
        then have "\<not> sh_migrating (pg w)" using ownedD(3) [OF o] by (auto simp: coherent_def)
        moreover obtain t where "pcs w t \<noteq> Idle" using n free alloc by (auto simp: at_rest_def fun_eq_iff)
        ultimately show ?thesis using free by (intro down [of t]) auto
      qed
    qed
  qed
qed

lemma unraced_settles:
  assumes "unraced w"
  shows "\<exists>w'. rtranclp step w w' \<and> unraced w' \<and> at_rest w'"
  using assms
proof (induction "work_left w" arbitrary: w rule: less_induct)
  case less
  show ?case
  proof (cases "at_rest w")
    case True
    with less show ?thesis by blast
  next
    case False
    from unraced_steps_down [OF less(2) False]
    obtain w1 where w1: "step w w1" "\<not> raced w1" "work_left w1 < work_left w" by blast
    have "unraced w1" using less(2) w1 by (blast intro: unraced.steps)
    from less(1) [OF w1(3) this] obtain w' where "rtranclp step w1 w'" "unraced w'" "at_rest w'" by blast
    with w1(1) show ?thesis by (blast intro: converse_rtranclp_into_rtranclp)
  qed
qed


section \<open>The two races\<close>

text \<open>Runs of two threads, for one thread after the other as the list says.\<close>

definition duo :: "pc \<Rightarrow> pc \<Rightarrow> shared \<Rightarrow> world" where
  "duo p q s = \<lparr>pcs = (\<lambda>_. Idle)(0 := p, 1 := q), pg = s\<rparr>"

fun play :: "bool list \<Rightarrow> pc \<times> pc \<times> shared \<Rightarrow> (pc \<times> pc \<times> shared) option" where
  "play [] x = Some x"
| "play (first # ms) (p, q, s) =
     (if first then case thread_step 0 p s of Inl e \<Rightarrow> None | Inr (p', s') \<Rightarrow> play ms (p', q, s')
      else case thread_step 1 q s of Inl e \<Rightarrow> None | Inr (q', s') \<Rightarrow> play ms (p, q', s'))"

definition page_home :: u64 where
  "page_home = 0x7000000000"

lemma page_home [simp]: "page_home \<noteq> 0" "page_aligned page_home"
  by (simp_all add: page_home_def page_aligned_def)

definition page_at :: "list_id \<Rightarrow> bool \<Rightarrow> shared" where
  "page_at l resident = \<lparr>sh_migrating = False, sh_swapped_out = \<not> resident, sh_in_dram = resident, sh_va = page_home,
     sh_list = Some l, sh_lock = None, sh_mapped = True, sh_alloc = None, sh_addr = page_home, sh_old_va = \<lambda>_. page_home\<rparr>"

lemma const_upd [simp]: "(\<lambda>_. c)(x := c) = (\<lambda>_. c)"
  by (simp add: fun_eq_iff)

lemma duo_select [simp]:
  "pcs (duo p q s) 0 = p" "pcs (duo p q s) (Suc 0) = q" "pg (duo p q s) = s"
  by (simp_all add: duo_def)

lemma duo_update:
  "\<lparr>pcs = (pcs (duo p q s))(0 := p'), pg = s'\<rparr> = duo p' q s'" "\<lparr>pcs = (pcs (duo p q s))(1 := q'), pg = s'\<rparr> = duo p q' s'"
  by (auto simp: duo_def fun_eq_iff)

lemma duo_at_rest [simp]: "at_rest (duo Idle Idle s) \<longleftrightarrow> sh_lock s = None \<and> sh_alloc s = None"
  by (auto simp: at_rest_def duo_def fun_eq_iff)

lemma duo_goes:
  "thread_step 0 p s = Inr (p', s') \<Longrightarrow> step (duo p q s) (duo p' q s')"
  "thread_step 1 q s = Inr (q', s') \<Longrightarrow> step (duo p q s) (duo p q' s')"
  using step.goes [of 0 "duo p q s" p' s'] step.goes [of 1 "duo p q s" q' s'] unfolding duo_update by simp_all

lemma duo_begins:
  "starts p s s' \<Longrightarrow> step (duo Idle q s) (duo p q s')" "starts q s s' \<Longrightarrow> step (duo p Idle s) (duo p q s')"
  using step.begins [of "duo Idle q s" 0 p s'] step.begins [of "duo p Idle s" 1 q s'] unfolding duo_update by simp_all

lemma play_steps: "play ms (p, q, s) = Some (p', q', s') \<Longrightarrow> rtranclp step (duo p q s) (duo p' q' s')"
proof (induction ms "(p, q, s)" arbitrary: p q s rule: play.induct)
  case (2 first ms p q s)
  then consider (zero) p1 s1 where "first" "thread_step 0 p s = Inr (p1, s1)" "play ms (p1, q, s1) = Some (p', q', s')"
    | (one) q1 s1 where "\<not> first" "thread_step 1 q s = Inr (q1, s1)" "play ms (p, q1, s1) = Some (p', q', s')"
    by (auto split: if_splits sum.splits)
  then show ?case
  proof cases
    case zero
    then have "rtranclp step (duo p1 q s1) (duo p' q' s')" using 2(1) by simp
    with duo_goes(1) [OF zero(2)] show ?thesis by (rule converse_rtranclp_into_rtranclp)
  next
    case one
    then have "rtranclp step (duo p q1 s1) (duo p' q' s')" using 2(2) by simp
    with duo_goes(2) [OF one(2)] show ?thesis by (rule converse_rtranclp_into_rtranclp)
  qed
qed simp

lemma interleaved_steps: "rtranclp step w w' \<Longrightarrow> interleaved w \<Longrightarrow> interleaved w'"
  by (induction rule: rtranclp_induct) (auto intro: interleaved.steps)

lemmas race_simps = page_at_def check_def take_lock_def file_page_def eval_nat_numeral

text \<open>
  A fault brings the page back between the store that ends its migration and the last store of the eviction, which then
  marks the resident page as swapped out. Whoever prefetches the page next fails.
\<close>

definition lost_page :: shared where
  "lost_page = (page_at Inactive_list True)\<lparr>sh_swapped_out := True\<rparr>"

lemma late_store_run: "rtranclp step (duo Idle Idle (page_at Eviction_list True)) (duo Idle Idle lost_page)"
proof -
  let ?s = "page_at Eviction_list True"
  let ?d = "page_at Disk_active_list False"
  have "rtranclp step (duo Idle Idle ?s) (duo (Evict False Mark) Idle (?s\<lparr>sh_list := None\<rparr>))"
    by (intro r_into_rtranclp duo_begins starts.evicts) (simp add: page_at_def)
  also have "rtranclp step \<dots> (duo (Evict False Store_swapped) Idle ?d)"
    by (rule play_steps [of "replicate 15 True"]) (simp add: race_simps)
  also have "rtranclp step \<dots> (duo (Evict False Store_swapped) (Fetch Dispatch) ?d)"
    by (intro r_into_rtranclp duo_begins starts.faults) (simp_all add: page_at_def)
  also have "rtranclp step \<dots> (duo Idle Idle lost_page)"
    by (rule play_steps [of "replicate 21 False @ [True]"]) (simp add: race_simps lost_page_def)
  finally show ?thesis .
qed

lemma lost_page_fails: "\<exists>w. rtranclp step (duo Idle Idle lost_page) w \<and> crashes w"
proof -
  let ?s = "lost_page\<lparr>sh_migrating := True\<rparr>"
  have "rtranclp step (duo Idle Idle lost_page) (duo (Prefetch Dispatch) Idle lost_page)"
    by (intro r_into_rtranclp duo_begins starts.prefetches) (simp add: lost_page_def page_at_def)
  also have "rtranclp step \<dots> (duo (Prefetch Look) Idle ?s)"
    by (rule play_steps [of "replicate 9 True"]) (simp add: race_simps lost_page_def)
  finally have "rtranclp step (duo Idle Idle lost_page) (duo (Prefetch Look) Idle ?s)" .
  moreover have "thread_step 0 (Prefetch Look) ?s = Inl Assert_failed" by (simp add: lost_page_def page_at_def check_def)
  then have "crashes (duo (Prefetch Look) Idle ?s)" unfolding crashes_def by (metis duo_select(1,3))
  ultimately show ?thesis by blast
qed

text \<open>
  The handler files the page before it clears the flags. A scan that reaches the page first hands it to an eviction, which
  finds it marked as swapped out.
\<close>

definition crossed_page :: shared where
  "crossed_page = (page_at Disk_active_list False)\<lparr>sh_migrating := True, sh_list := None, sh_lock := Some 0\<rparr>"

lemma early_filing_run:
  "rtranclp step (duo Idle Idle (page_at Disk_active_list False))
     (duo (Evict False Set_swapped) (Fetch Reenter) crossed_page)"
proof -
  let ?s = "page_at Disk_active_list False"
  let ?l = "\<lambda>l. (page_at Disk_active_list False)\<lparr>sh_migrating := True, sh_in_dram := True, sh_list := l\<rparr>"
  have "rtranclp step (duo Idle Idle ?s) (duo Idle (Fetch Dispatch) ?s)"
    by (intro r_into_rtranclp duo_begins starts.faults) (simp_all add: page_at_def)
  also have "rtranclp step \<dots> (duo Idle (Fetch Reenter) (?l (Some Inactive_list)))"
    by (rule play_steps [of "replicate 17 False"]) (simp add: race_simps)
  also have "rtranclp step \<dots> (duo (Scan Eviction_list) (Fetch Reenter) (?l None))"
    using duo_begins(1) [OF starts.scanned [of "?l (Some Inactive_list)" Inactive_list Eviction_list]] by (simp add: r_into_rtranclp)
  also have "rtranclp step \<dots> (duo Idle (Fetch Reenter) (?l (Some Eviction_list)))"
    by (rule play_steps [of "[True]"]) (simp add: race_simps)
  also have "rtranclp step \<dots> (duo (Evict False Mark) (Fetch Reenter) (?l None))"
    using duo_begins(1) [OF starts.evicts [of "?l (Some Eviction_list)"]] by (simp add: r_into_rtranclp)
  also have "rtranclp step \<dots> (duo (Evict False Set_swapped) (Fetch Reenter) crossed_page)"
    by (rule play_steps [of "replicate 7 True"]) (simp add: race_simps crossed_page_def)
  finally show ?thesis .
qed

text \<open>
  \<open>munmap\<close> waits for an eviction, the prefetcher claims the page meanwhile, and \<open>munmap\<close> takes it nevertheless: when both
  are done the page lies in memory and in the queue of the free disk slots.
\<close>

definition misfiled_page :: shared where
  "misfiled_page = (page_at Disk_free_list True)\<lparr>sh_va := 0, sh_mapped := False\<rparr>"

lemma unchecked_claim_run: "rtranclp step (duo Idle Idle (page_at Eviction_list True)) (duo Idle Idle misfiled_page)"
proof -
  let ?s = "page_at Eviction_list True"
  let ?d = "\<lambda>m. (page_at Disk_active_list False)\<lparr>sh_migrating := m\<rparr>"
  have "rtranclp step (duo Idle Idle ?s) (duo (Evict False Mark) Idle (?s\<lparr>sh_list := None\<rparr>))"
    by (intro r_into_rtranclp duo_begins starts.evicts) (simp add: page_at_def)
  also have "rtranclp step \<dots> (duo (Evict False Release) Idle (?d True))"
    by (rule play_steps [of "replicate 14 True"]) (simp add: race_simps)
  also have "rtranclp step \<dots> (duo (Evict False Release) (Unmap Enter_all) (?d True))"
    by (intro r_into_rtranclp duo_begins starts.unmaps)
  also have "rtranclp step \<dots> (duo Idle (Unmap Reenter_page) (?d False\<lparr>sh_alloc := Some 1\<rparr>))"
    by (rule play_steps [of "replicate 5 False @ [True, True, False]"]) (simp add: race_simps)
  also have "rtranclp step \<dots> (duo (Prefetch Dispatch) (Unmap Reenter_page) (?d False\<lparr>sh_alloc := Some 1\<rparr>))"
    by (intro r_into_rtranclp duo_begins starts.prefetches) (simp add: page_at_def)
  also have "rtranclp step \<dots> (duo Idle Idle misfiled_page)"
    by (rule play_steps [of "replicate 11 True @ replicate 5 False @ replicate 4 True @ replicate 7 False @ replicate 5 True"])
      (simp add: race_simps misfiled_page_def)
  finally show ?thesis .
qed

lemma interleaved_misfiled: "interleaved (duo Idle Idle misfiled_page)"
  by (rule interleaved_steps [OF unchecked_claim_run]) (auto intro: interleaved.rest simp: page_at_def coherent_def indexed_def)

lemma interleaved_late: "interleaved (duo Idle Idle lost_page)"
  by (rule interleaved_steps [OF late_store_run]) (auto intro: interleaved.rest simp: page_at_def coherent_def indexed_def)

lemma interleaved_early: "interleaved (duo (Evict False Set_swapped) (Fetch Reenter) crossed_page)"
  by (rule interleaved_steps [OF early_filing_run]) (auto intro: interleaved.rest simp: page_at_def coherent_def indexed_def)

text \<open>An eviction under way that no fault has crossed.\<close>

definition evicting :: world where
  "evicting = duo (Evict False Mark) Idle ((page_at Eviction_list True)\<lparr>sh_list := None\<rparr>)"

lemma unraced_evicting: "unraced evicting" "\<not> at_rest evicting"
proof -
  have "unraced (duo Idle Idle (page_at Eviction_list True))"
    by (rule unraced.rest) (auto simp: page_at_def coherent_def indexed_def)
  moreover have "step (duo Idle Idle (page_at Eviction_list True)) evicting" unfolding evicting_def
    by (intro duo_begins starts.evicts) (simp add: page_at_def)
  moreover have "\<not> raced evicting" by (auto simp: raced_def evicting_def duo_def)
  ultimately show "unraced evicting" by (rule unraced.steps)
  have "pcs evicting 0 \<noteq> Idle" by (simp add: evicting_def)
  then show "\<not> at_rest evicting" unfolding at_rest_def by metis
qed

end
