(* ===== verification/First_Touch.thy ===== *)
theory First_Touch
  imports Machine
begin

text \<open>
  One address that no page has yet and any number of threads that fault on it at the same time: \<open>handle_first_fault\<close> of
  \<open>core.c\<close> with \<open>lrudisk_pagefault\<close>, \<open>lrudisk_put_page_free\<close> and \<open>lrudisk_track_page\<close> of the policy, one access to the shared
  state at a time. The steps of the threads interleave in any order. Every thread comes with a frame of its own; what is at
  stake is that one of them becomes the page, that the others are free again, and that the kernel is asked for the mapping once.
\<close>

section \<open>The steps of one thread\<close>

text \<open>
  What the index has at the address, \<open>allocator_lock\<close>, which descriptors have the address, their \<open>migrating\<close> flags and queues, and
  whether the kernel has mapped the address.
\<close>

record touched =
  tc_index :: "page_ptr option"
  tc_lock :: "tid option"
  tc_va :: "page_ptr \<Rightarrow> bool"
  tc_migrating :: "page_ptr \<Rightarrow> bool"
  tc_list :: "page_ptr \<Rightarrow> list_id option"
  tc_mapped :: bool

text \<open>Where a thread stands; the descriptors are its new page and the page that it has found.\<close>

datatype touch_pc = Untouched | Look | Allocate | Protect page_ptr | Acquire page_ptr | Look_again page_ptr
  | Give_up page_ptr page_ptr | Put_back page_ptr page_ptr | Wait_for page_ptr
  | Take page_ptr | Set_va page_ptr | Add page_ptr | Publish page_ptr | Copy page_ptr | Unprotect page_ptr | Track page_ptr

text \<open>
  The dequeue of a free frame is an argument, as the frame depends on the other threads: \<open>None\<close> while there is none. The
  kernel maps an address once; \<open>UFFDIO_COPY\<close> to an address that is mapped fails.
\<close>

fun touch_step :: "tid \<Rightarrow> page_ptr option \<Rightarrow> touch_pc \<Rightarrow> touched \<Rightarrow> c_error + touch_pc \<times> touched" where
  "touch_step t fr Untouched s = Inr (Untouched, s)"
| "touch_step t fr Look s = Inr (case tc_index s of None \<Rightarrow> Allocate | Some q \<Rightarrow> Wait_for q, s)"
| "touch_step t fr Allocate s =
     (case fr of
        None \<Rightarrow> Inr (Allocate, s)
      | Some p \<Rightarrow>
          if tc_list s p = Some Dram_free_list then Inr (Protect p, s\<lparr>tc_list := (tc_list s)(p := None)\<rparr>)
          else Inr (Allocate, s))"
| "touch_step t fr (Protect p) s = Inr (Acquire p, s\<lparr>tc_migrating := (tc_migrating s)(p := True)\<rparr>)"
| "touch_step t fr (Acquire p) s =
     Inr (if tc_lock s = None then (Look_again p, s\<lparr>tc_lock := Some t\<rparr>) else (Acquire p, s))"
| "touch_step t fr (Look_again p) s = Inr (case tc_index s of None \<Rightarrow> Take p | Some q \<Rightarrow> Give_up p q, s)"
| "touch_step t fr (Give_up p q) s = Inr (Put_back p q, s\<lparr>tc_lock := None\<rparr>)"
| "touch_step t fr (Put_back p q) s =
     (if tc_list s p = None \<and> \<not> tc_va s p
      then Inr (Wait_for q, s\<lparr>tc_list := (tc_list s)(p := Some Dram_free_list)\<rparr>) else Inl Assert_failed)"
| "touch_step t fr (Wait_for q) s = Inr (if tc_migrating s q then Wait_for q else Untouched, s)"
| "touch_step t fr (Take p) s = Inr (Set_va p, s\<lparr>tc_migrating := (tc_migrating s)(p := True)\<rparr>)"
| "touch_step t fr (Set_va p) s =
     (if \<not> tc_va s p then Inr (Add p, s\<lparr>tc_va := (tc_va s)(p := True)\<rparr>) else Inl Assert_failed)"
| "touch_step t fr (Add p) s =
     (if tc_index s = None then Inr (Publish p, s\<lparr>tc_index := Some p\<rparr>) else Inl Assert_failed)"
| "touch_step t fr (Publish p) s = Inr (Copy p, s\<lparr>tc_lock := None\<rparr>)"
| "touch_step t fr (Copy p) s =
     (if tc_mapped s then Inl Kernel_failed else Inr (Unprotect p, s\<lparr>tc_mapped := True\<rparr>))"
| "touch_step t fr (Unprotect p) s = Inr (Track p, s\<lparr>tc_migrating := (tc_migrating s)(p := False)\<rparr>)"
| "touch_step t fr (Track p) s =
     (if tc_list s p = None then Inr (Untouched, s\<lparr>tc_list := (tc_list s)(p := Some Inactive_list)\<rparr>)
      else Inl Assert_failed)"

section \<open>Runs\<close>

record touch_world =
  tpcs :: "tid \<Rightarrow> touch_pc"
  tsh :: touched

inductive touches :: "touch_world \<Rightarrow> touch_world \<Rightarrow> bool" where
  touch: "tpcs w t = Untouched \<Longrightarrow> touches w (w\<lparr>tpcs := (tpcs w)(t := Look)\<rparr>)"
| go: "touch_step t fr (tpcs w t) (tsh w) = Inr (p, s) \<Longrightarrow> touches w \<lparr>tpcs = (tpcs w)(t := p), tsh = s\<rparr>"

definition untouched :: "touched \<Rightarrow> bool" where
  "untouched s \<longleftrightarrow> tc_index s = None \<and> tc_lock s = None \<and> \<not> tc_mapped s \<and> (\<forall>p. \<not> tc_va s p \<and> tc_list s p = Some Dram_free_list)"

inductive touching :: "touch_world \<Rightarrow> bool" where
  rest: "tpcs w = (\<lambda>_. Untouched) \<Longrightarrow> untouched (tsh w) \<Longrightarrow> touching w"
| steps: "touching w \<Longrightarrow> touches w w' \<Longrightarrow> touching w'"

section \<open>The invariant\<close>

text \<open>The frame that a thread has in its hands, and whether it is inside \<open>allocator_lock\<close>.\<close>

fun frame_of :: "touch_pc \<Rightarrow> page_ptr option" where
  "frame_of (Protect p) = Some p"
| "frame_of (Acquire p) = Some p"
| "frame_of (Look_again p) = Some p"
| "frame_of (Give_up p q) = Some p"
| "frame_of (Put_back p q) = Some p"
| "frame_of (Take p) = Some p"
| "frame_of (Set_va p) = Some p"
| "frame_of (Add p) = Some p"
| "frame_of (Publish p) = Some p"
| "frame_of (Copy p) = Some p"
| "frame_of (Unprotect p) = Some p"
| "frame_of (Track p) = Some p"
| "frame_of _ = None"

fun in_lock :: "touch_pc \<Rightarrow> bool" where
  "in_lock (Look_again p) \<longleftrightarrow> True"
| "in_lock (Give_up p q) \<longleftrightarrow> True"
| "in_lock (Take p) \<longleftrightarrow> True"
| "in_lock (Set_va p) \<longleftrightarrow> True"
| "in_lock (Add p) \<longleftrightarrow> True"
| "in_lock (Publish p) \<longleftrightarrow> True"
| "in_lock _ \<longleftrightarrow> False"

text \<open>What a thread knows of the shared state.\<close>

definition blank :: "touched \<Rightarrow> page_ptr \<Rightarrow> bool" where
  "blank s p \<longleftrightarrow> tc_list s p = None \<and> \<not> tc_va s p \<and> tc_index s \<noteq> Some p"

definition own :: "touched \<Rightarrow> page_ptr \<Rightarrow> bool" where
  "own s p \<longleftrightarrow> tc_list s p = None \<and> tc_va s p \<and> tc_index s = Some p"

fun knows :: "touch_pc \<Rightarrow> touched \<Rightarrow> bool" where
  "knows (Protect p) s \<longleftrightarrow> blank s p"
| "knows (Acquire p) s \<longleftrightarrow> blank s p"
| "knows (Look_again p) s \<longleftrightarrow> blank s p"
| "knows (Give_up p q) s \<longleftrightarrow> blank s p \<and> tc_index s = Some q"
| "knows (Put_back p q) s \<longleftrightarrow> blank s p \<and> tc_index s = Some q"
| "knows (Wait_for q) s \<longleftrightarrow> tc_index s = Some q"
| "knows (Take p) s \<longleftrightarrow> blank s p \<and> tc_index s = None"
| "knows (Set_va p) s \<longleftrightarrow> blank s p \<and> tc_index s = None \<and> tc_migrating s p"
| "knows (Add p) s \<longleftrightarrow> tc_list s p = None \<and> tc_va s p \<and> tc_index s = None \<and> tc_migrating s p"
| "knows (Publish p) s \<longleftrightarrow> own s p \<and> tc_migrating s p \<and> \<not> tc_mapped s"
| "knows (Copy p) s \<longleftrightarrow> own s p \<and> tc_migrating s p \<and> \<not> tc_mapped s"
| "knows (Unprotect p) s \<longleftrightarrow> own s p \<and> tc_migrating s p \<and> tc_mapped s"
| "knows (Track p) s \<longleftrightarrow> own s p \<and> \<not> tc_migrating s p \<and> tc_mapped s"
| "knows _ s \<longleftrightarrow> True"

text \<open>What holds of a descriptor that no thread has in its hands.\<close>

definition filed_well :: "touched \<Rightarrow> page_ptr \<Rightarrow> bool" where
  "filed_well s p \<longleftrightarrow> tc_list s p = None \<or>
     tc_list s p = Some Dram_free_list \<and> \<not> tc_va s p \<and> tc_index s \<noteq> Some p \<or>
     tc_list s p = Some Inactive_list \<and> tc_va s p \<and> tc_index s = Some p \<and> \<not> tc_migrating s p \<and> tc_mapped s"

definition distinct_frames :: "(tid \<Rightarrow> touch_pc) \<Rightarrow> bool" where
  "distinct_frames f \<longleftrightarrow> (\<forall>t u p. frame_of (f t) = Some p \<longrightarrow> frame_of (f u) = Some p \<longrightarrow> t = u)"

definition frames_carried :: "(tid \<Rightarrow> touch_pc) \<Rightarrow> (page_ptr \<Rightarrow> list_id option) \<Rightarrow> bool" where
  "frames_carried f l \<longleftrightarrow> (\<forall>p. l p = None \<longleftrightarrow> (\<exists>t. frame_of (f t) = Some p))"

definition touch_ok :: "touch_world \<Rightarrow> bool" where
  "touch_ok w \<longleftrightarrow> (tc_index (tsh w) = None \<longrightarrow> \<not> tc_mapped (tsh w)) \<and> (\<forall>p. filed_well (tsh w) p) \<and>
     (\<forall>t. knows (tpcs w t) (tsh w)) \<and> (\<forall>t. in_lock (tpcs w t) \<longleftrightarrow> tc_lock (tsh w) = Some t) \<and>
     distinct_frames (tpcs w) \<and> frames_carried (tpcs w) (tc_list (tsh w))"

definition apart :: "touch_pc \<Rightarrow> touch_pc \<Rightarrow> bool" where
  "apart p q \<longleftrightarrow> \<not> (in_lock p \<and> in_lock q) \<and> (frame_of p \<noteq> None \<longrightarrow> frame_of p \<noteq> frame_of q)"

lemmas touch_simps = blank_def own_def filed_well_def

lemma touch_runs: "knows p s \<Longrightarrow> touch_step t fr p s \<noteq> Inl e"
  by (cases p) (auto simp: touch_simps split: option.splits)

lemma touch_knows:
  assumes "touch_step t fr p s = Inr (p', s')" "knows p s" "tc_index s = None \<Longrightarrow> \<not> tc_mapped s" "\<And>q. filed_well s q"
  shows "knows p' s'" "tc_index s' = None \<longrightarrow> \<not> tc_mapped s'"
proof -
  have "knows p' s' \<and> (tc_index s' = None \<longrightarrow> \<not> tc_mapped s')"
  proof (cases "p = Allocate")
    case True
    with assms(1-3) assms(4) [of "the fr"] show ?thesis by (auto simp: touch_simps split: option.splits if_splits)
  next
    case False
    with assms(1-3) show ?thesis by (cases p) (auto simp: touch_simps split: option.splits if_splits)
  qed
  then show "knows p' s'" "tc_index s' = None \<longrightarrow> \<not> tc_mapped s'" by auto
qed

text \<open>A step does not change what another thread knows.\<close>

definition unobserved :: "touch_pc \<Rightarrow> page_ptr \<Rightarrow> touched \<Rightarrow> touched \<Rightarrow> bool" where
  "unobserved p q s s' \<longleftrightarrow> (tc_index s' = tc_index s \<or> tc_index s = None \<and> in_lock p) \<and>
     (tc_mapped s' = tc_mapped s \<or> tc_index s = frame_of p \<and> tc_index s \<noteq> None) \<and>
     (frame_of p \<noteq> Some q \<longrightarrow> tc_va s' q = tc_va s q \<and> tc_migrating s' q = tc_migrating s q \<and>
       (tc_list s' q = tc_list s q \<or> tc_list s q = Some Dram_free_list \<and> tc_list s' q = None) \<and> (tc_index s' = Some q \<longrightarrow> tc_index s = Some q))"

lemma touch_unobserved: "touch_step t fr p s = Inr (p', s') \<Longrightarrow> knows p s \<Longrightarrow> unobserved p q s s'"
  by (cases p) (auto simp: touch_simps unobserved_def split: option.splits if_splits)

lemma touch_filed:
  assumes "touch_step t fr p s = Inr (p', s')" "knows p s" "filed_well s q"
  shows "filed_well s' q"
proof (cases "frame_of p = Some q")
  case True
  with assms(1,2) show ?thesis by (cases p) (auto simp: touch_simps split: option.splits if_splits)
next
  case False
  note u = touch_unobserved [OF assms(1,2), of q, unfolded unobserved_def]
  have f: "tc_va s' q = tc_va s q" "tc_migrating s' q = tc_migrating s q" "tc_index s' = Some q \<Longrightarrow> tc_index s = Some q"
    using u False by blast+
  have l: "tc_list s' q = tc_list s q \<or> tc_list s' q = None" using u False by metis
  have k: "tc_index s' = tc_index s \<and> tc_mapped s' = tc_mapped s" if "tc_index s = Some q" using u that False by simp
  show ?thesis
  proof (cases "tc_list s' q = None")
    case False
    with l have "tc_list s' q = tc_list s q" by simp
    with False assms(3) f k show ?thesis unfolding filed_well_def by metis
  qed (simp add: filed_well_def)
qed

lemma unobserved_knows:
  assumes "\<And>r. unobserved p r s s'" "apart p q" "knows q s"
  shows "knows q s'"
proof (cases "frame_of q")
  case None
  with assms(1) [of 0] assms(3) show ?thesis by (cases q) (auto simp: unobserved_def)
next
  case (Some r)
  then have "frame_of p \<noteq> Some r" "\<not> (in_lock p \<and> in_lock q)" using assms(2) by (auto simp: apart_def)
  with assms(1) [of r] assms(3) Some show ?thesis by (cases q) (auto simp: touch_simps unobserved_def)
qed

text \<open>How a step moves the lock and the frames.\<close>

lemma touch_lock:
  assumes "touch_step t fr p s = Inr (p', s')" "in_lock p \<longleftrightarrow> tc_lock s = Some t"
  shows "tc_lock s' = tc_lock s \<and> in_lock p' = in_lock p \<or>
    tc_lock s = None \<and> tc_lock s' = Some t \<and> in_lock p' \<or> tc_lock s = Some t \<and> tc_lock s' = None \<and> \<not> in_lock p'"
  using assms by (cases p) (auto split: option.splits if_splits)

lemma touch_frames:
  assumes "touch_step t fr p s = Inr (p', s')"
  shows "tc_list s' = tc_list s \<and> frame_of p' = frame_of p \<or>
    (\<exists>r. tc_list s r \<noteq> None \<and> tc_list s' = (tc_list s)(r := None) \<and> frame_of p = None \<and> frame_of p' = Some r) \<or>
    (\<exists>r l. tc_list s' = (tc_list s)(r := Some l) \<and> frame_of p = Some r \<and> frame_of p' = None)"
  using assms by (cases p) (auto split: option.splits if_splits)

lemma frames_step:
  assumes d: "distinct_frames f" and c: "frames_carried f l"
    and m: "l' = l \<and> frame_of p' = frame_of (f t) \<or>
      (\<exists>r. l r \<noteq> None \<and> l' = l(r := None) \<and> frame_of (f t) = None \<and> frame_of p' = Some r) \<or>
      (\<exists>r x. l' = l(r := Some x) \<and> frame_of (f t) = Some r \<and> frame_of p' = None)"
  shows "distinct_frames (f(t := p'))" "frames_carried (f(t := p')) l'"
proof -
  have "distinct_frames (f(t := p')) \<and> frames_carried (f(t := p')) l'"
    using m
  proof (elim disjE exE conjE, goal_cases)
    case 1
    then have "frame_of ((f(t := p')) u) = frame_of (f u)" for u by simp
    then show ?case using d c 1(1) by (simp add: distinct_frames_def frames_carried_def)
  next
    case (2 r)
    then have n: "frame_of (f u) \<noteq> Some r" for u using c 2(1) unfolding frames_carried_def by metis
    have e: "frame_of ((f(t := p')) u) = Some q \<longleftrightarrow> (if u = t then q = r else frame_of (f u) = Some q)" for u q using 2(4) by auto
    have "distinct_frames (f(t := p'))" unfolding distinct_frames_def e using d n by (auto simp: distinct_frames_def split: if_splits)
    moreover have "l' q = None \<longleftrightarrow> (\<exists>u. frame_of ((f(t := p')) u) = Some q)" for q
    proof -
      have "l q = None \<longleftrightarrow> (\<exists>u. frame_of (f u) = Some q)" using c by (simp add: frames_carried_def)
      then show ?thesis unfolding e 2(2) using 2(3) by (cases "q = r") (auto, metis option.distinct(1))
    qed
    ultimately show ?case by (simp add: frames_carried_def)
  next
    case (3 r x)
    then have n: "frame_of (f u) \<noteq> Some r" if "u \<noteq> t" for u using d that by (auto simp: distinct_frames_def)
    have e: "frame_of ((f(t := p')) u) = Some q \<longleftrightarrow> u \<noteq> t \<and> frame_of (f u) = Some q" for u q using 3(3) by auto
    have "distinct_frames (f(t := p'))" unfolding distinct_frames_def e using d by (auto simp: distinct_frames_def)
    moreover have "l' q = None \<longleftrightarrow> (\<exists>u. frame_of ((f(t := p')) u) = Some q)" for q
    proof -
      have "l q = None \<longleftrightarrow> (\<exists>u. frame_of (f u) = Some q)" using c by (simp add: frames_carried_def)
      then show ?thesis unfolding e 3(1) using 3(2) n by (cases "q = r") (auto, metis option.inject)
    qed
    ultimately show ?case by (simp add: frames_carried_def)
  qed
  then show "distinct_frames (f(t := p'))" "frames_carried (f(t := p')) l'" by auto
qed

lemma touch_ok_go:
  assumes w: "touch_ok w" and g: "touch_step t fr (tpcs w t) (tsh w) = Inr (p, s)"
  shows "touch_ok \<lparr>tpcs = (tpcs w)(t := p), tsh = s\<rparr>"
proof -
  have i: "tc_index (tsh w) = None \<Longrightarrow> \<not> tc_mapped (tsh w)" and pl: "\<And>q. filed_well (tsh w) q" and k: "\<And>u. knows (tpcs w u) (tsh w)"
    and l: "\<And>u. in_lock (tpcs w u) \<longleftrightarrow> tc_lock (tsh w) = Some u"
    and d: "distinct_frames (tpcs w)" and c: "frames_carried (tpcs w) (tc_list (tsh w))"
    using w unfolding touch_ok_def by blast+
  note n = touch_knows [OF g k i pl]
  have "apart (tpcs w t) (tpcs w u)" if "u \<noteq> t" for u
    using that l [of t] l [of u] d by (auto simp: apart_def distinct_frames_def)
  then have "knows (tpcs w u) s" if "u \<noteq> t" for u
    using that by (intro unobserved_knows [OF touch_unobserved [OF g k] _ k])
  then have "knows (((tpcs w)(t := p)) u) s" for u using n(1) by (cases "u = t") simp_all
  moreover have "in_lock (((tpcs w)(t := p)) u) \<longleftrightarrow> tc_lock s = Some u" for u
    using touch_lock [OF g l] l [of t] l [of u] by (cases "u = t") auto
  moreover have "filed_well s q" for q by (rule touch_filed [OF g k pl])
  ultimately show ?thesis
    using n(2) frames_step [OF d c touch_frames [OF g]] by (simp add: touch_ok_def)
qed

lemma touching_ok: "touching w \<Longrightarrow> touch_ok w"
proof (induction rule: touching.induct)
  case (rest w)
  then show ?case by (simp add: touch_ok_def untouched_def filed_well_def distinct_frames_def frames_carried_def)
next
  case (steps w w')
  show ?case using steps(2)
  proof cases
    case (touch t)
    have o: "touch_ok w" by (rule steps)
    then have d: "distinct_frames (tpcs w)" and c: "frames_carried (tpcs w) (tc_list (tsh w))"
      and k: "\<And>u. knows (tpcs w u) (tsh w)" and l: "\<And>u. in_lock (tpcs w u) \<longleftrightarrow> tc_lock (tsh w) = Some u"
      unfolding touch_ok_def by blast+
    have "frame_of Look = frame_of (tpcs w t)" using touch(2) by simp
    note m = frames_step [OF d c disjI1 [OF conjI [OF refl this]]]
    have "knows (((tpcs w)(t := Look)) u) (tsh w)" "in_lock (((tpcs w)(t := Look)) u) \<longleftrightarrow> tc_lock (tsh w) = Some u" for u
      using k [of u] l [of u] touch(2) by (cases "u = t"; simp)+
    then show ?thesis unfolding touch(1) using o m by (simp add: touch_ok_def)
  next
    case (go t fr p s)
    then show ?thesis using touch_ok_go steps by simp
  qed
qed

section \<open>What it means\<close>

text \<open>No thread fails, in particular the kernel is asked once only, and no two descriptors have the address.\<close>

lemma touching_safe:
  assumes "touching w"
  shows "touch_step t fr (tpcs w t) (tsh w) \<noteq> Inl e" "tc_va (tsh w) p \<Longrightarrow> tc_va (tsh w) q \<Longrightarrow> p = q"
proof -
  have o: "touch_ok w" by (rule touching_ok [OF assms])
  then have k: "knows (tpcs w u) (tsh w)" for u by (simp add: touch_ok_def)
  show "touch_step t fr (tpcs w t) (tsh w) \<noteq> Inl e" by (rule touch_runs [OF k])
  have a: "tc_index (tsh w) = Some p \<or> (\<exists>u. tpcs w u = Add p)" if "tc_va (tsh w) p" for p
  proof (cases "tc_list (tsh w) p")
    case None
    then obtain u where "frame_of (tpcs w u) = Some p" using o by (auto simp: touch_ok_def frames_carried_def)
    then show ?thesis using k [of u] that by (cases "tpcs w u") (auto simp: touch_simps)
  next
    case (Some l)
    moreover have "filed_well (tsh w) p" using o by (simp add: touch_ok_def)
    ultimately show ?thesis using that by (auto simp: filed_well_def)
  qed
  have n: "tc_index (tsh w) = None" if "tpcs w u = Add p" for u p using k [of u] that by simp
  have u: "p = q" if "tpcs w u = Add p" "tpcs w v = Add q" for u v p q
  proof -
    have l: "in_lock (tpcs w x) \<longleftrightarrow> tc_lock (tsh w) = Some x" for x using o by (simp add: touch_ok_def)
    have "u = v" using l [of u] l [of v] that by simp
    then show ?thesis using that by simp
  qed
  show "p = q" if v: "tc_va (tsh w) p" "tc_va (tsh w) q"
    using a [OF v(1)] a [OF v(2)]
  proof (elim disjE exE)
    fix x y assume "tpcs w x = Add p" "tpcs w y = Add q"
    then show ?thesis by (rule u)
  qed (auto dest: n)
qed

text \<open>When the threads are done, either nothing has happened or one frame is the page and all others are free.\<close>

lemma touching_done:
  assumes "touching w" "tpcs w = (\<lambda>_. Untouched)"
  shows "untouched (tsh w) \<or> (\<exists>p. tc_index (tsh w) = Some p \<and> tc_va (tsh w) p \<and> tc_list (tsh w) p = Some Inactive_list \<and>
    \<not> tc_migrating (tsh w) p \<and> tc_mapped (tsh w) \<and> tc_lock (tsh w) = None \<and>
    (\<forall>q. q \<noteq> p \<longrightarrow> \<not> tc_va (tsh w) q \<and> tc_list (tsh w) q = Some Dram_free_list))"
proof -
  have o: "touch_ok w" by (rule touching_ok [OF assms(1)])
  have l: "tc_list (tsh w) p \<noteq> None" for p using o assms(2) by (simp add: touch_ok_def frames_carried_def)
  have "tc_lock (tsh w) \<noteq> Some t" for t using o assms(2) by (simp add: touch_ok_def)
  then have k: "tc_lock (tsh w) = None" by (cases "tc_lock (tsh w)") auto
  have pl: "filed_well (tsh w) p" for p using o by (simp add: touch_ok_def)
  show ?thesis
  proof (cases "tc_index (tsh w)")
    case None
    moreover have "\<not> tc_mapped (tsh w)" using o None by (simp add: touch_ok_def)
    moreover have "\<not> tc_va (tsh w) p \<and> tc_list (tsh w) p = Some Dram_free_list" for p
      using pl [of p] l [of p] None by (auto simp: filed_well_def)
    ultimately have "untouched (tsh w)" unfolding untouched_def using k by simp
    then show ?thesis ..
  next
    case (Some p)
    have "\<not> tc_va (tsh w) q \<and> tc_list (tsh w) q = Some Dram_free_list" if "q \<noteq> p" for q
      using pl [of q] l [of q] Some that by (auto simp: filed_well_def)
    moreover have "tc_va (tsh w) p \<and> tc_list (tsh w) p = Some Inactive_list \<and> \<not> tc_migrating (tsh w) p \<and> tc_mapped (tsh w)"
      using pl [of p] l [of p] Some by (auto simp: filed_well_def)
    ultimately show ?thesis using Some k by blast
  qed
qed

section \<open>Two threads that meet\<close>

fun drive :: "(tid \<times> page_ptr option) list \<Rightarrow> touch_world \<Rightarrow> touch_world option" where
  "drive [] w = Some w"
| "drive ((t, fr) # ms) w =
     (case touch_step t fr (tpcs w t) (tsh w) of
        Inl e \<Rightarrow> None
      | Inr (p, s) \<Rightarrow> drive ms \<lparr>tpcs = (tpcs w)(t := p), tsh = s\<rparr>)"

lemma drive_touching: "drive ms w = Some w' \<Longrightarrow> touching w \<Longrightarrow> touching w'"
proof (induction ms w rule: drive.induct)
  case (2 t fr ms w)
  from 2(2) obtain p s where g: "touch_step t fr (tpcs w t) (tsh w) = Inr (p, s)"
    "drive ms \<lparr>tpcs = (tpcs w)(t := p), tsh = s\<rparr> = Some w'"
    by (auto split: sum.splits)
  have "touching \<lparr>tpcs = (tpcs w)(t := p), tsh = s\<rparr>" by (rule touching.steps [OF 2(3) touches.go [OF g(1)]])
  with 2(1) g show ?case by simp
qed simp

definition fresh_start :: touched where
  "fresh_start = \<lparr>tc_index = None, tc_lock = None, tc_va = (\<lambda>_. False), tc_migrating = (\<lambda>_. False),
     tc_list = (\<lambda>_. Some Dram_free_list), tc_mapped = False\<rparr>"

text \<open>Thread 0 comes with frame 5 and thread 1 with frame 6; thread 0 is first to take \<open>allocator_lock\<close>.\<close>

definition schedule :: "(tid \<times> page_ptr option) list" where
  "schedule = [(0, None), (1, None), (0, Some 5), (1, Some 6), (0, None), (1, None), (0, None), (1, None), (0, None), (0, None),
     (0, None), (0, None), (0, None), (1, None), (1, None), (1, None), (1, None), (1, None), (0, None), (0, None), (0, None), (1, None)]"

definition met :: touched where
  "met = \<lparr>tc_index = Some 5, tc_lock = None, tc_va = (\<lambda>_. False)(5 := True), tc_migrating = (\<lambda>_. False)(5 := False, 6 := True),
     tc_list = (\<lambda>_. Some Dram_free_list)(5 := Some Inactive_list), tc_mapped = True\<rparr>"

lemma met_run:
  "drive schedule \<lparr>tpcs = (\<lambda>_. Untouched)(0 := Look, 1 := Look), tsh = fresh_start\<rparr> = Some \<lparr>tpcs = (\<lambda>_. Untouched), tsh = met\<rparr>"
  by (simp add: schedule_def fresh_start_def met_def) (auto simp: fun_eq_iff)

lemma touching_met: "touching \<lparr>tpcs = (\<lambda>_. Untouched), tsh = met\<rparr>"
proof (rule drive_touching [OF met_run])
  let ?w = "\<lparr>tpcs = (\<lambda>_. Untouched), tsh = fresh_start\<rparr>"
  have "touching ?w" by (rule touching.rest) (simp_all add: untouched_def fresh_start_def)
  then have "touching (?w\<lparr>tpcs := (tpcs ?w)(0 := Look)\<rparr>)" by (rule touching.steps) (rule touches.touch, simp)
  then have "touching ((?w\<lparr>tpcs := (tpcs ?w)(0 := Look)\<rparr>)\<lparr>tpcs := (tpcs (?w\<lparr>tpcs := (tpcs ?w)(0 := Look)\<rparr>))(1 := Look)\<rparr>)"
    by (rule touching.steps) (rule touches.touch, simp)
  then show "touching \<lparr>tpcs = (\<lambda>_. Untouched)(0 := Look, 1 := Look), tsh = fresh_start\<rparr>" by simp
qed

end
