(* ===== verification/Disklinux_Vector.thy ===== *)
theory Disklinux_Vector
  imports Disklinux_Evict
begin

text \<open>
  The vector worker evicts a batch at once: it protects all victims, gets all disk slots, migrates
  all pages and only then files the descriptors. Its effect is that of exchanging the places of each
  pair in turn.
\<close>

section \<open>The exchange of a batch\<close>

definition vic :: "(page_ptr \<Rightarrow> user_page) \<Rightarrow> page_ptr \<Rightarrow> page_ptr \<Rightarrow> user_page" where
  "vic h v d = (let x = (placed (virtual_offset (h d)) False (h v))\<lparr>swapped_out := True, migrating := False\<rparr> in
     if has_reserve (h v) then x\<lparr>has_reserve := False, reserve := None\<rparr> else x)"

definition fre :: "(page_ptr \<Rightarrow> user_page) \<Rightarrow> page_ptr \<Rightarrow> page_ptr \<Rightarrow> user_page" where
  "fre h v d = (let x = (h d)\<lparr>virtual_offset := virtual_offset (h v), in_dram := True, present := False\<rparr> in
     if has_reserve (h v) then x\<lparr>has_reserve := False, reserve := None\<rparr> else x)"

fun exchange :: "(page_ptr \<times> page_ptr) list \<Rightarrow> (page_ptr \<Rightarrow> user_page) \<Rightarrow> page_ptr \<Rightarrow> user_page" where
  "exchange [] h = h"
| "exchange ((v, d) # ps) h = exchange ps (h(v := vic h v d, d := fre h v d))"

abbreviation members :: "(page_ptr \<times> page_ptr) list \<Rightarrow> page_ptr list" where
  "members ps \<equiv> map fst ps @ map snd ps"

lemma exchange_other: "q \<notin> set (members ps) \<Longrightarrow> exchange ps h q = h q"
  by (induction ps arbitrary: h) (auto simp: case_prod_beta)

lemma vic_fre_cong: "h v = h' v \<Longrightarrow> h d = h' d \<Longrightarrow> vic h v d = vic h' v d \<and> fre h v d = fre h' v d"
  by (simp add: vic_def fre_def)

lemma exchange_pair:
  "distinct (members ps) \<Longrightarrow> (v, d) \<in> set ps \<Longrightarrow> exchange ps h v = vic h v d \<and> exchange ps h d = fre h v d"
proof (induction ps arbitrary: h)
  case (Cons p ps)
  obtain v' d' where p: "p = (v', d')" by (cases p)
  let ?h = "h(v' := vic h v' d', d' := fre h v' d')"
  show ?case
  proof (cases "(v, d) = (v', d')")
    case True
    then have "v \<notin> set (members ps)" "d \<notin> set (members ps)" "v \<noteq> d" using Cons.prems p by auto
    then show ?thesis using True p by (simp add: exchange_other)
  next
    case False
    then have m: "(v, d) \<in> set ps" using Cons.prems p by auto
    then have "v \<in> fst ` set ps" "d \<in> snd ` set ps" by force+
    then have "v \<noteq> v'" "v \<noteq> d'" "d \<noteq> v'" "d \<noteq> d'" using Cons.prems p by auto
    then have "vic ?h v d = vic h v d \<and> fre ?h v d = fre h v d" by (intro vic_fre_cong) auto
    moreover have "distinct (members ps)" using Cons.prems p by auto
    ultimately show ?thesis using Cons.IH [OF _ m, of ?h] p by (simp del: fun_upd_apply)
  qed
qed simp

text \<open>What makes a pair ready for the exchange.\<close>

definition pair_ok :: "(page_ptr \<Rightarrow> user_page) \<Rightarrow> page_ptr \<times> page_ptr \<Rightarrow> bool" where
  "pair_ok h p \<longleftrightarrow> (case p of (v, d) \<Rightarrow> in_dram (h v) \<and> \<not> swapped_out (h v) \<and> va (h v) \<noteq> 0 \<and> page_aligned (va (h v)) \<and>
     (has_reserve (h v) \<longrightarrow> reserve (h v) = Some d) \<and> \<not> in_dram (h d) \<and> va (h d) = 0 \<and>
     (has_reserve (h d) \<longrightarrow> has_reserve (h v) \<and> reserve (h d) = Some v))"

lemma evicted_vic_fre:
  assumes "pair_ok h (v, d)" "v \<noteq> d" "\<not> present (h d)"
  shows "evicted (s\<lparr>heap := h\<rparr>) (h(v := vic h v d, d := fre h v d)) v d"
  using assms by (auto simp: evicted_def vic_def fre_def pair_ok_def Let_def)

lemma exchange_inv:
  assumes "pool_inv G (s\<lparr>heap := h\<rparr>)" "set (members ps) \<subseteq> G" "distinct (members ps)" "\<forall>p \<in> set ps. pair_ok h p"
  shows "pool_inv G (s\<lparr>heap := exchange ps h\<rparr>) \<and> (\<forall>(v, d) \<in> set ps.
    fits (s\<lparr>heap := exchange ps h\<rparr>) Disk_active_list v \<and> fits (s\<lparr>heap := exchange ps h\<rparr>) Dram_free_list d)"
  using assms
proof (induction ps arbitrary: h)
  case (Cons p ps)
  obtain v d where p: "p = (v, d)" by (cases p)
  let ?h = "h(v := vic h v d, d := fre h v d)"
  have vd: "v \<in> G" "d \<in> G" "v \<noteq> d" and rest: "v \<notin> set (members ps)" "d \<notin> set (members ps)"
    using Cons.prems(2,3) p by auto
  have pk: "pair_ok h (v, d)" using Cons.prems(4) p by simp
  have "\<not> present (h d)" using pool_invD(5,6) [OF Cons.prems(1)] vd by auto
  note e = evicted_vic_fre [OF pk vd(3) this, of s]
  have 1: "pool_inv G (s\<lparr>heap := ?h\<rparr>)" "fits (s\<lparr>heap := ?h\<rparr>) Disk_active_list v" "fits (s\<lparr>heap := ?h\<rparr>) Dram_free_list d"
    using evicted_inv [OF Cons.prems(1) vd _ _ _ _ _ _ e] pk by (auto simp: pair_ok_def)
  have pk': "pair_ok ?h q" if "q \<in> set ps" for q
  proof -
    have "fst q \<in> set (members ps)" "snd q \<in> set (members ps)" using that by auto
    then have "?h (fst q) = h (fst q)" "?h (snd q) = h (snd q)" using rest by auto
    moreover have "pair_ok h q" using Cons.prems(4) that by simp
    ultimately show ?thesis unfolding pair_ok_def case_prod_beta by simp
  qed
  have "pool_inv G (s\<lparr>heap := exchange ps ?h\<rparr>) \<and> (\<forall>(v, d) \<in> set ps.
     fits (s\<lparr>heap := exchange ps ?h\<rparr>) Disk_active_list v \<and> fits (s\<lparr>heap := exchange ps ?h\<rparr>) Dram_free_list d)"
    by (rule Cons.IH [OF 1(1)]) (use Cons.prems(2,3) p pk' in \<open>auto simp del: fun_upd_apply\<close>)
  moreover have "exchange ps ?h v = ?h v" "exchange ps ?h d = ?h d" using rest by (simp_all add: exchange_other)
  ultimately show ?case using 1 p by (simp add: fits_upd)
qed simp

section \<open>The steps of the worker\<close>

lemma pool_inv_take_set:
  assumes inv: "pool_inv F s" and A: "\<forall>p \<in> A. page_list s p = Some l" "l \<noteq> Disk_reserve_list"
    and fs: "lists_ok fs" "\<And>q. list_p (link fs q) = (if q \<in> A then None else page_list s q)"
  shows "pool_inv (A \<union> F) (s\<lparr>lists := fs\<rparr>)" "p \<in> A \<Longrightarrow> fits (s\<lparr>lists := fs\<rparr>) l p"
proof -
  have f: "fits (s\<lparr>lists := fs\<rparr>) l' q" if "fits s l' q" for l' q
    by (rule fits_lists [OF that]) (use A in \<open>auto simp: fs(2)\<close>)
  have "filed (s\<lparr>lists := fs\<rparr>) q" if "q < npool s" "q \<notin> A \<union> F" for q
    using pool_invD(10) [OF inv, of q] that f by (auto simp: filed_def fs(2))
  then show "pool_inv (A \<union> F) (s\<lparr>lists := fs\<rparr>)" using inv A pool_inv_listed(1) [OF inv] fs
    by (auto simp: pool_inv_def queues_free_def frame_def [abs_def] all_frames_def)
  show "p \<in> A \<Longrightarrow> fits (s\<lparr>lists := fs\<rparr>) l p" using A(1) pool_inv_listed(3) [OF inv] f by blast
qed

definition protected :: "page_ptr set \<Rightarrow> (page_ptr \<Rightarrow> user_page) \<Rightarrow> page_ptr \<Rightarrow> user_page" where
  "protected A h q = (if q \<in> A then (h q)\<lparr>migrating := True\<rparr> else h q)"

lemma protected_place [simp]: "virtual_offset (protected A h q) = virtual_offset (h q)" "va (protected A h q) = va (h q)"
  "in_dram (protected A h q) = in_dram (h q)"
  by (simp_all add: protected_def)

lemma protect_victims_wp:
  assumes "pool_inv G s" "set vs \<subseteq> G" "distinct vs" "\<forall>v \<in> set vs. victim_ok s v" and E: "E Kernel_failed"
    and Q: "\<And>wbs k. length wbs = length vs \<Longrightarrow>
      Q (zip (map (\<lambda>v. virtual_offset (heap s v)) vs) wbs, s\<lparr>heap := protected (set vs) (heap s), kst := k\<rparr>)"
  shows "wpE (protect_victims K vs s) Q E"
  using assms(1-4) Q
proof (induction vs arbitrary: s Q)
  case Nil
  have "protected {} (heap s) = heap s" by (auto simp: protected_def)
  then show ?case using Nil.prems(5) [of "[]" "kst s"] by (simp add: wp_simps)
next
  case (Cons v vs)
  let ?s1 = "\<lambda>k. upd_page v (\<lambda>h. h\<lparr>migrating := True\<rparr>) s\<lparr>kst := k\<rparr>"
  have v: "v \<in> G" "victim_ok s v" "v \<notin> set vs" using Cons.prems by auto
  have vo: "map (\<lambda>v. virtual_offset (heap (?s1 k) v)) vs = map (\<lambda>v. virtual_offset (heap s v)) vs" for k
    using v(3) by auto
  have ph: "protected (set vs) (heap (?s1 k)) = protected (set (v # vs)) (heap s)" for k
    using v(3) by (auto simp: protected_def)
  show ?case unfolding protect_victims.simps wpE_Let wpE_bindE
  proof (rule protect_victim_wp [where E = E, OF Cons.prems(1) v(1,2) E], simp add: wpE_bindE, rule Cons.IH)
    fix wb k
    show "pool_inv G (?s1 k)" using Cons.prems(1) v by (auto intro!: pool_inv_upd_page)
    show "\<forall>w \<in> set vs. victim_ok (?s1 k) w" using Cons.prems(4) v(3)
      by (auto simp: victim_ok_def Let_def backed_def)
  next
    fix wb k wbs k'
    assume l: "length (wbs :: bool list) = length vs"
    have eq: "?s1 k\<lparr>heap := protected (set vs) (heap (?s1 k)), kst := k'\<rparr> = s\<lparr>heap := protected (set (v # vs)) (heap s), kst := k'\<rparr>"
      unfolding ph by (simp add: upd_page_def)
    show "wpE (case (zip (map (\<lambda>v. virtual_offset (heap (?s1 k) v)) vs) wbs,
            ?s1 k\<lparr>heap := protected (set vs) (heap (?s1 k)), kst := k'\<rparr>) of
          (ows, s') \<Rightarrow> Inr ((virtual_offset (heap s v), wb) # ows, s')) Q E"
      unfolding prod.case wpE_Inr vo eq using Cons.prems(5) [of "wb # wbs" k'] l by simp
  qed (use Cons.prems in auto)
qed

text \<open>The slots found for the victims, in order.\<close>

definition slot_for :: "(page_ptr \<Rightarrow> user_page) \<Rightarrow> page_ptr \<Rightarrow> page_ptr \<Rightarrow> bool" where
  "slot_for h v d \<longleftrightarrow> \<not> in_dram (h d) \<and> va (h d) = 0 \<and> (has_reserve (h v) \<longrightarrow> reserve (h v) = Some d) \<and>
     (has_reserve (h d) \<longrightarrow> has_reserve (h v) \<and> reserve (h d) = Some v)"

lemma victim_ok_detach:
  assumes "victim_ok s w" "\<And>q. list_p (link fs q) = (if q = d then None else page_list s q)"
    "page_list s d = Some l" "l = Disk_reserve_list \<Longrightarrow> reserve (heap s d) \<noteq> Some w"
  shows "victim_ok (s\<lparr>lists := fs\<rparr>) w"
proof -
  have "backed (s\<lparr>lists := fs\<rparr>) e w" if "backed s e w" for e
    using that assms(2-4) by (cases "e = d") (auto simp: backed_def)
  with assms(1) show ?thesis by (auto simp: victim_ok_def Let_def)
qed

lemma get_slot_wp:
  assumes inv: "pool_inv G s" and v: "v \<in> G" "victim_ok s v" and E: "E No_disk_page"
    and Q: "\<And>d fs. pool_inv (insert d G) (s\<lparr>lists := fs\<rparr>) \<Longrightarrow> d \<notin> G \<Longrightarrow> slot_for (heap s) v d \<Longrightarrow>
      (\<And>w. w \<in> G \<Longrightarrow> w \<noteq> v \<Longrightarrow> victim_ok s w \<Longrightarrow> victim_ok (s\<lparr>lists := fs\<rparr>) w) \<Longrightarrow> Q (d, s\<lparr>lists := fs\<rparr>)"
  shows "wpE (if has_reserve (heap s v) then take_reserve v s
            else bindE (dequeue_fifo Disk_free_list s) (\<lambda>(d, s).
              case d of
                None \<Rightarrow> Inl No_disk_page
              | Some d \<Rightarrow> bindE (assertE (\<not> present (heap s d))) (\<lambda>_. Inr (d, s)))) Q E"
proof (cases "has_reserve (heap s v)")
  case True
  have "wpE (take_reserve v s) Q E"
  proof (rule take_reserve_wp [OF inv v True])
    fix d fs
    assume d: "pool_inv (insert d G) (s\<lparr>lists := fs\<rparr>)" "d \<notin> G" "d < npool s" "\<not> in_dram (heap s d)" "va (heap s d) = 0"
      "reserve (heap s v) = Some d" "reserve (heap s d) = Some v"
      "\<And>q. list_p (link fs q) = (if q = d then None else page_list s q)"
    show "Q (d, s\<lparr>lists := fs\<rparr>)"
    proof (rule Q [OF d(1,2)])
      show "slot_for (heap s) v d" using d True by (simp add: slot_for_def)
      fix w assume w: "w \<noteq> v" "victim_ok s w"
      obtain l where "page_list s d = Some l" using pool_invD(10) [OF inv d(3,2)] by (auto simp: filed_def)
      then show "victim_ok (s\<lparr>lists := fs\<rparr>) w" using victim_ok_detach [OF w(2) d(8)] d(7) w(1) by auto
    qed
  qed
  with True show ?thesis by simp
next
  case False
  have "wpE (dequeue_fifo Disk_free_list s) (\<lambda>r. wpE (case fst r of None \<Rightarrow> Inl No_disk_page
      | Some d \<Rightarrow> bindE (assertE (\<not> present (heap (snd r) d))) (\<lambda>_. Inr (d, snd r))) Q E) E"
  proof (rule dequeue_wp [OF pool_invD(1) [OF inv]])
    fix fs xs d
    assume a: "lists_ok fs" "seq (lists s) Disk_free_list = xs @ [d]" "page_list s d = Some Disk_free_list"
      "\<And>q. list_p (link fs q) = (if q = d then None else page_list s q)"
    note x = pool_inv_listed [OF inv a(3)]
    have "Q (d, s\<lparr>lists := fs\<rparr>)"
    proof (rule Q)
      show "pool_inv (insert d G) (s\<lparr>lists := fs\<rparr>)" by (rule pool_inv_take [OF inv a(3) _ a(1,4)]) simp
      show "slot_for (heap s) v d" using x(3) False by (auto simp: slot_for_def fits_def Let_def)
      show "victim_ok (s\<lparr>lists := fs\<rparr>) w" if "victim_ok s w" for w
        by (rule victim_ok_detach [OF that a(4,3)]) simp
    qed (rule x)
    then show "wpE (case fst (Some d, s\<lparr>lists := fs\<rparr>) of None \<Rightarrow> Inl No_disk_page
      | Some d' \<Rightarrow> bindE (assertE (\<not> present (heap (snd (Some d, s\<lparr>lists := fs\<rparr>)) d'))) (\<lambda>_. Inr (d', snd (Some d, s\<lparr>lists := fs\<rparr>)))) Q E"
      using pool_invD(5) [OF inv x(1)] by (simp add: wp_simps)
  qed (use E in \<open>simp add: wp_simps\<close>)
  with False show ?thesis by (simp add: wp_simps case_prod_beta)
qed

lemma get_diskpages_wp:
  assumes "pool_inv G s" "set vs \<subseteq> G" "distinct vs" "\<forall>v \<in> set vs. victim_ok s v" and E: "E No_disk_page"
    and Q: "\<And>ds fs. pool_inv (set ds \<union> G) (s\<lparr>lists := fs\<rparr>) \<Longrightarrow> set ds \<inter> G = {} \<Longrightarrow> distinct ds \<Longrightarrow>
      list_all2 (slot_for (heap s)) vs ds \<Longrightarrow> Q (ds, s\<lparr>lists := fs\<rparr>)"
  shows "wpE (get_diskpages vs s) Q E"
  using assms(1-4) Q
proof (induction vs arbitrary: s G Q)
  case Nil
  then show ?case using Nil.prems(5) [of "[]" "lists s"] by (simp add: wp_simps)
next
  case (Cons v vs)
  show ?case unfolding get_diskpages.simps wpE_bindE [of "if _ then _ else _"]
  proof (rule get_slot_wp [where E = E and G = G, OF Cons.prems(1) _ _ E])
    fix d fs
    assume d: "pool_inv (insert d G) (s\<lparr>lists := fs\<rparr>)" "d \<notin> G" "slot_for (heap s) v d"
      "\<And>w. w \<in> G \<Longrightarrow> w \<noteq> v \<Longrightarrow> victim_ok s w \<Longrightarrow> victim_ok (s\<lparr>lists := fs\<rparr>) w"
    have "wpE (get_diskpages vs (s\<lparr>lists := fs\<rparr>)) (\<lambda>r. Q (d # fst r, snd r)) E"
    proof (rule Cons.IH [OF d(1)])
      show "\<forall>w \<in> set vs. victim_ok (s\<lparr>lists := fs\<rparr>) w"
        by (intro ballI d(4)) (use Cons.prems in auto)
      fix ds fs'
      assume "pool_inv (set ds \<union> insert d G) (s\<lparr>lists := fs, lists := fs'\<rparr>)" "set ds \<inter> insert d G = {}" "distinct ds"
        "list_all2 (slot_for (heap (s\<lparr>lists := fs\<rparr>))) vs ds"
      then show "Q (d # fst (ds, s\<lparr>lists := fs, lists := fs'\<rparr>), snd (ds, s\<lparr>lists := fs, lists := fs'\<rparr>))"
        using Cons.prems(5) [of "d # ds" fs'] d(2,3) by auto
    qed (use Cons.prems in auto)
    then show "wpE (case (d, s\<lparr>lists := fs\<rparr>) of (d, s) \<Rightarrow> bindE (get_diskpages vs s) (\<lambda>(ds, s). Inr (d # ds, s))) Q E"
      by (simp add: wp_simps case_prod_beta)
  qed (use Cons.prems in auto)
qed

section \<open>Filing the batch\<close>

text \<open>The descriptors \<open>g\<close> are those after the pair \<open>v\<close>, \<open>d\<close> has been filed in \<open>s\<close>.\<close>

definition files_to :: "'k ext \<Rightarrow> (page_ptr \<Rightarrow> user_page) \<Rightarrow> page_ptr \<times> page_ptr \<times> u64 \<Rightarrow> bool" where
  "files_to s g x \<longleftrightarrow> (case x of (v, d, off) \<Rightarrow> let b = has_reserve (heap s v);
       c = (\<lambda>h. if b then h\<lparr>has_reserve := False, reserve := None\<rparr> else h) in
     migrating (heap s v) \<and> swapped_out (heap s v) \<and> \<not> present (heap s d) \<and>
     fits (s\<lparr>heap := g\<rparr>) Disk_active_list v \<and> fits (s\<lparr>heap := g\<rparr>) Dram_free_list d \<and>
     g v = (c (heap s v))\<lparr>migrating := False, swapped_out := True\<rparr> \<and>
     g d = c ((heap s d)\<lparr>virtual_offset := off, in_dram := True, present := False\<rparr>))"

lemma files_to_cong:
  "heap s' v = heap s v \<Longrightarrow> heap s' d = heap s d \<Longrightarrow> files_to s' g (v, d, off) = files_to s g (v, d, off)"
  unfolding files_to_def fits_upd prod.case by (simp only:)

lemma clear_reserves_upd [simp]:
  "(clear_reserves d v s)\<lparr>heap := g\<rparr> = s\<lparr>heap := g\<rparr>"
  "(clear_reserves d v s)\<lparr>lists := fs\<rparr> = clear_reserves d v (s\<lparr>lists := fs\<rparr>)"
  by (simp_all add: clear_reserves_def upd_page_def)

lemma file_victim_wp:
  assumes inv: "pool_inv G (s\<lparr>heap := g\<rparr>)" and G: "v \<in> G" "d \<in> G" "v \<noteq> d" and f: "files_to s g (v, d, off)"
    and Q: "\<And>fs. pool_inv (G - {v, d}) (s\<lparr>lists := fs, heap := g\<rparr>) \<Longrightarrow>
      Q (s\<lparr>lists := fs, heap := (heap s)(v := g v, d := g d)\<rparr>)"
  shows "wpE (file_victim v d off s) Q E"
proof -
  have fit: "fits (s\<lparr>heap := g\<rparr>) Disk_active_list v" "fits (s\<lparr>heap := g\<rparr>) Dram_free_list d"
    and fl: "migrating (heap s v)" "swapped_out (heap s v)" "\<not> present (heap s d)"
    using f by (auto simp: files_to_def Let_def)
  have S: "G - {v} - {d} = G - {v, d}" "G - {d} - {v} = G - {v, d}" by auto
  show ?thesis
  proof (cases "has_reserve (heap s v)")
    case True
    let ?s = "clear_reserves d v (take_frame d off s)"
    have gv: "g v = (heap s v)\<lparr>has_reserve := False, reserve := None, migrating := False, swapped_out := True\<rparr>"
      "g d = (heap s d)\<lparr>virtual_offset := off, in_dram := True, present := False, has_reserve := False, reserve := None\<rparr>"
      using f True by (auto simp: files_to_def Let_def)
    have "wpE (enqueue_fifo Dram_free_list d ?s) (\<lambda>s. wpE (enqueue_fifo Disk_active_list v s) (\<lambda>s. wpE (release_victim v s) Q E) E) E"
    proof (rule enq_frame [where g = g and G = G])
      fix fs assume "pool_inv (G - {d}) (?s\<lparr>lists := fs, heap := g\<rparr>)"
      then have 1: "pool_inv (G - {d}) (?s\<lparr>lists := fs\<rparr>\<lparr>heap := g\<rparr>)" by simp
      show "wpE (enqueue_fifo Disk_active_list v (?s\<lparr>lists := fs\<rparr>)) (\<lambda>s. wpE (release_victim v s) Q E) E"
      proof (rule enq_frame [OF 1])
        fix fs' assume 2: "pool_inv (G - {d} - {v}) (?s\<lparr>lists := fs, lists := fs', heap := g\<rparr>)"
        have "upd_page v (\<lambda>h. h\<lparr>migrating := False, swapped_out := True\<rparr>) (?s\<lparr>lists := fs'\<rparr>) =
            s\<lparr>lists := fs', heap := (heap s)(v := g v, d := g d)\<rparr>"
          using G(3) by (simp add: gv upd_page_def take_frame_def clear_reserves_def fun_upd_twist)
        then show "wpE (release_victim v (?s\<lparr>lists := fs, lists := fs'\<rparr>)) Q E"
          using Q [of fs'] 2 fl G(3) S by (simp add: release_victim_def wp_simps)
      qed (use G fit in \<open>auto simp: fits_upd\<close>)
    qed (use inv G fit in auto)
    then show ?thesis using True by (simp add: file_victim_def wp_simps)
  next
    case False
    have gv: "g v = (heap s v)\<lparr>migrating := False, swapped_out := True\<rparr>"
      "g d = (heap s d)\<lparr>virtual_offset := off, in_dram := True, present := False\<rparr>"
      using f False by (auto simp: files_to_def Let_def)
    have "wpE (enqueue_fifo Disk_active_list v s) (\<lambda>s. wpE (enqueue_fifo Dram_free_list d (take_frame d off s))
        (\<lambda>s. wpE (release_victim v s) Q E) E) E"
    proof (rule enq_frame [OF inv G(1) fit(1)])
      fix fs assume 1: "pool_inv (G - {v}) (s\<lparr>lists := fs, heap := g\<rparr>)"
      show "wpE (enqueue_fifo Dram_free_list d (take_frame d off (s\<lparr>lists := fs\<rparr>))) (\<lambda>s. wpE (release_victim v s) Q E) E"
      proof (rule enq_frame [where g = g and G = "G - {v}"])
        fix fs' assume 2: "pool_inv (G - {v} - {d}) (take_frame d off (s\<lparr>lists := fs\<rparr>)\<lparr>lists := fs', heap := g\<rparr>)"
        have "upd_page v (\<lambda>h. h\<lparr>migrating := False, swapped_out := True\<rparr>) (take_frame d off (s\<lparr>lists := fs'\<rparr>)) =
            s\<lparr>lists := fs', heap := (heap s)(v := g v, d := g d)\<rparr>"
          using G(3) by (simp add: gv upd_page_def take_frame_def fun_upd_twist)
        then show "wpE (release_victim v (take_frame d off (s\<lparr>lists := fs\<rparr>)\<lparr>lists := fs'\<rparr>)) Q E"
          using Q [of fs'] 2 fl G(3) S by (simp add: release_victim_def wp_simps)
      qed (use 1 G fit in \<open>auto simp: fits_upd\<close>)
    qed
    then show ?thesis using False fl by (simp add: file_victim_def wp_simps)
  qed
qed

lemma file_victims_wp:
  assumes "pool_inv (set (map fst xs) \<union> set (map (fst \<circ> snd) xs) \<union> F) (s\<lparr>heap := g\<rparr>)"
    "distinct (map fst xs @ map (fst \<circ> snd) xs)" "(set (map fst xs) \<union> set (map (fst \<circ> snd) xs)) \<inter> F = {}"
    "\<forall>x \<in> set xs. files_to s g x" "\<And>q. q \<notin> set (map fst xs) \<union> set (map (fst \<circ> snd) xs) \<Longrightarrow> heap s q = g q"
    and Q: "\<And>fs. pool_inv F (s\<lparr>lists := fs, heap := g\<rparr>) \<Longrightarrow> Q (s\<lparr>lists := fs, heap := g\<rparr>)"
  shows "wpE (file_victims xs s) Q E"
  using assms
proof (induction xs arbitrary: s)
  case Nil
  then have "heap s = g" by auto
  then show ?case using Nil.prems(6) [of "lists s"] Nil.prems(1) by (auto simp: wp_simps)
next
  case (Cons x xs)
  obtain v d off where x: "x = (v, d, off)" by (cases x)
  let ?G = "set (map fst (x # xs)) \<union> set (map (fst \<circ> snd) (x # xs)) \<union> F"
  have vd: "v \<in> ?G" "d \<in> ?G" "v \<noteq> d" using x Cons.prems(2) by auto
  have rest: "?G - {v, d} = set (map fst xs) \<union> set (map (fst \<circ> snd) xs) \<union> F"
    using Cons.prems(2,3) x by auto
  show ?case unfolding x file_victims.simps wpE_bindE
  proof (rule file_victim_wp [OF Cons.prems(1) vd])
    show "files_to s g (v, d, off)" using Cons.prems(4) x by simp
    fix fs assume i: "pool_inv (?G - {v, d}) (s\<lparr>lists := fs, heap := g\<rparr>)"
    let ?s = "s\<lparr>lists := fs, heap := (heap s)(v := g v, d := g d)\<rparr>"
    show "wpE (file_victims xs ?s) Q E"
    proof (rule Cons.IH)
      show "pool_inv (set (map fst xs) \<union> set (map (fst \<circ> snd) xs) \<union> F) (?s\<lparr>heap := g\<rparr>)"
        using i unfolding rest by simp
      show "\<forall>y \<in> set xs. files_to ?s g y"
      proof
        fix y assume y: "y \<in> set xs"
        obtain v' d' off' where y': "y = (v', d', off')" by (cases y)
        have "v' \<in> set (map fst xs)" "d' \<in> set (map (fst \<circ> snd) xs)" using y y' by force+
        then have "v' \<noteq> v" "v' \<noteq> d" "d' \<noteq> v" "d' \<noteq> d" using Cons.prems(2) x by auto
        moreover have "files_to s g y" using Cons.prems(4) y by simp
        ultimately show "files_to ?s g y" using files_to_cong [of ?s v' s d' g off'] y' by simp
      qed
      show "\<And>fs'. pool_inv F (?s\<lparr>lists := fs', heap := g\<rparr>) \<Longrightarrow> Q (?s\<lparr>lists := fs', heap := g\<rparr>)"
        using Cons.prems(6) by simp
    qed (use Cons.prems(2,3,5) x in auto)
  qed
qed

section \<open>The vector worker\<close>

lemma zip_fst_eq: "length xs = length ys \<Longrightarrow> map fst (zip xs ys) = xs"
  by simp

lemma batch_pairs:
  assumes "list_all2 (slot_for h) vs ds" "\<forall>v \<in> set vs. in_dram (h v) \<and> \<not> swapped_out (h v) \<and> va (h v) \<noteq> 0 \<and> page_aligned (va (h v))"
  shows "\<forall>p \<in> set (zip vs ds). pair_ok h p"
  using assms by (auto simp: list_all2_iff pair_ok_def slot_for_def dest: set_zip_leftD)

lemma exchange_pres:
  assumes "distinct (members ps)" "\<forall>p \<in> set ps. pair_ok (heap s) p" "env s s'" "heap s' = exchange ps (heap s)"
    "set (members ps) \<inter> F = {}" "set (members ps) \<subseteq> {..<npool s}"
  shows "pres F s s'"
proof -
  have "va (exchange ps (heap s) q) = va (heap s q)" for q
  proof (cases "q \<in> set (members ps)")
    case True
    then obtain v d where vd: "(v, d) \<in> set ps" "q = v \<or> q = d" by auto
    then show ?thesis using exchange_pair [OF assms(1) vd(1), of "heap s"] by (auto simp: vic_def fre_def Let_def)
  qed (simp add: exchange_other)
  moreover have "exchange ps (heap s) q = heap s q" if "q \<in> F \<or> npool s \<le> q" for q
    using that assms(5,6) by (intro exchange_other) auto
  ultimately show ?thesis using assms(3,4) by (simp add: pres_def)
qed

text \<open>After the migration of the batch each pair files to its exchanged descriptors.\<close>

lemma batch_files_to:
  assumes "length ds = length vs" "length wbs = length vs" "distinct (vs @ ds)"
    and mig: "\<forall>v \<in> set vs. migrating (h v)" and pre: "\<forall>d \<in> set ds. \<not> present (h d)"
    and fit: "\<forall>(v, d) \<in> set (zip vs ds). fits (s\<lparr>heap := exchange (zip vs ds) h\<rparr>) Disk_active_list v \<and>
      fits (s\<lparr>heap := exchange (zip vs ds) h\<rparr>) Dram_free_list d"
    and hs: "\<And>q. heap s q = (case target_of (zip vs (zip ds wbs)) q of None \<Rightarrow> h q
      | Some d \<Rightarrow> (placed (virtual_offset (h d)) False (h q))\<lparr>swapped_out := True\<rparr>)"
  shows "\<forall>x \<in> set (zip vs (zip ds (map (\<lambda>v. virtual_offset (h v)) vs))). files_to s (exchange (zip vs ds) h) x"
proof
  fix x assume x: "x \<in> set (zip vs (zip ds (map (\<lambda>v. virtual_offset (h v)) vs)))"
  then obtain i where i: "i < length vs" "x = (vs ! i, ds ! i, virtual_offset (h (vs ! i)))"
    using assms(1) by (auto simp: set_zip)
  have m: "(vs ! i, ds ! i) \<in> set (zip vs ds)" using i assms(1) by (auto simp: set_zip)
  have "members (zip vs ds) = vs @ ds" using assms(1) by simp
  then have e: "exchange (zip vs ds) h (vs ! i) = vic h (vs ! i) (ds ! i)" "exchange (zip vs ds) h (ds ! i) = fre h (vs ! i) (ds ! i)"
    using exchange_pair [OF _ m, of h] assms(3) by auto
  have t: "map (\<lambda>(p, d, _). (p, d)) (zip vs (zip ds wbs)) = zip vs ds"
    using assms(1,2) by (auto intro!: nth_equalityI)
  then have "target_of (zip vs (zip ds wbs)) (vs ! i) = Some (ds ! i)"
    unfolding target_of_def using m assms(1,3) by (simp add: map_of_zip_nth i)
  moreover have "ds ! i \<notin> set vs" using assms(1,3) i nth_mem [of i ds] by auto
  then have "target_of (zip vs (zip ds wbs)) (ds ! i) = None"
    unfolding target_of_def t by (auto simp: map_of_eq_None_iff dest: set_zip_leftD)
  ultimately show "files_to s (exchange (zip vs ds) h) x"
    unfolding i(2) files_to_def prod.case Let_def e hs
    using fit m mig pre i assms(1) by (auto simp: vic_def fre_def Let_def)
qed

lemma protected_inv:
  assumes "pool_inv G s" "A \<subseteq> G"
  shows "pool_inv G (s\<lparr>heap := protected A (heap s)\<rparr>)"
proof (rule pool_inv_heap [OF assms(1)])
  have "(\<lambda>p. (in_dram (protected A (heap s) p), virtual_offset (protected A (heap s) p))) = frame s"
    by (auto simp: protected_def frame_def)
  then show "bij_betw (\<lambda>p. (in_dram (protected A (heap s) p), virtual_offset (protected A (heap s) p)))
      {..<npool s} (all_frames s)" using pool_invD(9) [OF assms(1)] by simp
qed (use assms pool_invD(4-6) [OF assms(1)] in \<open>auto simp: protected_def\<close>)

lemma protected_pres:
  assumes "A \<inter> F = {}" "A \<subseteq> {..<npool s}"
  shows "pres F s (s\<lparr>heap := protected A (heap s), kst := k\<rparr>)"
proof -
  have "q \<notin> A" if "q \<in> F \<or> npool s \<le> q" for q using that assms by auto
  then show ?thesis by (simp add: pres_def protected_def)
qed

text \<open>
  A batch that has been protected and whose slots are in hand: the victims, the descriptors of their slots and
  whether their contents have to be written.
\<close>

definition batch_ready :: "page_ptr set \<Rightarrow> 'k ext \<Rightarrow> page_ptr list \<Rightarrow> page_ptr list \<Rightarrow> bool list \<Rightarrow> bool" where
  "batch_ready F s vs ds wbs \<longleftrightarrow> pool_inv (set ds \<union> (set vs \<union> F)) s \<and> length wbs = length vs \<and>
     distinct vs \<and> distinct ds \<and> set ds \<inter> (set vs \<union> F) = {} \<and> set vs \<inter> F = {} \<and> list_all2 (slot_for (heap s)) vs ds \<and>
     (\<forall>v \<in> set vs. in_dram (heap s v) \<and> \<not> swapped_out (heap s v) \<and> va (heap s v) \<noteq> 0 \<and>
       page_aligned (va (heap s v)) \<and> migrating (heap s v))"

lemma batch_readyD:
  assumes "batch_ready F s vs ds wbs"
  shows "pool_inv (set ds \<union> (set vs \<union> F)) s" "length wbs = length vs" "length ds = length vs"
    "distinct vs" "distinct ds" "set ds \<inter> (set vs \<union> F) = {}" "set vs \<inter> F = {}" "list_all2 (slot_for (heap s)) vs ds"
    "\<And>v. v \<in> set vs \<Longrightarrow> in_dram (heap s v) \<and> \<not> swapped_out (heap s v) \<and> va (heap s v) \<noteq> 0 \<and>
       page_aligned (va (heap s v)) \<and> migrating (heap s v)" "\<forall>p \<in> set (zip vs ds). pair_ok (heap s) p"
  using assms batch_pairs [of "heap s" vs ds] by (auto simp: batch_ready_def list_all2_lengthD)

lemma evict_batch_wp:
  assumes b: "batch_ready F s vs ds wbs" and E: "E Kernel_failed"
  shows "wpE (bindE (extmem_migrate_downdisk_vector K (zip vs (zip ds wbs)) s)
     (file_victims (zip vs (zip ds (map (\<lambda>v. virtual_offset (heap s v)) vs)))))
     (\<lambda>s'. pool_inv F s' \<and> pres F s s' \<and> heap s' = exchange (zip vs ds) (heap s)) E"
proof -
  let ?G = "set ds \<union> (set vs \<union> F)" and ?ps = "zip vs ds" and ?g = "exchange (zip vs ds) (heap s)"
  let ?os = "map (\<lambda>v. virtual_offset (heap s v)) vs"
  note inv = batch_readyD(1) [OF b] and len = batch_readyD(2) [OF b] and l = batch_readyD(3) [OF b] and dist = batch_readyD(4-7) [OF b]
    and vic = batch_readyD(9) [OF b] and pk = batch_readyD(10) [OF b]
  have mem: "members ?ps = vs @ ds" using l by simp
  have d: "distinct (members ?ps)" "set (members ?ps) \<subseteq> ?G" "set (members ?ps) \<inter> F = {}"
    "set (members ?ps) \<subseteq> {..<npool s}"
    unfolding mem using dist pool_invD(6) [OF inv] by auto
  have x: "pool_inv ?G (s\<lparr>heap := ?g\<rparr>)" "\<forall>(v, d) \<in> set ?ps. fits (s\<lparr>heap := ?g\<rparr>) Disk_active_list v \<and>
      fits (s\<lparr>heap := ?g\<rparr>) Dram_free_list d"
    using exchange_inv [where G = ?G and s = s and h = "heap s" and ps = ?ps] inv d pk by auto
  have vt: "victims (zip vs (zip ds wbs)) = vs" "targets (zip vs (zip ds wbs)) = ds"
    using l len by (auto intro!: nth_equalityI)
  have xs: "map fst (zip vs (zip ds ?os)) = vs" "map (fst \<circ> snd) (zip vs (zip ds ?os)) = ds"
    using l by (auto intro!: nth_equalityI)
  show ?thesis unfolding wpE_bindE
  proof (rule downdisk_vector_wp)
    fix s'
    assume s': "\<And>q. heap s' q = (case target_of (zip vs (zip ds wbs)) q of None \<Rightarrow> heap s q
        | Some d \<Rightarrow> (placed (virtual_offset (heap s d)) False (heap s q))\<lparr>swapped_out := True\<rparr>)"
      "lists s' = lists s" "env s s'"
    show "wpE (file_victims (zip vs (zip ds ?os)) s') (\<lambda>s'. pool_inv F s' \<and> pres F s s' \<and> heap s' = ?g) E"
    proof (rule file_victims_wp [where g = ?g and F = F], unfold xs)
      show "pool_inv (set vs \<union> set ds \<union> F) (s'\<lparr>heap := ?g\<rparr>)"
        using x(1) pool_inv_env [OF s'(3,2)] by (simp add: Un_ac)
      have "\<forall>(v, d) \<in> set ?ps. fits (s'\<lparr>heap := ?g\<rparr>) Disk_active_list v \<and> fits (s'\<lparr>heap := ?g\<rparr>) Dram_free_list d"
        using x(2) fits_env [OF s'(3,2)] by auto
      then show "\<forall>x \<in> set (zip vs (zip ds ?os)). files_to s' ?g x"
        by (intro batch_files_to [OF l len _ _ _ _ s'(1)])
           (use dist vic pool_invD(5,6) [OF inv] in auto)
      show "heap s' q = ?g q" if "q \<notin> set vs \<union> set ds" for q
        using that exchange_other [of q ?ps "heap s"] target_of_None [of "zip vs (zip ds wbs)" q] mem vt
        by (auto simp: s'(1) split: option.split)
      fix fs assume "pool_inv F (s'\<lparr>lists := fs, heap := ?g\<rparr>)"
      moreover have "pres F s (s'\<lparr>lists := fs, heap := ?g\<rparr>)"
        by (rule exchange_pres [OF d(1) pk]) (use s' d in auto)
      ultimately show "pool_inv F (s'\<lparr>lists := fs, heap := ?g\<rparr>) \<and> pres F s (s'\<lparr>lists := fs, heap := ?g\<rparr>) \<and>
          heap (s'\<lparr>lists := fs, heap := ?g\<rparr>) = ?g" by simp
    qed (use dist in auto)
  qed (use vt dist vic E pool_invD(2) [OF inv] in auto)
qed

text \<open>
  A turn of the worker up to the migration: \<open>B\<close> is asked of the batch and of the state in which it is ready.
\<close>

lemma protected_ready:
  assumes inv: "pool_inv (set vs \<union> F) s" and vs: "distinct vs" "set vs \<inter> F = {}" "\<forall>v \<in> set vs. victim_ok s v" and E: "E No_disk_page"
    and wbs: "length wbs = length vs"
    and Q: "\<And>ds fs. batch_ready F (s\<lparr>heap := protected (set vs) (heap s), kst := k, lists := fs\<rparr>) vs ds wbs \<Longrightarrow>
      Q (ds, s\<lparr>heap := protected (set vs) (heap s), kst := k, lists := fs\<rparr>)"
  shows "wpE (get_diskpages vs (s\<lparr>heap := protected (set vs) (heap s), kst := k\<rparr>)) Q E"
proof -
  let ?s = "s\<lparr>heap := protected (set vs) (heap s), kst := k\<rparr>"
  have i: "pool_inv (set vs \<union> F) ?s" using protected_inv [OF inv, of "set vs"] by simp
  have vo: "\<forall>v \<in> set vs. victim_ok ?s v" using vs(3) by (simp add: victim_ok_def Let_def protected_def backed_def)
  show ?thesis
    by (rule get_diskpages_wp [where E = E, OF i _ vs(1) vo E], simp, rule Q)
       (use vs vo wbs in \<open>auto simp: batch_ready_def victim_ok_def Let_def protected_def\<close>)
qed

lemma vector_turn_wp:
  assumes inv: "pool_inv F s" and E: "E Kernel_failed" "E No_disk_page"
    and N: "\<And>fs. pool_inv F (s\<lparr>lists := fs\<rparr>) \<Longrightarrow> Q (s\<lparr>lists := fs\<rparr>)"
    and B: "\<And>vs fs wbs k ds fs'. let s' = s\<lparr>lists := fs, heap := protected (set vs) (heap s), kst := k\<rparr>;
        offs = map (\<lambda>v. virtual_offset (heap s v)) vs; s'' = s'\<lparr>lists := fs'\<rparr> in
      protect_victims K vs (s\<lparr>lists := fs\<rparr>) = Inr (zip offs wbs, s') \<longrightarrow> batch_ready F s'' vs ds wbs \<longrightarrow> pres F s s'' \<longrightarrow>
      wpE (bindE (extmem_migrate_downdisk_vector K (zip vs (zip ds wbs)) s'') (file_victims (zip vs (zip ds offs)))) Q E"
  shows "wpE (bindE (dequeue_fifo_vector Eviction_list EVICT_VECTOR_SIZE s) (\<lambda>(vs, s).
     if vs = [] then Inr s
     else
       bindE (protect_victims K vs s) (\<lambda>(ows, s).
       bindE (get_diskpages vs s) (\<lambda>(ds, s).
       bindE (extmem_migrate_downdisk_vector K (zip vs (zip ds (map snd ows))) s) (\<lambda>s.
       file_victims (zip vs (zip ds (map fst ows))) s))))) Q E"
proof -
  let ?vs = "take EVICT_VECTOR_SIZE (rev (seq (lists s) Eviction_list))"
  have ok: "lists_ok (lists s)" using pool_invD(1) [OF inv] by (simp add: queues_free_def)
  have vs: "distinct ?vs" "\<forall>v \<in> set ?vs. page_list s v = Some Eviction_list"
  proof -
    show "distinct ?vs" using lists_ok_distinct [OF ok, of Eviction_list] by simp
    have "set ?vs \<subseteq> set (seq (lists s) Eviction_list)" using set_take_subset [of _ "rev (seq (lists s) Eviction_list)"] by auto
    then show "\<forall>v \<in> set ?vs. page_list s v = Some Eviction_list" using lists_ok_mem [OF ok] by blast
  qed
  show ?thesis unfolding wpE_bindE [of "dequeue_fifo_vector _ _ _"] wpE_case_prod
  proof (rule dequeue_vector_wp [OF pool_invD(1) [OF inv]], unfold fst_conv snd_conv wpE_if, intro conjI impI, goal_cases)
    case (1 fs)
    have "pool_inv (set ?vs \<union> F) (s\<lparr>lists := fs\<rparr>)" by (rule pool_inv_take_set(1) [OF inv vs(2) _ 1(1,3)]) simp
    then show ?case using N 1(4) by (simp add: wp_simps)
  next
    case (2 fs)
    let ?s1 = "s\<lparr>lists := fs\<rparr>" and ?offs = "map (\<lambda>v. virtual_offset (heap s v)) ?vs"
    note t = pool_inv_take_set [OF inv vs(2) _ 2(1,3)]
    have inv1: "pool_inv (set ?vs \<union> F) ?s1" by (rule t(1)) simp
    have vF: "set ?vs \<inter> F = {}" using vs(2) pool_inv_listed(2) [OF inv] by auto
    have vo: "\<forall>v \<in> set ?vs. victim_ok ?s1 v" using t(2) by (auto simp: fits_resident intro!: resident_victim)
    show ?case unfolding wpE_bindE [of "protect_victims _ _ _"] wpE_case_prod
    proof (rule wpE_remember, rule protect_victims_wp [where E = E, OF inv1 _ vs(1) vo E(1)], simp, intro impI, goal_cases)
      case (1 wbs k)
      let ?s2 = "?s1\<lparr>heap := protected (set ?vs) (heap ?s1), kst := k\<rparr>"
      have ow: "map fst (zip ?offs wbs) = ?offs" "map snd (zip ?offs wbs) = wbs" using 1(1) by simp_all
      have p: "pres F s ?s2" using protected_pres [OF vF, of ?s1 k] pool_invD(6) [OF inv1] by (auto simp: pres_def)
      show ?case unfolding fst_conv snd_conv wpE_bindE [of "get_diskpages _ _"] wpE_case_prod
      proof (rule protected_ready [where E = E, OF inv1 vs(1) vF vo E(2) 1(1)], goal_cases)
        case (1 ds fs')
        have "pres F s (?s2\<lparr>lists := fs'\<rparr>)" using p by (simp only: pres_upd(1))
        with B [where vs = ?vs and fs = fs and k = k and fs' = fs' and wbs = wbs and ds = ds] 1 \<open>protect_victims K ?vs ?s1 = _\<close> show ?case
          unfolding Let_def fst_conv snd_conv ow [simplified] by (simp add: ow)
      qed
    qed
  qed
qed

lemma evictionworker_vector_wp:
  assumes inv: "pool_inv F s" and E: "E Kernel_failed" "E No_disk_page"
  shows "wpE (lrudisk_evictionworker_vector K s) (\<lambda>s'. pool_inv F s' \<and> pres F s s') E"
proof -
  let ?s = "upd_me (\<lambda>t. t\<lparr>internal_call := True\<rparr>) s"
  have i: "pool_inv F ?s" "pres F s ?s" using inv by (auto simp: pres_def env_def upd_me_def tls_le_upd)
  show ?thesis unfolding lrudisk_evictionworker_vector_def wpE_Let
  proof (rule vector_turn_wp [OF i(1) E], goal_cases)
    case 1
    then show ?case using i(2) by simp
  next
    case (2 vs fs wbs k ds fs')
    show ?case unfolding Let_def
    proof (intro impI, goal_cases)
      case 1
      show ?case using wpE_mono [OF evict_batch_wp [where E = E, OF 1(2) E(1)]] pres_trans [OF pres_trans [OF i(2) 1(3)]] by simp
    qed
  qed
qed

end
