(* ===== verification/Core_Map.thy ===== *)
theory Core_Map
  imports Core_Faults
begin

text \<open>
  \<open>extmem_mmap\<close>, \<open>extmem_munmap\<close>, \<open>extmem_init\<close> and the statistics of \<open>core.c\<close>.
\<close>

section \<open>mmap\<close>

definition PAGE_ROUND_UP :: "u64 \<Rightarrow> u64" where
  "PAGE_ROUND_UP x = (x + PAGE_SIZE - 1) AND NOT (PAGE_SIZE - 1)"

text \<open>
  The loop of \<open>extmem_mmap_populate\<close>. An address that wraps around is below the end again, so the
  loop goes on at the bottom of the address space: its next iteration runs, and if that returns the
  loop has no end.
\<close>

function populate_loop :: "'k kernel \<Rightarrow> 'k policy \<Rightarrow> u64 \<Rightarrow> u64 \<Rightarrow> 'k ext \<Rightarrow> c_error + 'k ext" where
  "populate_loop K P page_boundry end_addr s =
     (if page_boundry < end_addr then
        bindE (handle_first_fault K P page_boundry s) (\<lambda>s.
        let next = page_boundry + PAGE_SIZE in
        if page_boundry < next then populate_loop K P next end_addr s
        else bindE (handle_first_fault K P next s) (\<lambda>_. Inl Spin))
      else Inr s)"
  by pat_completeness auto
termination
  by (relation "measure (\<lambda>(_, _, b, e, _). unat e - unat b)") (auto simp: word_less_nat_alt)

definition extmem_mmap_populate :: "'k kernel \<Rightarrow> 'k policy \<Rightarrow> u64 \<Rightarrow> u64 \<Rightarrow> 'k ext \<Rightarrow> c_error + 'k ext" where
  "extmem_mmap_populate K P addr len s =
     bindE (assertE (addr \<noteq> 0)) (\<lambda>_.
     bindE (assertE (len \<noteq> 0)) (\<lambda>_.
     populate_loop K P addr (addr + len) s))"

text \<open>How the requested flags are rewritten; the second component is \<open>need_populate\<close>.\<close>

definition mmap_flags :: "u32 \<Rightarrow> u32 \<times> bool" where
  "mmap_flags flags =
     (let flags = (if flags AND MAP_SHARED = MAP_SHARED
                   then (flags AND NOT MAP_SHARED) OR MAP_PRIVATE else flags);
          flags = flags OR MAP_NORESERVE;
          flags = flags OR MAP_ANONYMOUS;
          (flags, need_populate) = (if flags AND MAP_POPULATE = MAP_POPULATE
                   then (flags AND NOT MAP_POPULATE, True) else (flags, False));
          flags = (if flags AND MAP_HUGETLB = MAP_HUGETLB then flags AND NOT MAP_HUGETLB else flags)
      in (flags, need_populate))"

definition extmem_mmap ::
  "'k kernel \<Rightarrow> 'k policy \<Rightarrow> u64 \<Rightarrow> u64 \<Rightarrow> u32 \<Rightarrow> u32 \<Rightarrow> u64 \<Rightarrow> 'k ext \<Rightarrow> c_error + u64 \<times> 'k ext" where
  "extmem_mmap K P addr len prot flags offset s =
     (let s = set_internal True s in
     bindE (assertE (is_init s)) (\<lambda>_.
     bindE (assertE (len \<noteq> 0)) (\<lambda>_.
     let (flags, need_populate) = mmap_flags flags;
         len = PAGE_ROUND_UP len in
     case k_mmap K addr len prot flags offset (kst s) of
       (None, k) \<Rightarrow> Inl Kernel_failed
     | (Some p, k) \<Rightarrow>
         if p = 0 then Inl Kernel_failed
         else
           let s = s\<lparr>kst := k, main_mmap := p\<rparr> in
           bindE (kcall (k_uffd_register K p len) s) (\<lambda>s.
           bindE (if need_populate then extmem_mmap_populate K P p len s else Inr s) (\<lambda>s.
           let s = count (\<lambda>c. c\<lparr>mem_mmaped := len\<rparr>) s;
               s = policy_ack_vma P p len 0 s in
           Inr (p, set_internal False s))))))"

section \<open>munmap\<close>

text \<open>What is done for one tracked page of the region.\<close>

definition munmap_page :: "'k policy \<Rightarrow> page_ptr \<Rightarrow> 'k ext \<Rightarrow> c_error + 'k ext" where
  "munmap_page P page s =
     bindE (lock Handler_lock s) (\<lambda>s.
     bindE (if migrating (heap s page) then
              let s = unlock Handler_lock s in
              bindE (busy_wait page s) (\<lambda>s. lock Handler_lock s)
            else Inr s) (\<lambda>s.
     let s = upd_page page (\<lambda>h. h\<lparr>migrating := True\<rparr>) s;
         s = unlock Handler_lock s in
     bindE (remove_page page s) (\<lambda>s.
     bindE (mmgr_remove P page s) (\<lambda>s.
     let pagesize = pt_to_pagesize (pt (heap s page)) in
     Inr (count (\<lambda>c. c\<lparr>mem_allocated := mem_allocated c - pagesize,
            mem_mmaped := mem_mmaped c - pagesize, pages_freed := pages_freed c + 1\<rparr>) s)))))"

text \<open>
  The loop over the region. As in \<open>populate_loop\<close> an address that wraps around stays below the end,
  and the loop never ends.
\<close>

function munmap_loop :: "'k policy \<Rightarrow> u64 \<Rightarrow> u64 \<Rightarrow> 'k ext \<Rightarrow> c_error + 'k ext" where
  "munmap_loop P page_boundry end_addr s =
     (if page_boundry < end_addr then
        bindE (find_page page_boundry s) (\<lambda>(page, s).
        bindE (case page of
                 Some page \<Rightarrow> bindE (munmap_page P page s) (\<lambda>s.
                   Inr (page_boundry + pt_to_pagesize (pt (heap s page)), s))
               | None \<Rightarrow> Inr (page_boundry + BASEPAGE_SIZE, s)) (\<lambda>(next, s).
        if page_boundry < next then munmap_loop P next end_addr s else Inl Spin))
      else Inr s)"
  by pat_completeness auto
termination
  by (relation "measure (\<lambda>(_, b, e, _). unat e - unat b)") (auto simp: word_less_nat_alt)

declare populate_loop.simps [simp del] munmap_loop.simps [simp del]

definition extmem_munmap :: "'k kernel \<Rightarrow> 'k policy \<Rightarrow> u64 \<Rightarrow> u64 \<Rightarrow> 'k ext \<Rightarrow> c_error + 'k ext" where
  "extmem_munmap K P addr len s =
     (let s = set_internal True s in
     bindE (lock Allocator_lock s) (\<lambda>s.
     bindE (munmap_loop P addr (addr + len) s) (\<lambda>s.
     bindE (kcall (k_munmap K addr len) s) (\<lambda>s.
     let s = unlock Allocator_lock s in
     Inr (set_internal False s)))))"

section \<open>Start-up\<close>

definition is_space :: "char \<Rightarrow> bool" where
  "is_space c \<longleftrightarrow> (of_char c :: nat) \<in> {9, 10, 11, 12, 13, 32}"

definition is_digit :: "char \<Rightarrow> bool" where
  "is_digit c \<longleftrightarrow> 48 \<le> (of_char c :: nat) \<and> (of_char c :: nat) \<le> 57"

definition digits_value :: "string \<Rightarrow> nat" where
  "digits_value ds = foldl (\<lambda>n c. n * 10 + (of_char c - 48)) 0 ds"

text \<open>\<open>strtoull(str, NULL, 10)\<close> of the C library.\<close>

definition strtoull :: "string \<Rightarrow> u64" where
  "strtoull str =
     (let str = dropWhile is_space str;
          (neg, str) = (case str of c # cs \<Rightarrow> if c = CHR ''-'' then (True, cs)
              else if c = CHR ''+'' then (False, cs) else (False, str) | [] \<Rightarrow> (False, str));
          n = digits_value (takeWhile is_digit str) in
      if n \<ge> 2 ^ 64 then - 1 else if neg then - word_of_nat n else word_of_nat n)"

definition DRAMSIZE_DEFAULT :: u64 where "DRAMSIZE_DEFAULT = 8 * (1024 * 1024 * 1024)"
definition DISKSIZE_DEFAULT :: u64 where "DISKSIZE_DEFAULT = 32 * (1024 * 1024 * 1024)"
definition MAX_USER_THREADS :: u64 where "MAX_USER_THREADS = 128"
definition SWAPPATH_DEFAULT :: string where "SWAPPATH_DEFAULT = ''/dev/nvme1n1p2''"

definition uswap_register_handler :: "'k kernel \<Rightarrow> 'k ext \<Rightarrow> 'k ext" where
  "uswap_register_handler K s = kdo (\<lambda>k. snd (k_sigaction K k)) s"

text \<open>The descriptor that keeps address 0 in the index.\<close>

definition add_dummy_page :: "'k ext \<Rightarrow> c_error + 'k ext" where
  "add_dummy_page s =
     (let p = nalloc s in add_page p (s\<lparr>heap := (heap s)(p := calloc_page), nalloc := p + 1\<rparr>))"

definition extmem_init :: "'k kernel \<Rightarrow> 'k policy \<Rightarrow> (string \<Rightarrow> string option) \<Rightarrow> 'k ext \<Rightarrow> c_error + 'k ext" where
  "extmem_init K P getenv s =
     (let s = set_internal True s in
     bindE (kcall (k_fopen K ''logs.txt'') s) (\<lambda>s.
     bindE (kcall (k_fopen K ''traces.txt'') s) (\<lambda>s.
     let diskpath = (case getenv ''SWAPDIR'' of None \<Rightarrow> SWAPPATH_DEFAULT | Some d \<Rightarrow> d);
         (fd, k) = k_open_disk K diskpath (kst s);
         s = s\<lparr>diskfd := fd, kst := k\<rparr> in
     if diskfd s < 0 then Inl Kernel_failed
     else
     bindE (kcall (k_uffd_open K) s) (\<lambda>s.
     bindE (kcall (k_uffd_api K) s) (\<lambda>s.
     bindE (uswap_init_iouring K s) (\<lambda>s.
     let s = uswap_register_handler K s in
     bindE (kcall (k_fopen K ''times.txt'') s) (\<lambda>s.
     bindE (kcall (k_fopen K ''stats.txt'') s) (\<lambda>s.
     let s = s\<lparr>dramsize := (case getenv ''DRAMSIZE'' of Some d \<Rightarrow> strtoull d | None \<Rightarrow> DRAMSIZE_DEFAULT)\<rparr>;
         s = s\<lparr>disksize := (case getenv ''DISKSIZE'' of Some d \<Rightarrow> strtoull d | None \<Rightarrow> DISKSIZE_DEFAULT)\<rparr> in
     bindE (libc_mmap_anon K (16 * PAGE_SIZE * MAX_USER_THREADS) s) (\<lambda>(a, s).
     let s = s\<lparr>page_cache := a\<rparr>;
         s = kdo (k_memset0 K (page_cache s) (PAGE_SIZE * 16 * MAX_USER_THREADS)) s in
     bindE (paging_init P s) (\<lambda>s.
     let s = s\<lparr>is_init := True\<rparr> in
     bindE (add_dummy_page s) (\<lambda>s.
     Inr (set_internal False s))))))))))))"

text \<open>\<open>policy_shutdown\<close> is empty for both policies.\<close>

definition extmem_stop :: "'k ext \<Rightarrow> 'k ext" where
  "extmem_stop s = s"

definition extmem_clear_stats :: "'k ext \<Rightarrow> 'k ext" where
  "extmem_clear_stats s = count (\<lambda>c. c\<lparr>pages_allocated := 0, pages_freed := 0, first_faults_handled := 0,
     major_faults_handled := 0, migrations_up := 0, migrations_down := 0\<rparr>) s"

section \<open>Rounding and flags\<close>

lemma unat_page_mask: "unat (x AND NOT (PAGE_SIZE - 1)) = unat x div 4096 * 4096"
proof -
  have "x AND NOT (mask 12) = push_bit 12 (drop_bit 12 x)"
    by (rule bit_eqI) (auto simp: bit_simps)
  then have "x AND NOT (PAGE_SIZE - 1) = drop_bit 12 x * PAGE_SIZE" by (simp add: mask_eq_exp_minus_1 push_bit_eq_mult)
  moreover have "unat (drop_bit 12 x) = unat x div 4096" by (simp add: drop_bit_eq_div unat_div)
  moreover have "unat x div 4096 * 4096 < 2 ^ 64"
    using div_times_less_eq_dividend [of "unat x" 4096] unsigned_less [of x, where 'a = nat] by simp
  ultimately show ?thesis by (simp add: unat_word_ariths)
qed

lemma PAGE_ROUND_UP_bounds:
  assumes "unat x + 4096 \<le> 2 ^ 64"
  shows "4096 dvd unat (PAGE_ROUND_UP x)" "unat x \<le> unat (PAGE_ROUND_UP x)" "unat (PAGE_ROUND_UP x) < unat x + 4096"
proof -
  have e: "unat (x + PAGE_SIZE - 1) = unat x + 4095" using assms by (simp add: unat_word_ariths)
  note u = unat_page_mask [of "x + PAGE_SIZE - 1", unfolded e]
  show "4096 dvd unat (PAGE_ROUND_UP x)" "unat x \<le> unat (PAGE_ROUND_UP x)" "unat (PAGE_ROUND_UP x) < unat x + 4096"
    unfolding PAGE_ROUND_UP_def u using div_mult_mod_eq [of "unat x + 4095" 4096] mod_less_divisor [of 4096 "unat x + 4095"]
    by simp_all
qed

text \<open>The flags are single bits.\<close>

lemma flag_set:
  fixes f :: u32
  assumes "n < 32"
  shows "f AND 2 ^ n = 2 ^ n \<longleftrightarrow> bit f n"
proof
  assume "f AND 2 ^ n = 2 ^ n"
  then have "bit (f AND 2 ^ n) n" using assms by (simp add: bit_simps)
  then show "bit f n" by (simp add: bit_simps)
next
  assume "bit f n"
  then show "f AND 2 ^ n = 2 ^ n" by (intro bit_eqI) (auto simp: bit_simps)
qed

lemma flag_bit: "bit (2 ^ n :: u32) i \<longleftrightarrow> i = n \<and> n < 32"
  by (auto simp: bit_simps)

lemma flag_powers:
  "MAP_SHARED = 2 ^ 0" "MAP_PRIVATE = 2 ^ 1" "MAP_ANONYMOUS = 2 ^ 5" "MAP_NORESERVE = 2 ^ 14" "MAP_POPULATE = 2 ^ 15"
  "MAP_HUGETLB = 2 ^ 18"
  by (simp_all add: mmap_consts)

lemma flag_tests:
  "f AND MAP_SHARED = MAP_SHARED \<longleftrightarrow> bit f 0" "f AND MAP_POPULATE = MAP_POPULATE \<longleftrightarrow> bit f 15"
  "f AND MAP_HUGETLB = MAP_HUGETLB \<longleftrightarrow> bit f 18"
  unfolding flag_powers by (simp_all only: flag_set numeral_less_iff num.simps less_num_simps zero_less_numeral)

lemma flag_bits:
  "bit MAP_SHARED i \<longleftrightarrow> i = 0" "bit MAP_PRIVATE i \<longleftrightarrow> i = 1" "bit MAP_ANONYMOUS i \<longleftrightarrow> i = 5"
  "bit MAP_NORESERVE i \<longleftrightarrow> i = 14" "bit MAP_POPULATE i \<longleftrightarrow> i = 15" "bit MAP_HUGETLB i \<longleftrightarrow> i = 18"
  unfolding flag_powers flag_bit by auto

text \<open>
  What \<open>extmem_mmap\<close> asks the kernel for: never a shared, populated or huge-page mapping, always an
  anonymous private one without reservation, every other flag as requested.
\<close>

lemma mmap_flags_spec:
  assumes "i < 32"
  shows "bit (fst (mmap_flags f)) i \<longleftrightarrow> i \<in> {5, 14} \<or> i = 1 \<and> bit f 0 \<or> i \<notin> {0, 15, 18} \<and> bit f i"
    "snd (mmap_flags f) \<longleftrightarrow> bit f 15"
proof -
  have n: "bit (NOT x) j \<longleftrightarrow> j < 32 \<and> \<not> bit x j" for x :: u32 and j by (simp add: bit_simps)
  show "bit (fst (mmap_flags f)) i \<longleftrightarrow> i \<in> {5, 14} \<or> i = 1 \<and> bit f 0 \<or> i \<notin> {0, 15, 18} \<and> bit f i"
    unfolding mmap_flags_def Let_def flag_tests using assms
    by (cases "i = 0") (auto simp: flag_bits bit_or_iff bit_and_iff n)
  show "snd (mmap_flags f) \<longleftrightarrow> bit f 15"
    unfolding mmap_flags_def Let_def flag_tests by (auto simp: flag_bits bit_or_iff bit_and_iff n)
qed

section \<open>Decimal numbers\<close>

text \<open>The decimal notation of a number, as a user writes it in \<open>DRAMSIZE\<close> and \<open>DISKSIZE\<close>.\<close>

fun decimal :: "nat \<Rightarrow> string" where
  "decimal n = (if n < 10 then [char_of (48 + n)] else decimal (n div 10) @ [char_of (48 + n mod 10)])"

declare decimal.simps [simp del]

lemma digit_code: "d < 10 \<Longrightarrow> of_char (char_of (48 + d)) = (48 + d :: nat)"
  by (simp add: of_char_of)

lemma digits_value_snoc: "digits_value (ds @ [c]) = digits_value ds * 10 + (of_char c - 48)"
  by (simp add: digits_value_def)

lemma decimal_digits: "list_all is_digit (decimal n) \<and> digits_value (decimal n) = n \<and> decimal n \<noteq> []"
proof (induction n rule: decimal.induct)
  case (1 n)
  show ?case
  proof (cases "n < 10")
    case True
    then show ?thesis using digit_code [OF True] by (simp add: decimal.simps [of n] is_digit_def digits_value_def)
  next
    case False
    have "n mod 10 < 10" by simp
    from digit_code [OF this] show ?thesis using False 1
      by (simp add: decimal.simps [of n] is_digit_def digits_value_snoc)
  qed
qed

text \<open>\<open>strtoull\<close> reads such a number back, as long as it fits 64 bits.\<close>

lemma strtoull_decimal:
  assumes "n < 2 ^ 64"
  shows "strtoull (decimal n) = word_of_nat n"
proof -
  note d = decimal_digits [of n]
  obtain c cs where c: "decimal n = c # cs" using d by (cases "decimal n") auto
  then have h: "is_digit c" using d by simp
  then have "\<not> is_space c" "c \<noteq> CHR ''-''" "c \<noteq> CHR ''+''" by (auto simp: is_digit_def is_space_def)
  moreover have "takeWhile is_digit (c # cs) = c # cs" "digits_value (c # cs) = n"
    using d unfolding c by (simp_all add: list_all_iff takeWhile_eq_all_conv)
  ultimately show ?thesis using assms unfolding c strtoull_def by (simp only: dropWhile.simps list.case Let_def prod.case if_False) simp
qed

end
