(* ===== verification/Core_Safe.thy ===== *)
theory Core_Safe
  imports Policy Core_Map
begin

text \<open>
  The core over any policy that keeps the contract: the invariant of the whole library, and that the
  fault handlers, the prefetcher, \<open>mmap\<close> and \<open>munmap\<close> keep it.
\<close>

section \<open>The invariant of the library\<close>

text \<open>
  The index holds exactly the pool pages that have an address, and the descriptor allocated last
  by \<open>extmem_init\<close>, which keeps address 0.
\<close>

definition index_inv :: "'k ext \<Rightarrow> bool" where
  "index_inv s \<longleftrightarrow> index_ok s \<and> tracked s = insert (npool s) {p. p < npool s \<and> va (heap s p) \<noteq> 0} \<and>
     va (heap s (npool s)) = 0 \<and> \<not> migrating (heap s (npool s)) \<and> \<not> swapped_out (heap s (npool s))"

definition sys_inv :: "page_ptr set \<Rightarrow> 'k ext \<Rightarrow> bool" where
  "sys_inv F s \<longleftrightarrow> pool_inv F s \<and> index_inv s \<and> \<not> held s Allocator_lock \<and> \<not> shrinkage_running s"

lemma sys_invD:
  assumes "sys_inv F s"
  shows "pool_inv F s" "index_inv s" "\<not> held s Allocator_lock" "\<not> shrinkage_running s"
  using assms by (simp_all add: sys_inv_def)

lemma index_inv_cong:
  assumes "index_inv s" "pages s' = pages s" "held s' Pages_lock = held s Pages_lock" "npool s' = npool s"
    "\<And>p. va (heap s' p) = va (heap s p)" "heap s' (npool s) = heap s (npool s)"
  shows "index_inv s'"
  using assms by (simp add: index_inv_def index_ok_def)

lemma index_inv_pres:
  assumes "index_inv s" "pres F s s'"
  shows "index_inv s'"
proof (rule index_inv_cong [OF assms(1)])
  show "pages s' = pages s" "held s' Pages_lock = held s Pages_lock" using presD(1) [OF assms(2)] by (simp_all add: env_def)
  show "heap s' (npool s) = heap s (npool s)" using assms(2) by (simp add: pres_def)
qed (rule presD(2,3) [OF assms(2)])+

lemma sys_inv_pres:
  assumes "sys_inv F s" "pool_inv F' s'" "pres F s s'"
  shows "sys_inv F' s'"
  using assms index_inv_pres [of s F s'] presD(1) [OF assms(3)] by (auto simp: sys_inv_def env_def)

lemma index_find_wp:
  assumes "index_inv s"
    and "\<And>r. (\<And>p. r = Some p \<longleftrightarrow> p \<in> tracked s \<and> va (heap s p) = a) \<Longrightarrow> Q (r, s)"
  shows "wpE (find_page a s) Q E"
proof -
  have "index_ok s" using assms(1) by (simp add: index_inv_def)
  from index.find_spec [OF this, of a] obtain r where r: "find_page a s = Inr (r, s)"
    "\<forall>p. r = Some p \<longleftrightarrow> p \<in> tracked s \<and> va (heap s p) = a" by blast
  have "Q (r, s)" by (rule assms(2)) (rule r(2) [rule_format])
  with r(1) show ?thesis by (simp add: wpE_Inr)
qed

text \<open>A tracked page that is not in flight is not marked, and it is in one of four queues.\<close>

lemma tracked_page:
  assumes s: "pool_inv F s" "index_inv s" and p: "p \<in> tracked s" "va (heap s p) \<noteq> 0" "p \<notin> F"
  shows "p < npool s" "\<not> migrating (heap s p)" "page_aligned (va (heap s p))"
    "\<exists>l \<in> {Active_list, Inactive_list, Eviction_list, Disk_active_list}. page_list s p = Some l"
    "swapped_out (heap s p) \<longleftrightarrow> page_list s p = Some Disk_active_list" "swapped_out (heap s p) \<longleftrightarrow> \<not> in_dram (heap s p)"
proof -
  show n: "p < npool s" using s(2) p(1,2) by (auto simp: index_inv_def)
  obtain l where l: "page_list s p = Some l" "fits s l p" using pool_invD(10) [OF s(1) n p(3)] by (auto simp: filed_def)
  then have "(l = Disk_active_list \<or> l \<in> {Active_list, Inactive_list, Eviction_list}) \<and> \<not> migrating (heap s p) \<and>
      page_aligned (va (heap s p)) \<and> (swapped_out (heap s p) \<longleftrightarrow> l = Disk_active_list) \<and>
      (swapped_out (heap s p) \<longleftrightarrow> \<not> in_dram (heap s p))"
    using p(2) by (cases l) (auto simp: fits_def resident_page_def Let_def)
  with l(1) show "\<not> migrating (heap s p)" "page_aligned (va (heap s p))"
    "\<exists>l \<in> {Active_list, Inactive_list, Eviction_list, Disk_active_list}. page_list s p = Some l"
    "swapped_out (heap s p) \<longleftrightarrow> page_list s p = Some Disk_active_list" "swapped_out (heap s p) \<longleftrightarrow> \<not> in_dram (heap s p)"
    by auto
qed

lemma dummy_page:
  assumes "index_inv s" "p \<in> tracked s" "va (heap s p) = 0"
  shows "p = npool s" "\<not> migrating (heap s p)" "\<not> swapped_out (heap s p)"
  using assms by (auto simp: index_inv_def)

section \<open>State changes the core makes itself\<close>

lemma set_internal_simps [simp]:
  "heap (set_internal b s) = heap s" "lists (set_internal b s) = lists s" "pages (set_internal b s) = pages s"
  "held (set_internal b s) = held s" "npool (set_internal b s) = npool s" "cur (set_internal b s) = cur s"
  "dramsize (set_internal b s) = dramsize s" "disksize (set_internal b s) = disksize s"
  "shrinkage_running (set_internal b s) = shrinkage_running s" "kst (set_internal b s) = kst s"
  "is_init (set_internal b s) = is_init s" "nalloc (set_internal b s) = nalloc s" "safe_to_free (set_internal b s) = safe_to_free s"
  by (simp_all add: set_internal_def upd_me_def npool_def)

lemma pool_inv_internal [simp]: "pool_inv F (set_internal b s) = pool_inv F s"
  by (rule pool_inv_cong) simp_all

lemma tls_le_internal: "tls_le (tls s) (tls (set_internal b s))"
  by (simp add: set_internal_def upd_me_def tls_le_upd)

lemma pres_internal [simp]: "pres F s (set_internal b s)"
  using tls_le_internal [of s b] by (simp add: pres_def env_def) (simp add: set_internal_def upd_me_def)

lemma pres_count [simp]: "pres F s (count f s') = pres F s s'"
  by (simp add: pres_def)

lemma sys_inv_internal: "sys_inv F s \<Longrightarrow> sys_inv F (set_internal b s)"
  by (rule sys_inv_pres [of F s]) (simp_all add: sys_invD)

lemma sys_inv_count: "sys_inv F s \<Longrightarrow> sys_inv F (count f s)"
  by (rule sys_inv_pres [of F s]) (simp_all add: sys_invD)

lemma held_restore: "\<not> held s m \<Longrightarrow> unlock m (s\<lparr>held := (held s)(m := True)\<rparr>) = s"
  by (simp add: unlock_def fun_upd_idem)

lemma unlock_upd_page: "\<not> held s m \<Longrightarrow> unlock m (upd_page p f (s\<lparr>held := (held s)(m := True)\<rparr>)) = upd_page p f s"
  by (simp add: unlock_def upd_page_def fun_upd_idem)

lemma can_alloc_internal [simp]: "can_alloc F (set_internal b s) = can_alloc F s"
  by (simp add: can_alloc_def frames_held_def nframes_def)

section \<open>Write-protection faults\<close>

lemma handle_wp_fault_run:
  assumes "sys_inv {} s" "p \<in> tracked s"
  shows "handle_wp_fault p s = Inr (count_wait s)"
proof -
  have "\<not> migrating (heap s p)"
    using tracked_page(2) [of "{}" s p] dummy_page(2) [of s p] sys_invD [OF assms(1)] assms(2) by (cases "va (heap s p) = 0") auto
  then show ?thesis by (simp add: handle_wp_fault_def busy_wait_def count_wait_def)
qed

section \<open>What the application sees\<close>

text \<open>
  The addresses that the library manages, and those of them that are in DRAM. The operations of the
  core are specified by what they do to these two sets.
\<close>

definition mapped :: "'k ext \<Rightarrow> u64 set" where
  "mapped s = {va (heap s p) | p. p \<in> tracked s \<and> va (heap s p) \<noteq> 0}"

definition in_memory :: "'k ext \<Rightarrow> u64 set" where
  "in_memory s = {va (heap s p) | p. p \<in> tracked s \<and> va (heap s p) \<noteq> 0 \<and> in_dram (heap s p)}"

text \<open>What no operation after start-up changes, and that the address kept by \<open>pageRank.c\<close> stays aligned.\<close>

definition config :: "'k ext \<Rightarrow> 'k ext \<Rightarrow> bool" where
  "config s s' \<longleftrightarrow> dramsize s' = dramsize s \<and> disksize s' = disksize s \<and> diskfd s' = diskfd s \<and>
     held s' = held s \<and> cur s' = cur s \<and> is_init s' = is_init s \<and> nalloc s' = nalloc s \<and>
     (page_aligned (safe_to_free s) \<longrightarrow> page_aligned (safe_to_free s'))"

lemma config_refl [simp]: "config s s"
  by (simp add: config_def)

lemma config_trans [trans]: "config s s' \<Longrightarrow> config s' s'' \<Longrightarrow> config s s''"
  by (simp add: config_def)

lemma env_config: "env s s' \<Longrightarrow> config s s'"
  by (simp add: env_def config_def)

lemma config_size: "config s s' \<Longrightarrow> npool s' = npool s" "config s s' \<Longrightarrow> nframes s' = nframes s"
  by (simp_all add: config_def npool_def nframes_def)

lemma config_simps [simp]: "config s (count f s') = config s s'" "config s (set_internal b s') = config s s'"
  "config (set_internal b s) s' = config s s'"
  by (simp_all add: config_def set_internal_def upd_me_def count_def)

lemma mapped_simps [simp]: "mapped (count f s) = mapped s" "mapped (set_internal b s) = mapped s"
  "in_memory (count f s) = in_memory s" "in_memory (set_internal b s) = in_memory s"
  by (simp_all add: mapped_def in_memory_def)

lemma mapped_pres:
  assumes "pres F s s'"
  shows "mapped s' = mapped s"
  using presD(1) [OF assms] presD(3) [OF assms] by (simp add: mapped_def env_def)

lemma in_memory_subset: "in_memory s \<subseteq> mapped s"
  by (auto simp: mapped_def in_memory_def)

section \<open>First faults\<close>

lemma index_add_wp:
  assumes "index_ok s" "\<forall>q \<in> tracked s. va (heap s q) \<noteq> va (heap s p)"
    and Q: "\<And>t. index_ok (s\<lparr>pages := t\<rparr>) \<Longrightarrow> set (app_order t) = insert p (tracked s) \<Longrightarrow> Q (s\<lparr>pages := t\<rparr>)"
    and E: "E Out_of_memory"
  shows "wpE (add_page p s) Q E"
proof -
  consider "add_page p s = Inl Out_of_memory" | s' where "add_page p s = Inr s'" "index_ok s'"
      "tracked s' = insert p (tracked s)" "without_index s' = without_index s"
    using index.add_spec [OF assms(1,2)] by blast
  then show ?thesis
  proof cases
    case (2 s')
    have "s' = (without_index s')\<lparr>pages := pages s'\<rparr>" by (simp add: without_index_def)
    also have "\<dots> = s\<lparr>pages := pages s'\<rparr>" unfolding 2(4) by (simp add: without_index_def)
    finally have "s' = s\<lparr>pages := pages s'\<rparr>" .
    with 2 Q [of "pages s'"] show ?thesis by (simp add: wpE_Inr)
  qed (simp add: E wpE_Inl)
qed

context fault_policy
begin

lemma first_fault_file:
  assumes p: "free_frame {} s p" and idx: "index_inv s" and free: "\<not> held s Allocator_lock" "\<not> shrinkage_running s"
    and b: "b \<noteq> 0" "page_aligned b"
    and w: "heap w = (heap s)(p := (heap s p)\<lparr>va := b, migrating := False, swapped_out := False\<rparr>)" "lists w = lists s"
      "config s w" "shrinkage_running w = shrinkage_running s" "index_ok w" "tracked w = insert p (tracked s)"
  shows "wpE (policy_add_page P p w)
    (\<lambda>s'. sys_inv {} s' \<and> config s s' \<and> mapped s' = insert b (mapped s) \<and> b \<in> in_memory s') stops"
proof -
  have pi: "pool_inv {p} s" "in_dram (heap s p)" "va (heap s p) = 0" "\<not> has_reserve (heap s p)"
    using p by (simp_all add: free_frame_def)
  have pn: "p < npool s" using pool_invD(6) [OF pi(1)] by simp
  have "pool_inv {p} (upd_page p (\<lambda>h. h\<lparr>va := b, migrating := False, swapped_out := False\<rparr>) s)"
    by (rule pool_inv_upd_page [OF pi(1)]) simp_all
  also have "pool_inv {p} (upd_page p (\<lambda>h. h\<lparr>va := b, migrating := False, swapped_out := False\<rparr>) s) = pool_inv {p} w"
    by (rule pool_inv_cong) (use w in \<open>simp_all add: config_def\<close>)
  finally have inv: "pool_inv {p} w" .
  have res: "resident_page w p" using w(1) pi b by (simp add: resident_page_def)
  have iw: "index_inv w" using idx w pn b unfolding index_inv_def config_size(1) [OF w(3)] by auto
  have "mapped w = insert b (mapped s)" using w(1,6) b pi(3) by (auto simp: mapped_def)
  moreover have "b \<in> in_memory w" using w(1,6) b pi(2) by (auto simp: in_memory_def intro!: exI [of _ p])
  moreover have "sys_inv {} s' \<and> config s s' \<and> mapped s' = mapped w \<and> in_memory s' = in_memory w"
    if "pool_inv {} s'" "heap s' = heap w" "env w s'" for s'
  proof -
    have pr: "pres {p} w s'" using that by (simp add: pres_def)
    have "sys_inv {p} w" using inv iw free w by (simp add: sys_inv_def config_def)
    from sys_inv_pres [OF this that(1) pr] show ?thesis
      using config_trans [OF w(3) env_config [OF that(3)]] mapped_pres [OF pr] that by (simp add: in_memory_def env_def)
  qed
  ultimately show ?thesis
    by (intro wpE_mono [OF add_law [OF inv _ res]]) auto
qed


lemma first_fault_wp:
  assumes s: "sys_inv {} s" "0 < nframes s" and b: "b \<noteq> 0" "page_aligned b"
  shows "wpE (handle_first_fault K P b s)
    (\<lambda>s'. sys_inv {} s' \<and> config s s' \<and> mapped s' = insert b (mapped s) \<and> (b \<in> mapped s \<or> b \<in> in_memory s')) stops"
proof -
  let ?Q = "\<lambda>s'. sys_inv {} s' \<and> config s s' \<and> mapped s' = insert b (mapped s) \<and> (b \<in> mapped s \<or> b \<in> in_memory s')"
  let ?s = "set_internal True s"
  have s0: "sys_inv {} ?s" by (rule sys_inv_internal [OF s(1)])
  have ca: "can_alloc {} ?s" using sys_invD [OF s0] s(2) by (simp add: can_alloc_def frames_held_def nframes_def)
  show ?thesis
    unfolding handle_first_fault_def Let_def wpE_bindE wpE_assertE
  proof (intro conjI impI b(1) wpE_mono [OF pagefault_law [OF sys_invD(1) [OF s0] ca]]; (simp add: b; fail)?; (assumption)?; goal_cases)
    case (1 r)
    obtain p s1 where r: "r = (p, s1)" by (cases r)
    then have f: "free_frame {} s1 p" and pr: "pres {} ?s s1" using 1 by simp_all
    have f': "pool_inv {p} s1" "in_dram (heap s1 p)" "va (heap s1 p) = 0" using f by (simp_all add: free_frame_def)
    have i1: "index_inv s1" by (rule index_inv_pres [OF sys_invD(2) [OF s0] pr])
    have fr: "\<not> held s1 Allocator_lock" "\<not> shrinkage_running s1" "config s s1"
      using sys_invD(3,4) [OF s0] presD(1) [OF pr] env_config [OF presD(1) [OF pr]] by (auto simp: env_def)
    have m1: "mapped s1 = mapped s" using mapped_pres [OF pr] by simp
    have bt: "pt (heap s1 p) = BASEP" using pool_invD(4,6) [OF f'(1)] by simp
    let ?l = "s1\<lparr>held := (held s1)(Allocator_lock := True)\<rparr>"
    have il: "index_inv ?l" by (rule index_inv_cong [OF i1]) simp_all
    show ?case
      unfolding r prod.case wpE_bindE wpE_lock
    proof (intro conjI impI index_find_wp [OF il], goal_cases)
      case 1
      then show ?case using fr by simp
    next
      case (2 x)
      have found: ?case if x: "x = Some q" for q
      proof -
        have q: "q \<in> tracked s1" "va (heap s1 q) = b" using 2(2) [of q] x by simp_all
        then have bm: "b \<in> mapped s" using m1 b(1) unfolding mapped_def by blast
        have "?Q s' \<and> \<not> migrating (heap s' q)" if "pool_inv {} s'" "heap s' = heap s1" "env s1 s'" for s'
        proof -
          have pr': "pres {} ?s s'" using that pres_trans [OF pr, of s'] by (simp add: pres_def)
          have si: "sys_inv {} s'" by (rule sys_inv_pres [OF s0 that(1) pr'])
          have "q \<in> tracked s'" using q(1) that(3) by (simp add: env_def)
          then have "\<not> migrating (heap s' q)"
            using tracked_page(2) [OF sys_invD(1,2) [OF si]] q(2) b(1) that(2) by simp
          with si show ?thesis
            using env_config [OF presD(1) [OF pr']] mapped_pres [OF pr'] bm by auto
        qed
        then show ?thesis using fr(1) unfolding x
          by (auto simp: held_restore wp_simps busy_wait_def intro!: wpE_mono [OF put_law [OF f]])
      qed
      show ?case
      proof (cases x)
        case None
        have new: "\<forall>q \<in> tracked s1. va (heap s1 q) \<noteq> b" using 2(2) None by simp
        have pt: "p \<notin> tracked s1" using i1 f'(3) pool_invD(6) [OF f'(1), of p] by (auto simp: index_inv_def)
        let ?u = "upd_page p (\<lambda>h. h\<lparr>va := b\<rparr>) (upd_page p (\<lambda>h. h\<lparr>migrating := True, swapped_out := False\<rparr>) ?l)"
        have iu: "index_ok ?u" using il pt unfolding index_inv_def index_ok_def
          by (auto intro: table_ok_cong [THEN iffD1, rotated])
        have tail: "wpE (policy_add_page P p w) (\<lambda>s'. sys_inv {} (set_internal False (count g s')) \<and> config s s' \<and>
            mapped s' = insert b (mapped s) \<and> (b \<in> mapped s \<or> b \<in> in_memory s')) stops"
          if w: "heap w = (heap s1)(p := (heap s1 p)\<lparr>va := b, migrating := False, swapped_out := False\<rparr>)"
            "lists w = lists s1" "config s1 w" "shrinkage_running w = shrinkage_running s1" "index_ok w"
            "tracked w = insert p (tracked s1)" for w g
          by (rule wpE_mono [OF first_fault_file [OF f i1 fr(1,2) b w]])
            (use fr(3) m1 in \<open>auto intro: config_trans sys_inv_internal sys_inv_count\<close>)
        show ?thesis unfolding None
        proof (simp add: wp_simps f' b b(2) [unfolded page_aligned_def], rule index_add_wp [OF iu], goal_cases)
          case 1
          then show ?case using new pt by auto
        next
          case (2 t)
          show ?case
          proof (simp add: wp_simps f' b note_fault_def upd_me_def upd_page_def unlock_def, intro impI tail, goal_cases)
            case 5
            show ?case using 2(1) pt unfolding index_ok_def
              by (auto intro: table_ok_cong [THEN iffD1, rotated])
          qed (use 2(2) fr in \<open>simp_all add: config_def fun_upd_idem\<close>)
        qed simp
      qed (rule found)
    qed
  qed
qed

end

end
