(* ===== verification/Core_Prefetch.thy ===== *)
theory Core_Prefetch
  imports Core_Safe
begin

text \<open>
  The prefetcher and the handler of major faults over any policy that keeps the contract. The
  prefetcher holds up to 32 pages on their way in and up to 32 free frames at once; it needs 63 frames
  in the pool, so that its last allocation does not wait for frames that it holds itself.
\<close>

section \<open>Pages and frames the prefetcher holds\<close>

definition inbound :: "'k ext \<Rightarrow> page_ptr \<Rightarrow> bool" where
  "inbound s p \<longleftrightarrow> on_disk s p \<and> migrating (heap s p)"

definition vacant :: "'k ext \<Rightarrow> page_ptr \<Rightarrow> bool" where
  "vacant s p \<longleftrightarrow> in_dram (heap s p) \<and> va (heap s p) = 0 \<and> \<not> has_reserve (heap s p)"

lemma inbound_pres: "inbound s p \<Longrightarrow> pres F s s' \<Longrightarrow> p \<in> F \<Longrightarrow> inbound s' p"
  by (simp add: inbound_def on_disk_def presD(4))

lemma vacant_pres: "vacant s p \<Longrightarrow> pres F s s' \<Longrightarrow> p \<in> F \<Longrightarrow> vacant s' p"
  by (simp add: vacant_def presD(4))

lemma incoming_inbound: "incoming F s p \<Longrightarrow> migrating (heap s p) \<Longrightarrow> inbound s p"
  by (simp add: incoming_def inbound_def)

lemma vacant_free: "free_frame F s p \<longleftrightarrow> pool_inv (insert p F) s \<and> p \<notin> F \<and> vacant s p"
  by (auto simp: free_frame_def vacant_def)

lemma pool_inv_finite: "pool_inv F s \<Longrightarrow> finite F"
  using pool_invD(6) by (meson bounded_nat_set_is_finite)

lemma frames_held_insert:
  assumes "pool_inv F s" "pres F s s'"
  shows "frames_held (insert p F) s' \<le> Suc (frames_held F s)"
proof -
  have "{q \<in> insert p F. in_dram (heap s' q)} \<subseteq> insert p {q \<in> F. in_dram (heap s q)}"
    using presD(4) [OF assms(2)] by auto
  then have "card {q \<in> insert p F. in_dram (heap s' q)} \<le> card (insert p {q \<in> F. in_dram (heap s q)})"
    using pool_inv_finite [OF assms(1)] by (intro card_mono) auto
  also have "\<dots> \<le> Suc (card {q \<in> F. in_dram (heap s q)})" by (rule card_insert_le_m1) simp_all
  finally show ?thesis by (simp add: frames_held_def)
qed

lemma frames_held_inbound: "\<forall>p \<in> F. inbound s p \<Longrightarrow> frames_held F s = 0"
  by (auto simp: frames_held_def inbound_def on_disk_def card_eq_0_iff)

lemma pres_size: "pres F s s' \<Longrightarrow> nframes s' = nframes s"
  by (simp add: config_size(2) env_config presD(1))

lemma pres_scan: "pres F s s' \<Longrightarrow> \<not> shrinkage_running s \<Longrightarrow> \<not> shrinkage_running s'"
  using presD(1) by (auto simp: env_def)

text \<open>Setting the flag of a page in a queue, and taking it back.\<close>

abbreviation mark :: "page_ptr \<Rightarrow> 'k ext \<Rightarrow> 'k ext" where
  "mark p \<equiv> upd_page p (\<lambda>h. h\<lparr>migrating := True\<rparr>)"

lemma unmark_mark: "\<not> migrating (heap s p) \<Longrightarrow> unmark p (mark p s) = s"
  by (simp add: upd_page_def fun_upd_idem)

lemma unmark_internal: "heap w = heap (mark p s) \<Longrightarrow> lists w = lists s \<Longrightarrow> held w = held s \<Longrightarrow> dramsize w = dramsize s \<Longrightarrow>
   disksize w = disksize s \<Longrightarrow> \<not> migrating (heap s p) \<Longrightarrow> pool_inv F (unmark p w) = pool_inv F s"
  by (rule pool_inv_cong) (simp_all add: fun_upd_idem)

lemma pres_mark: "p < npool s \<Longrightarrow> p \<notin> F \<Longrightarrow> pres F s (mark p s)"
  by (rule pres_upd_page) simp_all

section \<open>The four loops\<close>

context fault_policy
begin

lemma collect_wp:
  assumes "pool_inv F s" "index_inv s" "\<forall>p \<in> F. inbound s p"
  shows "wpE (prefetch_collect P n b s) (\<lambda>r. pool_inv (F \<union> set (fst r)) (snd r) \<and> distinct (fst r) \<and> set (fst r) \<inter> F = {} \<and>
     (\<forall>p \<in> F \<union> set (fst r). inbound (snd r) p) \<and> length (fst r) \<le> n \<and> pres F s (snd r)) stops"
  using assms
proof (induction n arbitrary: b s F)
  case 0
  then show ?case by (simp add: wp_simps)
next
  case (Suc n)
  let ?Q = "\<lambda>r. pool_inv (F \<union> set (fst r)) (snd r) \<and> distinct (fst r) \<and> set (fst r) \<inter> F = {} \<and>
     (\<forall>p \<in> F \<union> set (fst r). inbound (snd r) p) \<and> length (fst r) \<le> Suc n \<and> pres F s (snd r)"
  have h: "\<not> held s Handler_lock" by (rule pool_invD(2) [OF Suc.prems(1)])
  have uc: "unlock Handler_lock (count_wait (s\<lparr>held := (held s)(Handler_lock := True)\<rparr>)) = count_wait s"
    using h by (simp add: count_wait_def count_def unlock_def fun_upd_idem)
  have stop: "?Q ([], s)" "?Q ([], count_wait s)"
    using Suc.prems by (simp_all add: count_wait_def inbound_def on_disk_def)
  show ?case
    unfolding prefetch_collect.simps Let_def wpE_bindE
  proof (rule index_find_wp [OF Suc.prems(2)], goal_cases)
    case (1 r)
    show ?case
    proof (cases r)
      case None
      then show ?thesis using stop by (simp add: wp_simps)
    next
      case (Some p)
      then have p: "p \<in> tracked s" "va (heap s p) = b + PAGE_SIZE" using 1 [of p] by simp_all
      have go: ?thesis if m: "\<not> migrating (heap s p)" "swapped_out (heap s p)"
      proof -
        have pF: "p \<notin> F" using Suc.prems(3) m by (auto simp: inbound_def)
        have v: "va (heap s p) \<noteq> 0" using dummy_page(3) [OF Suc.prems(2) p(1)] m by auto
        note tp = tracked_page [OF Suc.prems(1,2) p(1) v pF]
        have "wpE (policy_detach_page P p (mark p s)) (\<lambda>x. wpE (prefetch_collect P n (b + PAGE_SIZE) x) (\<lambda>r. ?Q (p # fst r, snd r)) stops) stops"
        proof (rule wpE_mono [OF detach_law [of F p]], goal_cases)
          case (3 s1)
          have pr: "pres F s s1" using 3 pF tp(1) by (auto simp: pres_def)
          have i1: "index_inv s1" by (rule index_inv_pres [OF Suc.prems(2) pr])
          have inb: "\<forall>q \<in> insert p F. inbound s1 q"
            using incoming_inbound [of F s1 p] 3 Suc.prems(3) pr by (auto intro: inbound_pres)
          show ?case
            by (rule wpE_mono [OF Suc.IH [OF _ i1 inb]]) (use 3 pF pr in \<open>auto simp: incoming_def intro: pres_trans pres_mono\<close>)
        qed (use Suc.prems(1) m tp in \<open>simp_all add: unmark_mark\<close>)
        then show ?thesis using Some m p v h
          by (simp add: wp_simps unlock_upd_page case_prod_beta)
      qed
      show ?thesis
      proof (cases "\<not> migrating (heap s p) \<and> swapped_out (heap s p)")
        case False
        then show ?thesis using Some stop p h by (auto simp: wp_simps uc)
      qed (use go in simp)
    qed
  qed
qed


lemma frames_wp:
  assumes "pool_inv F s" "\<not> shrinkage_running s" "2 * (frames_held F s + n) < nframes s + 2"
  shows "wpE (prefetch_frames P n s) (\<lambda>r. pool_inv (F \<union> set (fst r)) (snd r) \<and> distinct (fst r) \<and>
     set (fst r) \<inter> F = {} \<and> (\<forall>p \<in> set (fst r). vacant (snd r) p) \<and> length (fst r) = n \<and> pres F s (snd r)) stops"
  using assms
proof (induction n arbitrary: s F)
  case 0
  then show ?case by (simp add: wp_simps)
next
  case (Suc n)
  have "can_alloc F s" using Suc.prems by (simp add: can_alloc_def)
  note pf = pagefault_law [OF Suc.prems(1) this]
  show ?case
    unfolding prefetch_frames.simps wpE_bindE
  proof (rule wpE_mono [OF pf], goal_cases)
    case (1 r)
    obtain p s1 where r: "r = (p, s1)" by (cases r)
    have f: "pool_inv (insert p F) s1" "p \<notin> F" "vacant s1 p" and pr: "pres F s s1"
      using 1 by (auto simp: r vacant_free)
    have "2 * (frames_held (insert p F) s1 + n) < nframes s1 + 2"
      using frames_held_insert [OF Suc.prems(1) pr, of p] Suc.prems(3) pres_size [OF pr] by simp
    from Suc.IH [OF f(1) pres_scan [OF pr Suc.prems(2)] this] show ?case
      unfolding r prod.case wpE_bindE
      by (rule wpE_mono)
        (use f pr in \<open>auto simp: wp_simps case_prod_beta intro: pres_trans pres_mono vacant_pres\<close>)
  qed simp
qed

lemma map_one_wp:
  assumes "pool_inv (insert p (insert fp F)) s" "p \<notin> F" "fp \<notin> F" "p \<noteq> fp" "inbound s p" "vacant s fp"
  shows "wpE (prefetch_map_one K P p fp buf s) (\<lambda>s'. pool_inv F s' \<and> pres F s s') stops"
proof -
  have "wpE (policy_ack_swapped_in P p fp (s\<lparr>kst := k\<rparr>))
      (\<lambda>s'. \<not> held s' Handler_lock \<and> pool_inv F (arrive p s') \<and> pres F s (arrive p s')) stops" for k
  proof (rule wpE_mono [OF ack_law [where F = F]], goal_cases)
    case (5 s')
    then show ?case using pool_invD(2) [of F "arrive p s'"] by (auto simp: pres_def)
  qed (use assms in \<open>auto simp: inbound_def on_disk_def free_frame_def vacant_def insert_commute\<close>)
  note ack = this
  show ?thesis
    by (simp add: prefetch_map_one_def wp_simps Let_def)
      (intro impI wpE_mono [OF ack]; auto simp: unlock_def upd_page_def fun_upd_idem)
qed


lemma map_wp:
  assumes "pool_inv (set ps \<union> set fps) s" "distinct ps" "distinct fps" "set ps \<inter> set fps = {}"
    "length ps = length fps" "\<forall>p \<in> set ps. inbound s p" "\<forall>p \<in> set fps. vacant s p"
  shows "wpE (prefetch_map K P (zip ps fps) buf s) (\<lambda>s'. pool_inv {} s' \<and> pres {} s s') stops"
  using assms(5,1-4,6,7)
proof (induction ps fps arbitrary: s buf rule: list_induct2)
  case Nil
  then show ?case by (simp add: wp_simps)
next
  case (Cons p ps fp fps)
  let ?F = "set ps \<union> set fps"
  have "wpE (prefetch_map_one K P p fp buf s) (\<lambda>s'. pool_inv ?F s' \<and> pres ?F s s') stops"
    by (rule map_one_wp) (use Cons.prems in \<open>auto simp: insert_commute\<close>)
  then have "wpE (prefetch_map_one K P p fp buf s)
     (\<lambda>s'. wpE (prefetch_map K P (zip ps fps) (buf + PAGE_SIZE) s') (\<lambda>s'. pool_inv {} s' \<and> pres {} s s') stops) stops"
  proof (rule wpE_mono, goal_cases)
    case (1 s')
    then have pr: "pres ?F s s'" by simp
    show ?case
      by (rule wpE_mono [OF Cons.IH])
        (use 1 Cons.prems in \<open>auto intro: inbound_pres [OF _ pr] vacant_pres [OF _ pr] pres_trans [OF pres_mono [OF pr]]\<close>)
  qed simp
  then show ?case by (simp add: wp_simps)
qed

end

section \<open>The reads\<close>

lemma prepare_io:
  "wpE (prefetch_prepare K ps buf s) (\<lambda>s'. io_only s s' \<and> (ps \<noteq> [] \<longrightarrow> uring_read_init (me s'))) (\<lambda>e. e = Kernel_failed)"
proof (induction ps arbitrary: buf s)
  case Nil
  then show ?case by (simp add: wp_simps)
next
  case (Cons p ps)
  show ?case unfolding prefetch_prepare.simps wpE_bindE
  proof (rule wpE_mono [OF wpE_conj [OF ioring_io(4) read_ring_open(2)]], goal_cases)
    case (1 s')
    show ?case
      by (rule wpE_mono [OF Cons.IH]) (use 1 in \<open>auto intro: io_only_trans io_only_read_ring\<close>)
  qed simp
qed

lemma finish_io:
  "uring_read_init (me s) \<or> ps = [] \<Longrightarrow> wpE (prefetch_finish K ps buf s) (io_only s) (\<lambda>e. e = Kernel_failed)"
proof (induction ps arbitrary: buf s)
  case (Cons p ps)
  then show ?case
    by (auto intro!: io_bind ioring_finish_read_io intro: io_only_read_ring)
qed (simp add: wp_simps)

lemma alloc_prefetch_buffer_wp:
  assumes "\<And>k t. tls_le (tls s) t \<Longrightarrow> Q (s\<lparr>kst := k, tls := t\<rparr>)" and "E Kernel_failed"
  shows "wpE (alloc_prefetch_buffer K s) Q E"
proof (cases "prefetch_buffer_allocated (me s)")
  case True
  then show ?thesis using assms(1) [of "tls s" "kst s"] by (simp add: alloc_prefetch_buffer_def wp_simps)
next
  case False
  have "Q (s\<lparr>kst := k, tls := (tls s)(cur s := me s\<lparr>prefetch_buffer := a, prefetch_buffer_allocated := True\<rparr>)\<rparr>)" for k a
    by (rule assms(1)) (simp add: tls_le_upd)
  with False assms(2) show ?thesis
    by (auto simp: alloc_prefetch_buffer_def libc_mmap_anon_def wp_simps upd_me_def split: prod.splits option.splits)
qed

lemma io_pres: "io_only s s' \<Longrightarrow> pres F s s' \<and> (pool_inv F' s' = pool_inv F' s)"
  by (elim io_onlyE) (simp add: pres_def env_def)

section \<open>The whole prefetch\<close>

context fault_policy
begin

lemma prefetch_wp:
  assumes s: "pool_inv {} s" "index_inv s" "\<not> shrinkage_running s" "63 \<le> nframes s" and b: "b \<noteq> 0"
  shows "wpE (core_try_prefetch K P b s) (\<lambda>r. pool_inv {} (snd r) \<and> pres {} s (snd r) \<and> fst r \<le> CORE_PREFETCH_RATE) stops"
  unfolding core_try_prefetch_def wpE_bindE wpE_assertE
proof (intro conjI impI wpE_mono [OF collect_wp [OF s(1,2)]], goal_cases)
  case (2 r)
  obtain ps s1 where r: "r = (ps, s1)" by (cases r)
  have c: "pool_inv (set ps) s1" "distinct ps" "\<forall>p \<in> set ps. inbound s1 p" "length ps \<le> CORE_PREFETCH_RATE" and p1: "pres {} s s1"
    using 2 by (auto simp: r)
  have "wpE (bindE (alloc_prefetch_buffer K s1) (\<lambda>s. bindE (prefetch_prepare K ps (prefetch_buffer (me s)) s) (ioring_submit_all_reads K)))
     (\<lambda>s'. io_only s1 s' \<and> (ps \<noteq> [] \<longrightarrow> uring_read_init (me s'))) stops"
    unfolding wpE_bindE
  proof (rule alloc_prefetch_buffer_wp, rule wpE_mono [OF prepare_io], goal_cases)
    case (1 k t s')
    then have io: "io_only s1 s'" using io_only_trans io_onlyI [of s1 t k] by blast
    show ?case
      by (rule wpE_mono [OF ioring_io(6)]) (use 1 io in \<open>auto intro: io_only_trans io_only_read_ring\<close>)
  qed simp_all
  then have "wpE (bindE (alloc_prefetch_buffer K s1) (\<lambda>s. bindE (prefetch_prepare K ps (prefetch_buffer (me s)) s) (ioring_submit_all_reads K)))
     (\<lambda>s2. wpE (prefetch_frames P (length ps) s2) (\<lambda>r. wpE (prefetch_finish K ps (prefetch_buffer (me (snd r))) (snd r))
       (\<lambda>s4. wpE (prefetch_map K P (zip ps (fst r)) (prefetch_buffer (me s4)) s4) (\<lambda>s'. pool_inv {} s' \<and> pres {} s s') stops) stops) stops) stops"
  proof (rule wpE_mono, goal_cases)
    case (1 s2)
    then have p2: "pres (set ps) s1 s2" "pool_inv (set ps) s2" and ring: "uring_read_init (me s2) \<or> ps = []"
      using io_pres [of s1 s2 "set ps" "set ps"] c(1) by auto
    have inb: "\<forall>p \<in> set ps. inbound s2 p" using c(3) inbound_pres [OF _ p2(1)] by blast
    have sz: "nframes s2 = nframes s" "\<not> shrinkage_running s2"
      using pres_size [OF p1] pres_size [OF p2(1)] pres_scan [OF p2(1) pres_scan [OF p1 s(3)]] by auto
    have bound: "2 * (frames_held (set ps) s2 + length ps) < nframes s2 + 2"
      using frames_held_inbound [OF inb] c(4) s(4) sz by (simp add: CORE_PREFETCH_RATE_def)
    show ?case
    proof (rule wpE_mono [OF frames_wp [OF p2(2) sz(2) bound]], goal_cases)
      case (1 r)
      obtain fps s3 where r: "r = (fps, s3)" by (cases r)
      have f: "pool_inv (set ps \<union> set fps) s3" "distinct fps" "set ps \<inter> set fps = {}" "\<forall>p \<in> set fps. vacant s3 p"
        "length fps = length ps" and p3: "pres (set ps) s2 s3" using 1 by (auto simp: r)
      have ring3: "uring_read_init (me s3) \<or> ps = []" using ring presD(1) [OF p3] by (auto simp: env_def tls_le_def)
      show ?case unfolding r fst_conv snd_conv
      proof (rule wpE_mono [OF finish_io [OF ring3]], goal_cases)
        case (1 s4)
        note p4 = conjunct1 [OF io_pres [OF 1, of "set ps \<union> set fps"]] conjunct2 [OF io_pres [OF 1, of _ "set ps \<union> set fps"]]
        have "pres {} s s4" using p1 p2(1) p3 p4(1) by (meson empty_subsetI pres_mono pres_trans)
        moreover have "\<forall>p \<in> set ps. inbound s4 p" using inb inbound_pres [OF inbound_pres [OF _ p3] p4(1)] by blast
        moreover have "\<forall>p \<in> set fps. vacant s4 p" using f(4) vacant_pres [OF _ p4(1)] by blast
        ultimately show ?case using f c(2) p4(2)
          by (intro wpE_mono [OF map_wp]) (auto intro: pres_trans)
      qed simp
    qed simp
  qed simp
  then show ?case using c(4) unfolding r by (simp add: wp_simps case_prod_beta)
qed (use b in simp_all)

end

end
