(* ===== verification/Core_Handlers.thy ===== *)
theory Core_Handlers
  imports Core_Prefetch
begin

text \<open>
  Major faults and the signal handler, over any policy that keeps the contract.
\<close>

section \<open>Major faults\<close>

lemma sequential_internal [simp]: "sequential_fault m b (tls (set_internal i s) (cur s)) = sequential_fault m b (me s)"
  by (simp add: sequential_fault_def set_internal_def upd_me_def)

lemma mapped_I: "p \<in> tracked s \<Longrightarrow> va (heap s p) \<noteq> 0 \<Longrightarrow> va (heap s p) \<in> mapped s"
  by (auto simp: mapped_def)

lemma in_memory_I: "p \<in> tracked s \<Longrightarrow> va (heap s p) \<noteq> 0 \<Longrightarrow> in_dram (heap s p) \<Longrightarrow> va (heap s p) \<in> in_memory s"
  by (auto simp: in_memory_def)

lemma page_aligned_mask: "page_aligned (a AND NOT (PAGE_SIZE - 1))"
proof -
  have "take_bit 12 (a AND NOT (mask 12)) = (0 :: u64)"
    by (rule bit_eqI) (auto simp: bit_simps)
  then show ?thesis by (simp add: page_aligned_def take_bit_eq_mod mask_eq_exp_minus_1)
qed

context fault_policy
begin

lemma missing_fault_wp:
  assumes s: "sys_inv {} s" "63 \<le> nframes s" and p: "p \<in> tracked s" "va (heap s p) \<noteq> 0"
  shows "wpE (handle_missing_fault K P p s) (\<lambda>s'. sys_inv {} s' \<and> config s s' \<and> mapped s' = mapped s \<and>
     (sequential_fault False (va (heap s p)) (me s) \<or> va (heap s p) \<in> in_memory s')) stops"
proof -
  let ?b = "va (heap s p)"
  let ?R = "\<lambda>s'. sys_inv {} s' \<and> config s s' \<and> mapped s' = mapped s"
  let ?Q = "\<lambda>s'. ?R s' \<and> (sequential_fault False ?b (me s) \<or> ?b \<in> in_memory s')"
  let ?s = "set_internal True s"
  note tp = tracked_page [OF sys_invD(1,2) [OF s(1)] p]
  have h: "\<not> held s Handler_lock" by (rule pool_invD(2) [OF sys_invD(1) [OF s(1)]])
  have R: "?R (set_internal i s')" if "pool_inv {} s'" "pres {} s s'" for s' i
    using sys_inv_internal [OF sys_inv_pres [OF s(1) that]] env_config [OF presD(1) [OF that(2)]] mapped_pres [OF that(2)] by simp
  show ?thesis
  proof (cases "swapped_out (heap s p)")
    case False
    have "?R (count_wait ?s)" using sys_inv_count [OF sys_inv_internal [OF s(1)]] by (simp add: count_wait_def)
    moreover have "?b \<in> in_memory (count_wait ?s)" using tp False p by (simp add: count_wait_def in_memory_I)
    moreover have "unlock Handler_lock (count_wait (?s\<lparr>held := (held s)(Handler_lock := True)\<rparr>)) = count_wait ?s"
      using h by (simp add: count_wait_def count_def unlock_def fun_upd_idem)
    ultimately show ?thesis using False tp h
      by (simp add: handle_missing_fault_def wp_simps busy_wait_def) (simp add: count_wait_def)
  next
    case True
    define w where "w = upd_me (\<lambda>t. t\<lparr>prev_fault_2 := prev_fault_1 t, prev_fault_1 := ?b\<rparr>) (mark p ?s)"
    have w: "heap w = heap (mark p s)" "lists w = lists s" "held w = held s" "dramsize w = dramsize s" "disksize w = disksize s"
      "shrinkage_running w = shrinkage_running s" by (simp_all add: w_def upd_me_def) (simp add: upd_page_def)
    have pw: "pres {} s w"
      using tp(1) by (simp add: w_def pres_def env_def upd_me_def upd_page_def set_internal_def tls_le_upd)
    have ca: "can_alloc {} w" using w s(2) sys_invD(4) [OF s(1)] by (simp add: can_alloc_def frames_held_def nframes_def)
    have iw: "pool_inv {} (unmark p w)" using unmark_internal [OF w(1-5)] tp(2,6) sys_invD(1) [OF s(1)] by (simp add: tp(2))
    have lw: "page_list w p = Some Disk_active_list" using w(2) tp(5) True by simp
    let ?m = "sequential_fault False ?b (me s)"
    have tail: "wpE (bindE (if ?m then bindE (core_try_prefetch K P ?b u) (\<lambda>(_, s). Inr s) else Inr u)
        (\<lambda>s. Inr (set_internal False s))) ?Q stops"
      if u: "pool_inv {} u" "pres {} s u" "\<not> swapped_out (heap u p)" for u
    proof -
      have su: "sys_inv {} u" by (rule sys_inv_pres [OF s(1) u(1,2)])
      have pu: "p \<in> tracked u" "va (heap u p) = ?b" using p(1) presD(1) [OF u(2)] presD(3) [OF u(2)] by (simp_all add: env_def)
      have "in_dram (heap u p)" using tracked_page(6) [OF sys_invD(1,2) [OF su] pu(1)] u(3) pu(2) p(2) by simp
      then have res: "?b \<in> in_memory u" using in_memory_I [OF pu(1)] pu(2) p(2) by simp
      have "wpE (core_try_prefetch K P ?b u) (\<lambda>r. pool_inv {} (snd r) \<and> pres {} s (snd r)) stops"
        by (rule wpE_mono [OF prefetch_wp [OF sys_invD(1,2,4) [OF su] _ p(2)]])
          (use s(2) pres_size [OF u(2)] u(2) in \<open>auto intro: pres_trans\<close>)
      then have "wpE (core_try_prefetch K P ?b u) (\<lambda>r. ?R (set_internal False (snd r))) stops"
        by (rule wpE_mono) (use R in blast, simp)
      then show ?thesis using R [OF u(1,2), of False] res by (auto simp: wp_simps case_prod_beta)
    qed
    have "wpE (page_swapin_external_async P p w) (\<lambda>x. va (heap x p) = ?b \<and> \<not> held x Handler_lock \<and>
        pool_inv {} (settle p x) \<and> pres {} s (settle p x)) stops"
    proof (rule wpE_mono [OF swapin_law [OF iw lw ca]], goal_cases)
      case (1 x)
      then have "pres {} s (settle p x)" using pw pres_trans by blast
      then show ?case using 1 presD(3) [of "{}" s "settle p x" p] pool_invD(2) [of "{}" "settle p x"] by simp
    qed
    then have "wpE (page_swapin_external_async P p w) (\<lambda>x. va (heap x p) = ?b \<and> \<not> held x Handler_lock \<and>
        wpE (bindE (if ?m then bindE (core_try_prefetch K P ?b (count g (settle p x))) (\<lambda>(_, s). Inr s) else Inr (count g (settle p x)))
        (\<lambda>s. Inr (set_internal False s))) ?Q stops) stops" for g
      by (rule wpE_mono) (intro conjI tail; simp)+
    note run = this
    have "unlock Handler_lock (mark p (?s\<lparr>held := (held s)(Handler_lock := True)\<rparr>)) = mark p ?s"
      using h by (simp add: unlock_def upd_page_def fun_upd_idem)
    then show ?thesis using True tp(2,3) h p(2)
      by (simp add: handle_missing_fault_def wp_simps page_aligned_def w_def [symmetric])
        (rule wpE_mono [OF run [of "\<lambda>c. c\<lparr>major_faults_handled := major_faults_handled c + 1\<rparr>"]]; simp add: unlock_upd_page wp_simps)
  qed
qed


section \<open>The signal handler\<close>

lemma sig_handler_wp:
  assumes s: "sys_inv {} s" "63 \<le> nframes s" and c: "code \<noteq> SIGSEGV" and b: "b = a AND NOT (PAGE_SIZE - 1)" "b \<noteq> 0"
  shows "wpE (uswap_sig_handler K P code a s) (\<lambda>s'. sys_inv {} s' \<and> config s s' \<and> mapped s' = insert b (mapped s) \<and>
     (sequential_fault False b (me s) \<or> b \<in> in_memory s')) stops"
proof -
  let ?s = "set_internal True s"
  let ?Q = "\<lambda>s'. sys_inv {} s' \<and> config s s' \<and> mapped s' = insert b (mapped s) \<and> (sequential_fault False b (me s) \<or> b \<in> in_memory s')"
  have s0: "sys_inv {} ?s" "63 \<le> nframes ?s" using sys_inv_internal [OF s(1)] s(2) by (simp_all add: nframes_def)
  have "wpE (find_page b ?s) (\<lambda>r. wpE (case fst r of None \<Rightarrow> handle_first_fault K P b (snd r)
     | Some page \<Rightarrow> if swapped_out (heap (snd r) page) then handle_missing_fault K P page (snd r) else handle_wp_fault page (snd r))
     (\<lambda>s'. ?Q (set_internal False s')) stops) stops"
  proof (rule index_find_wp [OF sys_invD(2) [OF s0(1)]], goal_cases)
    case (1 r)
    show ?case
    proof (cases r)
      case None
      then have "b \<notin> mapped s" using 1 by (auto simp: mapped_def)
      moreover have "0 < nframes ?s" using s0(2) by simp
      moreover have "page_aligned b" using page_aligned_mask [of a] b(1) by simp
      ultimately have "wpE (handle_first_fault K P b ?s) (\<lambda>s'. ?Q (set_internal False s')) stops"
        by (intro wpE_mono [OF first_fault_wp [OF s0(1) _ b(2)]]) (auto simp: sys_inv_internal)
      then show ?thesis using None by simp
    next
      case (Some p)
      then have p: "p \<in> tracked ?s" "va (heap ?s p) = b" using 1 [of p] by simp_all
      have m: "insert b (mapped s) = mapped s" using mapped_I [OF p(1)] p(2) b(2) by auto
      have go: "wpE (if swapped_out (heap ?s p) then handle_missing_fault K P p ?s else handle_wp_fault p ?s)
        (\<lambda>s'. ?Q (set_internal False s')) stops"
      proof (cases "swapped_out (heap ?s p)")
        case True
        have "va (heap ?s p) \<noteq> 0" using p b by simp
        from missing_fault_wp [OF s0 p(1) this] show ?thesis
          unfolding if_P [OF True] by (rule wpE_mono) (use p(2) m in \<open>auto simp: sys_inv_internal\<close>)
      next
        case False
        then have "b \<in> in_memory ?s"
          using tracked_page(6) [OF sys_invD(1,2) [OF s0(1)] p(1)] p b(2) in_memory_I [OF p(1)] by simp
        then show ?thesis using False m sys_inv_internal [OF sys_inv_count [OF s0(1)]]
          by (simp add: handle_wp_fault_run [OF s0(1) p(1)] count_wait_def wp_simps)
      qed
      then show ?thesis using Some by (auto split: if_splits)
    qed
  qed
  then show ?thesis using c unfolding uswap_sig_handler_def Let_def b(1) [symmetric]
    by (simp add: wpE_bindE wpE_assertE wpE_Inr case_prod_beta)
qed

end

end
