(* ===== verification/Core_Regions.thy ===== *)
theory Core_Regions
  imports Core_Handlers
begin

text \<open>
  \<open>mmap\<close> and \<open>munmap\<close> over any policy that keeps the contract: which addresses are managed
  afterwards, and that the loops over a region end.
\<close>

section \<open>Pages of a region\<close>

text \<open>The region ends at least a page below the top of the address space, as every user mapping does.\<close>

definition region_ok :: "u64 \<Rightarrow> u64 \<Rightarrow> bool" where
  "region_ok b e \<longleftrightarrow> b \<noteq> 0 \<and> page_aligned b \<and> unat e + 4096 \<le> 2 ^ 64"

definition region :: "u64 \<Rightarrow> u64 \<Rightarrow> u64 set" where
  "region b e = {a. page_aligned a \<and> b \<le> a \<and> a < e}"

lemma page_aligned_unat: "page_aligned a \<longleftrightarrow> 4096 dvd unat a"
  by (simp add: page_aligned_def unat_mod mod_eq_0_iff_dvd flip: unat_eq_zero)

lemma unat_step: "unat (b :: u64) < unat e \<Longrightarrow> unat e + 4096 \<le> 2 ^ 64 \<Longrightarrow> unat (b + PAGE_SIZE) = unat b + 4096"
  by (simp add: unat_word_ariths)

lemma region_step:
  assumes "region_ok b e" "b < e"
  shows "b < b + PAGE_SIZE" "region_ok (b + PAGE_SIZE) e" "region b e = insert b (region (b + PAGE_SIZE) e)"
proof -
  have u: "unat (b + PAGE_SIZE) = unat b + 4096" using assms by (intro unat_step) (auto simp: region_ok_def word_less_nat_alt)
  then show lt: "b < b + PAGE_SIZE" by (simp add: word_less_nat_alt)
  have "b + PAGE_SIZE \<noteq> 0" using u by (metis add_is_0 unat_0 zero_neq_numeral)
  then show "region_ok (b + PAGE_SIZE) e" using assms u by (simp add: region_ok_def page_aligned_unat)
  have "a = b \<or> unat b + 4096 \<le> unat a" if a: "page_aligned a" "unat b \<le> unat a" for a
  proof -
    have "4096 dvd unat a" "4096 dvd unat b" using a assms by (simp_all add: page_aligned_unat region_ok_def)
    then have "4096 dvd unat a - unat b" by (simp add: a(2))
    with a(2) show ?thesis by (cases "unat a = unat b") (auto dest!: dvd_imp_le simp: unsigned_word_eqI)
  qed
  with u assms show "region b e = insert b (region (b + PAGE_SIZE) e)"
    by (auto simp: region_def region_ok_def word_le_nat_alt word_less_nat_alt page_aligned_unat)
qed

lemma region_empty: "\<not> b < e \<Longrightarrow> region b e = {}"
  by (auto simp: region_def)

section \<open>Populating a region\<close>

context fault_policy
begin

lemma populate_loop_wp:
  assumes "sys_inv {} s" "0 < nframes s" "region_ok b e"
  shows "wpE (populate_loop K P b e s) (\<lambda>s'. sys_inv {} s' \<and> config s s' \<and> mapped s' = mapped s \<union> region b e) stops"
  using assms
proof (induction "unat e - unat b" arbitrary: b s rule: less_induct)
  case less
  show ?case
  proof (cases "b < e")
    case True
    note r = region_step [OF less.prems(3) True]
    have "wpE (handle_first_fault K P b s) (\<lambda>s'. wpE (populate_loop K P (b + PAGE_SIZE) e s')
       (\<lambda>s'. sys_inv {} s' \<and> config s s' \<and> mapped s' = mapped s \<union> region b e) stops) stops"
    proof (rule wpE_mono [OF first_fault_wp [OF less.prems(1,2)]], goal_cases)
      case (3 s')
      show ?case
      proof (rule wpE_mono [OF less.hyps], goal_cases)
        case 1
        then show ?case using True r(1) by (simp add: word_less_nat_alt)
      qed (use 3 less.prems(2) r in \<open>auto simp: config_size intro: config_trans\<close>)
    qed (use less.prems(3) in \<open>simp_all add: region_ok_def\<close>)
    then show ?thesis using True r(1) by (subst populate_loop.simps) (simp add: wp_simps)
  qed (use less.prems region_empty [of b e] in \<open>simp add: populate_loop.simps [of K P b e s] wp_simps\<close>)
qed

end

section \<open>Removing a page\<close>

lemma index_del_wp:
  assumes "index_ok s" "p \<in> tracked s"
    and Q: "\<And>t. index_ok (s\<lparr>pages := t\<rparr>) \<Longrightarrow> set (app_order t) = tracked s - {p} \<Longrightarrow> Q (s\<lparr>pages := t\<rparr>)"
  shows "wpE (remove_page p s) Q E"
proof -
  obtain s' where s': "remove_page p s = Inr s'" "index_ok s'" "tracked s' = tracked s - {p}" "without_index s' = without_index s"
    using index.del_spec [OF assms(1,2)] by blast
  have "s' = (without_index s')\<lparr>pages := pages s'\<rparr>" by (simp add: without_index_def)
  also have "\<dots> = s\<lparr>pages := pages s'\<rparr>" unfolding s'(4) by (simp add: without_index_def)
  finally have "s' = s\<lparr>pages := pages s'\<rparr>" .
  with s' Q [of "pages s'"] show ?thesis by (simp add: wpE_Inr)
qed

text \<open>The invariant while \<open>munmap\<close> holds the allocator's mutex.\<close>

definition unmapping_inv :: "'k ext \<Rightarrow> bool" where
  "unmapping_inv s \<longleftrightarrow> pool_inv {} s \<and> index_inv s \<and> \<not> shrinkage_running s"

lemma unmapping_inv_count: "unmapping_inv s \<Longrightarrow> unmapping_inv (count f s)"
  using sys_inv_count index_inv_pres [of s "{}" "count f s"] by (simp add: unmapping_inv_def) (simp add: count_def)

lemma mapped_aligned:
  assumes "unmapping_inv s" "a \<in> mapped s"
  shows "page_aligned a"
proof -
  obtain p where "p \<in> tracked s" "va (heap s p) \<noteq> 0" "a = va (heap s p)" using assms(2) by (auto simp: mapped_def)
  then show ?thesis using tracked_page(3) [of "{}" s p] assms(1) by (simp add: unmapping_inv_def)
qed

context paging_policy
begin

lemma halts_kernel [simp]: "halts Kernel_failed"
  by (rule halts_stops) simp

lemma munmap_page_wp:
  assumes s: "unmapping_inv s" and p: "p \<in> tracked s" "va (heap s p) \<noteq> 0"
  shows "wpE (munmap_page P p s) (\<lambda>s'. unmapping_inv s' \<and> config s s' \<and> mapped s' = mapped s - {va (heap s p)} \<and>
     pt (heap s' p) = BASEP) halts"
proof -
  have i: "pool_inv {} s" "index_inv s" using s by (simp_all add: unmapping_inv_def)
  note tp = tracked_page [OF i p]
  obtain l where l: "page_list s p = Some l" "l \<in> {Active_list, Inactive_list, Eviction_list, Disk_active_list}" using tp(4) by auto
  have iok: "index_ok (mark p s)" using i(2) by (auto simp: index_inv_def index_ok_def intro: table_ok_cong [THEN iffD1, rotated])
  have "wpE (remove_page p (mark p s)) (\<lambda>x. wpE (mmgr_remove P p x) (\<lambda>s'. unmapping_inv s' \<and> config s s' \<and>
      mapped s' = mapped s - {va (heap s p)} \<and> pt (heap s' p) = BASEP) halts) halts"
  proof (rule index_del_wp [OF iok], goal_cases)
    case (2 t)
    let ?u = "mark p s\<lparr>pages := t\<rparr>"
    have "pool_inv {} (unmark p ?u) = pool_inv {} s" by (rule unmark_internal) (use tp in simp_all)
    then have pu: "pool_inv {} (unmark p ?u)" using i by simp
    have lu: "page_list ?u p = Some l" using l by simp
    show ?case
    proof (rule wpE_mono [OF remove_law [OF pu lu l(2)]], goal_cases)
      case (1 x)
      then have x: "pool_inv {} x" "env ?u x" "\<And>q. q \<noteq> p \<Longrightarrow> va (heap x q) = va (heap s q)" "va (heap x p) = 0"
        "\<And>q. npool s \<le> q \<Longrightarrow> heap x q = heap s q" using tp(1) by (auto simp: only_changes_def npool_def)
      have e: "config s x" "pages x = t" "held x = held s" "npool x = npool s"
        using x(2) by (simp_all add: env_def config_def npool_def) (simp add: upd_page_def)+
      have tr: "set (app_order t) = tracked s - {p}" using 2 by simp
      have "index_ok x" using 2(1) e(2,3) x(3) tr unfolding index_ok_def
        by (auto intro: table_ok_cong [THEN iffD1, rotated])
      moreover have "tracked x = insert (npool x) {q. q < npool x \<and> va (heap x q) \<noteq> 0}"
      proof -
        have ts: "tracked s = insert (npool s) {q. q < npool s \<and> va (heap s q) \<noteq> 0}" using i(2) by (simp add: index_inv_def)
        have "q \<in> insert (npool s) {q. q < npool s \<and> va (heap s q) \<noteq> 0} - {p} \<longleftrightarrow>
            q \<in> insert (npool s) {q. q < npool s \<and> va (heap x q) \<noteq> 0}" for q
          using tp(1) x(3,4) by (cases "q = p") simp_all
        then show ?thesis unfolding e(2,4) tr ts by blast
      qed
      ultimately have "index_inv x" using i(2) e(4) x(5) by (simp add: index_inv_def)
      moreover have "mapped x = mapped s - {va (heap s p)}"
      proof -
        have "va (heap s q) \<noteq> va (heap s p)" if "q \<in> tracked s" "q \<noteq> p" for q
          using index.tracked_unique [of s q p] that p(1) i(2) by (auto simp: index_inv_def)
        then show ?thesis unfolding mapped_def e(2) tr using x(3,4) p(1) by (auto; metis)
      qed
      moreover have "\<not> shrinkage_running x" using s x(2) by (simp add: unmapping_inv_def env_def upd_page_def)
      ultimately show ?case using x(1) e pool_invD(4) [OF x(1), of p] tp(1) by (simp add: unmapping_inv_def)
    qed
  qed (use p in simp)
  note base = this
  show ?thesis using tp(2) pool_invD(2) [OF i(1)]
    by (simp add: munmap_page_def wp_simps unlock_upd_page)
      (rule wpE_mono [OF base], erule wpE_mono, simp_all add: unmapping_inv_count)
qed

lemma munmap_loop_wp:
  assumes "unmapping_inv s" "region_ok b e"
  shows "wpE (munmap_loop P b e s) (\<lambda>s'. unmapping_inv s' \<and> config s s' \<and> mapped s' = mapped s - region b e) halts"
  using assms
proof (induction "unat e - unat b" arbitrary: b s rule: less_induct)
  case less
  let ?Q = "\<lambda>s'. unmapping_inv s' \<and> config s s' \<and> mapped s' = mapped s - region b e"
  show ?case
  proof (cases "b < e")
    case True
    note r = region_step [OF less.prems(2) True]
    have b: "b \<noteq> 0" using less.prems(2) by (simp add: region_ok_def)
    have rec: "wpE (munmap_loop P (b + PAGE_SIZE) e s') ?Q halts"
      if "unmapping_inv s'" "config s s'" "mapped s' = mapped s - {b}" for s'
    proof (rule wpE_mono [OF less.hyps], goal_cases)
      case 1
      then show ?case using True r(1) by (simp add: word_less_nat_alt)
    qed (use that r in \<open>auto intro: config_trans\<close>)
    have "wpE (find_page b s) (\<lambda>x. wpE (case fst x of Some page \<Rightarrow> bindE (munmap_page P page (snd x)) (\<lambda>s.
         Inr (b + pt_to_pagesize (pt (heap s page)), s)) | None \<Rightarrow> Inr (b + BASEPAGE_SIZE, snd x))
       (\<lambda>y. b < fst y \<and> wpE (munmap_loop P (fst y) e (snd y)) ?Q halts) halts) halts"
    proof (rule index_find_wp, goal_cases)
      case 1
      then show ?case using less.prems(1) by (simp add: unmapping_inv_def)
    next
      case (2 x)
      show ?case
      proof (cases x)
        case None
        then have "b \<notin> mapped s" using 2 by (auto simp: mapped_def)
        then show ?thesis using None rec [of s] less.prems(1) r(1) by (simp add: wp_simps)
      next
        case (Some p)
        then have p: "p \<in> tracked s" "va (heap s p) = b" using 2 [of p] by simp_all
        have "wpE (munmap_page P p s) (\<lambda>s. b < b + pt_to_pagesize (pt (heap s p)) \<and>
            wpE (munmap_loop P (b + pt_to_pagesize (pt (heap s p))) e s) ?Q halts) halts"
          by (rule wpE_mono [OF munmap_page_wp [OF less.prems(1) p(1)]]) (use p b r(1) rec in simp_all)
        then show ?thesis using Some by (simp add: wp_simps)
      qed
    qed
    then show ?thesis using True by (subst munmap_loop.simps) (auto simp: wp_simps case_prod_beta elim!: wpE_mono)
  qed (use less.prems region_empty [of b e] in \<open>simp add: munmap_loop.simps [of P b e s] wp_simps\<close>)
qed


end

section \<open>munmap and mmap\<close>

lemma pool_inv_allocator [simp]: "pool_inv F (s\<lparr>held := (held s)(Allocator_lock := b)\<rparr>) = pool_inv F s"
proof -
  let ?s = "s\<lparr>held := (held s)(Allocator_lock := b)\<rparr>"
  have "fits ?s l p = fits s l p" for l p by (cases l) (simp_all add: fits_def resident_page_def backed_def)
  then have "filed ?s p = filed s p" for p by (simp add: filed_def)
  then show ?thesis by (simp add: pool_inv_def queues_free_def frame_def [abs_def] all_frames_def)
qed

lemma index_inv_allocator: "index_inv s \<Longrightarrow> index_inv (s\<lparr>held := (held s)(Allocator_lock := b)\<rparr>)"
  by (erule index_inv_cong) simp_all

text \<open>
  What \<open>mmap(2)\<close> promises: it fails for length 0, and a region it returns is page-aligned and lies in
  the user part of the address space.
\<close>

definition mmap_contract :: "'k kernel \<Rightarrow> bool" where
  "mmap_contract K \<longleftrightarrow> (\<forall>addr len prot flags off k p k'. k_mmap K addr len prot flags off k = (Some p, k') \<longrightarrow>
     len \<noteq> 0 \<and> page_aligned p \<and> unat p + unat len + 4096 \<le> 2 ^ 64)"

lemma mmap_region:
  assumes "mmap_contract K" "k_mmap K addr len prot flags off k = (Some p, k')" "p \<noteq> 0"
  shows "len \<noteq> 0" "region_ok p (p + len)"
proof -
  have l: "len \<noteq> 0" "page_aligned p" "unat p + unat len + 4096 \<le> 2 ^ 64" using assms(1,2) unfolding mmap_contract_def by blast+
  then have "unat (p + len) = unat p + unat len" by (simp add: unat_word_ariths)
  with l assms(3) show "len \<noteq> 0" "region_ok p (p + len)" by (simp_all add: region_ok_def)
qed

context paging_policy
begin

lemma extmem_munmap_wp:
  assumes s: "sys_inv {} s" and r: "region_ok addr (addr + len)"
  shows "wpE (extmem_munmap K P addr len s)
    (\<lambda>s'. sys_inv {} s' \<and> config s s' \<and> mapped s' = mapped s - region addr (addr + len)) halts"
proof -
  let ?s = "set_internal True s"
  let ?l = "?s\<lparr>held := (held ?s)(Allocator_lock := True)\<rparr>"
  note s0 = sys_inv_internal [OF s, of True]
  have u: "unmapping_inv ?l" using sys_invD [OF s0] index_inv_allocator [of ?s True] pool_inv_allocator [of "{}" ?s True] by (simp add: unmapping_inv_def)
  have "wpE (munmap_loop P addr (addr + len) ?l) (\<lambda>x. \<forall>k. sys_inv {} (set_internal False (unlock Allocator_lock (x\<lparr>kst := k\<rparr>))) \<and>
      config s (unlock Allocator_lock (x\<lparr>kst := k\<rparr>)) \<and>
      mapped (unlock Allocator_lock (x\<lparr>kst := k\<rparr>)) = mapped s - region addr (addr + len)) halts"
  proof (rule wpE_mono [OF munmap_loop_wp [OF u r]], intro allI, goal_cases)
    case (1 x k)
    let ?x = "unlock Allocator_lock (x\<lparr>kst := k\<rparr>)"
    have x: "pool_inv {} x" "index_inv x" "\<not> shrinkage_running x" "config ?l x" "mapped x = mapped s - region addr (addr + len)"
      using 1 by (simp_all add: unmapping_inv_def) (simp add: mapped_def)
    have "index_inv (x\<lparr>kst := k\<rparr>)" by (rule index_inv_cong [OF x(2)]) simp_all
    from index_inv_allocator [OF this, of False] have "index_inv ?x" by (simp add: unlock_def)
    moreover have "pool_inv {} ?x" using x(1) pool_inv_allocator [of "{}" "x\<lparr>kst := k\<rparr>" False] by (simp add: unlock_def)
    ultimately have "sys_inv {} ?x" using x(3) by (simp add: sys_inv_def) (simp add: unlock_def)
    moreover have "config s ?x" using x(4) sys_invD(3) [OF s]
      by (auto simp: config_def set_internal_def upd_me_def unlock_def fun_upd_idem)
    ultimately show ?case using x(5) by (simp add: sys_inv_internal mapped_def)
  qed
  then show ?thesis using sys_invD(3) [OF s]
    by (simp add: extmem_munmap_def wp_simps) (erule wpE_mono, simp_all)
qed

end

context fault_policy
begin

lemma extmem_mmap_wp:
  assumes s: "sys_inv {} s" "0 < nframes s" "is_init s" and len: "len \<noteq> 0" and K: "mmap_contract K"
  shows "wpE (extmem_mmap K P addr len prot flags off s) (\<lambda>r. sys_inv {} (snd r) \<and> config s (snd r) \<and>
     mapped (snd r) = mapped s \<union> (if snd (mmap_flags flags) then region (fst r) (fst r + PAGE_ROUND_UP len) else {})) stops"
proof -
  let ?len = "PAGE_ROUND_UP len" and ?s = "set_internal True s"
  let ?R = "\<lambda>p s'. sys_inv {} s' \<and> config s s' \<and>
     mapped s' = mapped s \<union> (if snd (mmap_flags flags) then region p (p + ?len) else {})"
  have body: "wpE (bindE (kcall (k_uffd_register K p ?len) (?s\<lparr>kst := k, main_mmap := p\<rparr>)) (\<lambda>s.
      if snd (mmap_flags flags) then extmem_mmap_populate K P p ?len s else Inr s))
      (?R p) stops"
    if m: "k_mmap K addr ?len prot (fst (mmap_flags flags)) off (kst s) = (Some p, k)" "p \<noteq> 0" for p k
  proof -
    note r = mmap_region [OF K m]
    have u: "sys_inv {} (?s\<lparr>main_mmap := p, kst := k'\<rparr>)" "config s (?s\<lparr>main_mmap := p, kst := k'\<rparr>)"
      "0 < nframes (?s\<lparr>main_mmap := p, kst := k'\<rparr>)" "mapped (?s\<lparr>main_mmap := p, kst := k'\<rparr>) = mapped s" for k'
    proof -
      let ?u = "?s\<lparr>main_mmap := p, kst := k'\<rparr>"
      note s0 = sys_inv_internal [OF s(1), of True]
      have "index_inv ?u" by (rule index_inv_cong [OF sys_invD(2) [OF s0]]) (simp_all add: npool_def)
      moreover have "pool_inv {} ?u = pool_inv {} ?s" by (rule pool_inv_cong) simp_all
      ultimately show "sys_inv {} ?u" using sys_invD [OF s0] by (simp add: sys_inv_def)
      show "config s ?u" by (simp add: config_def) (simp add: set_internal_def upd_me_def)
      show "0 < nframes ?u" "mapped ?u = mapped s" using s(2) by (simp_all add: nframes_def mapped_def)
    qed
    have "wpE (extmem_mmap_populate K P p ?len (?s\<lparr>main_mmap := p, kst := k'\<rparr>)) (\<lambda>s'. sys_inv {} s' \<and> config s s' \<and>
        mapped s' = mapped s \<union> region p (p + ?len)) stops" for k'
      using r m(2) by (simp add: extmem_mmap_populate_def wp_simps)
        (rule wpE_mono [OF populate_loop_wp [OF u(1,3) r(2)]], use u in \<open>auto intro: config_trans\<close>)
    with u show ?thesis by (auto simp: wp_simps)
  qed
  have fin: "?R p (set_internal False (policy_ack_vma P a l pr (count g s')))" if "?R p s'" for p s' a l pr g
  proof -
    let ?v = "policy_ack_vma P a l pr (count g s')"
    have c: "sys_inv {} (count g s')" using that by (simp add: sys_inv_count)
    note v = ack_vma_law [OF sys_invD(1) [OF c], of a l pr]
    have "sys_inv {} ?v" using sys_inv_pres [OF c] v by blast
    moreover have "config s ?v" using that v env_config [OF presD(1)] config_trans [of s "count g s'" ?v] by auto
    moreover have "mapped ?v = mapped s'" using mapped_pres [of "{}" "count g s'" ?v] v by simp
    ultimately show ?thesis using that by (simp add: sys_inv_internal)
  qed
  obtain q k where mm: "k_mmap K addr ?len prot (fst (mmap_flags flags)) off (kst s) = (q, k)" by fastforce
  obtain fl np where fl: "mmap_flags flags = (fl, np)" by fastforce
  show ?thesis
  proof (cases q)
    case (Some p)
    show ?thesis
    proof (cases "p = 0")
      case False
      have "wpE (bindE (kcall (k_uffd_register K p ?len) (?s\<lparr>kst := k, main_mmap := p\<rparr>)) (\<lambda>s.
          if np then extmem_mmap_populate K P p ?len s else Inr s))
          (\<lambda>x. ?R p (set_internal False (policy_ack_vma P p ?len 0 (count (\<lambda>c. c\<lparr>mem_mmaped := ?len\<rparr>) x)))) stops"
        using wpE_mono [OF body [of p k] fin] mm Some False fl by simp
      then show ?thesis using s len mm Some False fl
        by (simp add: extmem_mmap_def wp_simps)
    qed (use s len mm Some fl in \<open>simp add: extmem_mmap_def wp_simps\<close>)
  qed (use s len mm fl in \<open>simp add: extmem_mmap_def wp_simps\<close>)
qed

end

end
