(* ===== verification/Disklinux_Init.thy ===== *)
theory Disklinux_Init
  imports Disklinux_Alloc Disklinux_Vector Core_Regions
begin

text \<open>
  The initialisation of the policy establishes the pool invariant: one descriptor for every DRAM
  frame and for every disk slot, all of them free.
\<close>

definition pool_page :: "bool \<Rightarrow> nat \<Rightarrow> user_page" where
  "pool_page dram i = calloc_page\<lparr>virtual_offset := word_of_nat i * PAGE_SIZE, present := False,
     in_dram := dram, swapped_out := \<not> dram, pt := BASEP, has_reserve := False, reserve := None\<rparr>"

lemma init_pool_Cons [simp]:
  "init_pool dram l (i # is) s = bindE (new_page (pool_page dram i) l s) (init_pool dram l is)"
  by (simp add: pagesize_to_pt_def pool_page_def)

declare init_pool.simps(2) [simp del]

lemma new_page_wp:
  assumes "queues_free s" "page_list s (nalloc s) = None"
    and Q: "\<And>fs. lists_ok fs \<Longrightarrow>
      (\<And>q. list_p (link fs q) = (if q = nalloc s then Some l else page_list s q)) \<Longrightarrow>
      Q (s\<lparr>lists := fs, heap := (heap s)(nalloc s := h), nalloc := nalloc s + 1\<rparr>)"
  shows "wpE (new_page h l s) Q E"
  unfolding new_page_def wpE_Let
proof (rule enqueue_wp)
  let ?s = "s\<lparr>heap := (heap s)(nalloc s := h), nalloc := nalloc s + 1\<rparr>"
  show "queues_free ?s" "page_list ?s (nalloc s) = None" using assms(1,2) by (auto simp: queues_free_def)
  fix fs
  assume a: "lists_ok fs" "\<And>q. list_p (link fs q) = (if q = nalloc s then Some l else page_list ?s q)"
  have eq: "?s\<lparr>lists := fs\<rparr> = s\<lparr>lists := fs, heap := (heap s)(nalloc s := h), nalloc := nalloc s + 1\<rparr>" by simp
  show "Q (?s\<lparr>lists := fs\<rparr>)" unfolding eq using a by (intro Q) auto
qed

text \<open>The loop of the initialisation over the places \<open>a\<close> to \<open>b\<close>.\<close>

lemma init_pool_wp:
  assumes "queues_free s" "\<And>p. nalloc s \<le> p \<Longrightarrow> page_list s p = None" "a \<le> b"
    and Q: "\<And>fs h. lists_ok fs \<Longrightarrow>
      (\<And>q. list_p (link fs q) = (if nalloc s \<le> q \<and> q < nalloc s + (b - a) then Some l else page_list s q)) \<Longrightarrow>
      (\<And>q. h q = (if nalloc s \<le> q \<and> q < nalloc s + (b - a) then pool_page dram (a + (q - nalloc s)) else heap s q)) \<Longrightarrow>
      Q (s\<lparr>lists := fs, heap := h, nalloc := nalloc s + (b - a)\<rparr>)"
  shows "wpE (init_pool dram l [a..<b] s) Q E"
  using assms
proof (induction "b - a" arbitrary: a s)
  case 0
  have "Q (s\<lparr>lists := lists s, heap := heap s, nalloc := nalloc s + (b - a)\<rparr>)"
    by (rule "0.prems"(4)) (use 0 in \<open>auto simp: queues_free_def\<close>)
  then show ?case using 0 by (simp add: wp_simps)
next
  case (Suc n)
  then have ab: "a < b" "[a..<b] = a # [Suc a..<b]" by (auto simp: upt_conv_Cons)
  show ?case unfolding ab(2) init_pool_Cons wpE_bindE
  proof (rule new_page_wp)
    fix fs
    assume fs: "lists_ok fs" "\<And>q. list_p (link fs q) = (if q = nalloc s then Some l else page_list s q)"
    let ?s = "s\<lparr>lists := fs, heap := (heap s)(nalloc s := pool_page dram a), nalloc := nalloc s + 1\<rparr>"
    show "wpE (init_pool dram l [Suc a..<b] ?s) Q E"
    proof (rule Suc.hyps(1))
      show "queues_free ?s" using fs(1) Suc.prems(1) by (simp add: queues_free_def)
      show "page_list ?s p = None" if "nalloc ?s \<le> p" for p using that fs(2) Suc.prems(2) by simp
      fix fs' h
      assume a: "lists_ok fs'"
        "\<And>q. list_p (link fs' q) = (if nalloc ?s \<le> q \<and> q < nalloc ?s + (b - Suc a) then Some l else page_list ?s q)"
        "\<And>q. h q = (if nalloc ?s \<le> q \<and> q < nalloc ?s + (b - Suc a) then pool_page dram (Suc a + (q - nalloc ?s)) else heap ?s q)"
      have "Q (s\<lparr>lists := fs', heap := h, nalloc := nalloc s + (b - a)\<rparr>)"
      proof (rule Suc.prems(4) [OF a(1)])
        show "list_p (link fs' q) = (if nalloc s \<le> q \<and> q < nalloc s + (b - a) then Some l else page_list s q)" for q
          using a(2) [of q] fs(2) [of q] ab(1) by auto
        show "h q = (if nalloc s \<le> q \<and> q < nalloc s + (b - a) then pool_page dram (a + (q - nalloc s)) else heap s q)" for q
        proof (cases "Suc (nalloc s) \<le> q")
          case True
          then obtain k where "q = Suc (nalloc s) + k" using le_Suc_ex by blast
          then show ?thesis using a(3) [of q] ab(1) by auto
        qed (use a(3) [of q] ab(1) in auto)
      qed
      moreover have "?s\<lparr>lists := fs', heap := h, nalloc := nalloc ?s + (b - Suc a)\<rparr> =
          s\<lparr>lists := fs', heap := h, nalloc := nalloc s + (b - a)\<rparr>" using ab(1) by simp
      ultimately show "Q (?s\<lparr>lists := fs', heap := h, nalloc := nalloc ?s + (b - Suc a)\<rparr>)" by (simp only:)
    qed (use Suc.hyps(2) ab in auto)
  qed (use Suc.prems in auto)
qed

section \<open>The state after the loops\<close>

definition boot :: "'k ext \<Rightarrow> bool" where
  "boot s \<longleftrightarrow> queues_free s \<and> (\<forall>m. \<not> held s m) \<and> (\<forall>p. page_list s p = None) \<and> nalloc s = 0"

lemma pool_frames_bij:
  assumes "\<And>p. p < n \<Longrightarrow> f p = (True, word_of_nat p * PAGE_SIZE)"
    and "\<And>p. p < m \<Longrightarrow> f (n + p) = (False, word_of_nat p * PAGE_SIZE)"
    and "n = unat (dramsize s div PAGE_SIZE)" "m = unat (disksize s div PAGE_SIZE)"
  shows "bij_betw f {..<n + m} (all_frames s)"
proof -
  have 1: "bij_betw f {..<n} ({True} \<times> slots (dramsize s))"
  proof -
    have "bij_betw (\<lambda>i. word_of_nat i * PAGE_SIZE :: u64) {..<n} (slots (dramsize s))"
      unfolding assms(3) slots_def by (rule inj_on_imp_bij_betw [OF slots_inj])
    then have "bij_betw (\<lambda>i. (True, word_of_nat i * PAGE_SIZE :: u64)) {..<n} ({True} \<times> slots (dramsize s))"
      by (auto simp: bij_betw_def inj_on_def)
    then show ?thesis using assms(1) by (subst bij_betw_cong [where g = "\<lambda>i. (True, word_of_nat i * PAGE_SIZE)"]) auto
  qed
  have 2: "bij_betw f {n..<n + m} ({False} \<times> slots (disksize s))"
  proof -
    have "bij_betw (\<lambda>i. word_of_nat i * PAGE_SIZE :: u64) {..<m} (slots (disksize s))"
      unfolding assms(4) slots_def by (rule inj_on_imp_bij_betw [OF slots_inj])
    then have "bij_betw (\<lambda>i. (False, word_of_nat i * PAGE_SIZE :: u64)) {..<m} ({False} \<times> slots (disksize s))"
      by (auto simp: bij_betw_def inj_on_def)
    moreover have "bij_betw (\<lambda>p. p - n) {n..<n + m} {..<m}"
      by (rule bij_betw_byWitness [where f' = "\<lambda>i. i + n"]) auto
    ultimately have "bij_betw ((\<lambda>i. (False, word_of_nat i * PAGE_SIZE :: u64)) \<circ> (\<lambda>p. p - n)) {n..<n + m} ({False} \<times> slots (disksize s))"
      by (rule bij_betw_trans [rotated])
    moreover have "f p = ((\<lambda>i. (False, word_of_nat i * PAGE_SIZE :: u64)) \<circ> (\<lambda>p. p - n)) p" if "p \<in> {n..<n + m}" for p
      using that assms(2) [of "p - n"] by auto
    ultimately show ?thesis by (subst bij_betw_cong) auto
  qed
  have "{..<n + m} = {..<n} \<union> {n..<n + m}" by auto
  then show ?thesis unfolding all_frames_def using bij_betw_combine [OF 1 2] by auto
qed

lemma pool_page_simps [simp]:
  "va (pool_page b i) = 0" "virtual_offset (pool_page b i) = word_of_nat i * PAGE_SIZE" "in_dram (pool_page b i) = b"
  "pt (pool_page b i) = BASEP" "\<not> present (pool_page b i)" "\<not> has_reserve (pool_page b i)"
  by (simp_all add: pool_page_def calloc_page_def)

lemma initial_pool_inv:
  assumes n: "n = unat (dramsize s div PAGE_SIZE)" "m = unat (disksize s div PAGE_SIZE)"
    and s: "queues_free s" "\<forall>x. \<not> held s x"
    and h: "\<And>p. p < n \<Longrightarrow> heap s p = pool_page True p" "\<And>p. p < m \<Longrightarrow> heap s (n + p) = pool_page False p"
    and l: "\<And>p. page_list s p = (if p < n then Some Dram_free_list else if p < n + m then Some Disk_free_list else None)"
  shows "pool_inv {} s"
proof -
  have N: "npool s = n + m" using n by (simp add: npool_def)
  have hp: "p < n + m \<Longrightarrow> \<exists>b i. heap s p = pool_page b i \<and> b = (p < n)" for p
    using h(1) [of p] h(2) [of "p - n"] by (cases "p < n") auto
  have "bij_betw (frame s) {..<n + m} (all_frames s)"
    by (rule pool_frames_bij [OF _ _ n]) (auto simp: frame_def h)
  moreover have "filed s p" if "p < n + m" for p
    using hp [OF that] that by (auto simp: filed_def l fits_def Let_def)
  moreover have "pt (heap s p) = BASEP \<and> \<not> present (heap s p)" if "p < n + m" for p using hp [OF that] by auto
  ultimately show ?thesis using s l by (auto simp: pool_inv_def N)
qed

text \<open>Every place is free.\<close>

definition all_free :: "'k ext \<Rightarrow> bool" where
  "all_free s \<longleftrightarrow> (\<forall>p < npool s. if p < unat (dramsize s div PAGE_SIZE)
     then heap s p = pool_page True p \<and> page_list s p = Some Dram_free_list
     else heap s p = pool_page False (p - unat (dramsize s div PAGE_SIZE)) \<and> page_list s p = Some Disk_free_list)"

lemma all_free_va: "all_free s \<Longrightarrow> p < npool s \<Longrightarrow> va (heap s p) = 0"
  by (auto simp: all_free_def split: if_splits)

lemma create_workers_wp:
  assumes "\<And>k. fst (k_pthread_create K k) \<or> E Kernel_failed" "\<And>k. Q (s\<lparr>kst := k\<rparr>)"
  shows "wpE (create_workers K n s) Q E"
  using assms(2)
proof (induction n arbitrary: s)
  case 0
  then show ?case using 0 [of "kst s"] by (simp add: wp_simps)
next
  case (Suc n)
  have "wpE (create_workers K n (s\<lparr>kst := k\<rparr>)) Q E" for k by (rule Suc.IH) (simp add: Suc.prems)
  then show ?case using assms(1) [of "kst s"] by (auto simp: wp_simps)
qed

text \<open>What a policy's initialisation establishes.\<close>

definition pool_ready :: "'k ext \<Rightarrow> 'k ext \<Rightarrow> bool" where
  "pool_ready s s' \<longleftrightarrow> pool_inv {} s' \<and> env s (s'\<lparr>nalloc := 0\<rparr>) \<and> nalloc s' = npool s \<and>
     all_free s' \<and> (\<forall>p. npool s \<le> p \<longrightarrow> heap s' p = heap s p)"

lemma pool_ready_kst: "pool_ready s s' \<Longrightarrow> pool_ready s (s'\<lparr>kst := k\<rparr>)"
  by (auto simp: pool_ready_def env_def all_free_def)

lemma init_locks_idle: "held s = (\<lambda>_. False) \<Longrightarrow> init_locks ms s = s"
  by (auto simp: init_locks_def)

text \<open>The two loops over the places; \<open>rest\<close> is what the initialisation does after them.\<close>

lemma init_pools_wp:
  assumes b: "boot s" and rest: "\<And>s'. pool_ready s s' \<Longrightarrow> held s' = (\<lambda>_. False) \<Longrightarrow> wpE (rest s') Q E"
  shows "wpE (let s = init_locks ms s in
     bindE (init_pool True Dram_free_list [0..<unat (dramsize s div PAGE_SIZE)] s) (\<lambda>s.
     let s = init_locks ms' s in
     bindE (init_pool False Disk_free_list [0..<unat (disksize s div PAGE_SIZE)] s) rest)) Q E"
proof -
  let ?n = "unat (dramsize s div PAGE_SIZE)" and ?m = "unat (disksize s div PAGE_SIZE)"
  have q: "queues_free s" "nalloc s = 0" "\<And>p. page_list s p = None" and hf: "held s = (\<lambda>_. False)"
    using b by (auto simp: boot_def)
  show ?thesis unfolding wpE_Let wpE_bindE init_locks_idle [OF hf]
  proof (rule init_pool_wp [OF q(1) q(3)], goal_cases)
    case (2 fs h)
    define s1 where "s1 = s\<lparr>lists := fs, heap := h, nalloc := nalloc s + (?n - 0)\<rparr>"
    have h1: "held s1 = (\<lambda>_. False)" "queues_free s1" "nalloc s1 = ?n" "disksize s1 = disksize s" "dramsize s1 = dramsize s"
      using hf 2(1) q(2) by (simp_all add: s1_def queues_free_def)
    have l1: "page_list s1 p = (if p < ?n then Some Dram_free_list else None)" for p using 2(2) q by (simp add: s1_def)
    have v1: "heap s1 p = (if p < ?n then pool_page True p else heap s p)" for p using 2(3) q by (simp add: s1_def)
    show ?case unfolding s1_def [symmetric] init_locks_idle [OF h1(1)] h1(4)
    proof (rule init_pool_wp [OF h1(2)], goal_cases)
      case (3 fs' h')
      define s2 where "s2 = s1\<lparr>lists := fs', heap := h', nalloc := nalloc s1 + (?m - 0)\<rparr>"
      have h2: "held s2 = (\<lambda>_. False)" using h1 by (simp add: s2_def)
      have e2: "env s (s2\<lparr>nalloc := 0\<rparr>)" using q(2) by (simp add: s2_def s1_def env_def)
      have v2: "heap s2 p = (if p < ?n then pool_page True p else if p < ?n + ?m then pool_page False (p - ?n) else heap s p)" for p
        using 3(3) h1(3) v1 by (simp add: s2_def)
      have "pool_inv {} s2"
        by (rule initial_pool_inv [where n = ?n and m = ?m])
           (use 3 h1 v2 l1 in \<open>auto simp: s2_def queues_free_def\<close>)
      moreover have n: "npool s = ?n + ?m" "npool s2 = ?n + ?m" "nalloc s2 = ?n + ?m" "dramsize s2 = dramsize s"
        using h1 by (simp_all add: npool_def s2_def)
      moreover have "all_free s2"
        using v2 3(2) l1 h1(3) unfolding all_free_def n by (simp add: s2_def)
      ultimately have "pool_ready s s2" using e2 v2 by (auto simp: pool_ready_def)
      from rest [OF this h2] show ?case unfolding s2_def .
    qed (use l1 h1 in auto)
  qed (use q in auto)
qed

lemma create_thread_wp:
  assumes "\<And>k. fst (k_pthread_create K k) \<or> E Kernel_failed" "\<And>k. wpE (f (s\<lparr>kst := k\<rparr>)) Q E"
  shows "wpE (bindE (kcall (k_pthread_create K) s) f) Q E"
  using assms by (auto simp: wpE_bindE wpE_kcall)

lemma lrudisk_init_wp:
  assumes b: "boot s" and E: "\<And>k. fst (k_pthread_create K k) \<or> E Kernel_failed"
  shows "wpE (lrudisk_init K s) (pool_ready s) E"
  unfolding lrudisk_init_def
proof (rule init_pools_wp [OF b], goal_cases)
  case (1 s')
  show ?case unfolding Let_def init_locks_idle [OF 1(2)]
    by (intro create_thread_wp create_workers_wp E) (use pool_ready_kst [OF 1(1)] in simp)
qed

section \<open>The contract of the core\<close>

text \<open>The operations behind the macros of \<open>core.h\<close> when the library is built with \<open>LRU_SWAP\<close>.\<close>

definition lru_swap :: "'k kernel \<Rightarrow> 'k policy" where
  "lru_swap K = \<lparr>pagefault = lrudisk_pagefault K, paging_init = lrudisk_init K, mmgr_remove = lrudisk_remove_page,
     policy_add_page = lrudisk_track_page, policy_detach_page = lrudisk_detach_page,
     policy_put_freepage = lrudisk_put_page_free, page_swapin_external_async = lrudisk_swapin_external_async K,
     policy_ack_swapped_in = lrudisk_ack_swapin, policy_ack_vma = lrudisk_ack_vma\<rparr>"

interpretation disklinux: paging_policy "lru_swap K" stops for K
proof (unfold_locales, unfold lru_swap_def policy.simps, goal_cases)
  case (1 F s)
  then show ?case by (rule wpE_mono [OF pagefault_wp]) auto
next
  case (2 F s p)
  then show ?case by (intro track_page_wp) auto
next
  case (3 F s p)
  then show ?case by (intro put_page_free_wp) auto
next
  case (4 F p s)
  then show ?case by (rule swapin_external_async_wp)
next
  case (5 F p s)
  then show ?case by (intro detach_page_wp) (auto intro: incoming_detached)
next
  case (6 F s p fp)
  then show ?case by (rule ack_swapin_wp)
next
  case (7 F s a len priority)
  then show ?case by (simp add: lrudisk_ack_vma_def)
next
  case (9 F p s l)
  then show ?case by (rule remove_page_wp)
qed

end
