(* ===== verification/Intercept.thy ===== *)
theory Intercept
  imports Core_Map
begin

text \<open>
  \<open>intercept_layer.c\<close>: which of the program's system calls go to the library. A filter returns the
  hook's return value (1: let the kernel do the call; 0: done, with the result) and the new state.
\<close>

datatype hook_result = Forward | Handled u64

definition mmap_filter ::
  "'k kernel \<Rightarrow> 'k policy \<Rightarrow> u64 \<Rightarrow> u64 \<Rightarrow> u32 \<Rightarrow> u32 \<Rightarrow> u64 \<Rightarrow> 'k ext \<Rightarrow> c_error + hook_result \<times> 'k ext" where
  "mmap_filter K P addr len prot flags offset s =
     (if flags AND MAP_ANONYMOUS \<noteq> MAP_ANONYMOUS then Inr (Forward, s)
      else if flags AND MAP_STACK = MAP_STACK then Inr (Forward, s)
      else if internal_call (me s) then Inr (Forward, s)
      else if \<not> is_init s then Inr (Forward, s)
      else if len < 2 * 1024 * 1024 * 1024 then Inr (Forward, s)
      else bindE (extmem_mmap K P addr len prot flags offset s) (\<lambda>(p, s). Inr (Handled p, s)))"

definition munmap_filter :: "'k kernel \<Rightarrow> 'k policy \<Rightarrow> u64 \<Rightarrow> u64 \<Rightarrow> 'k ext \<Rightarrow> c_error + hook_result \<times> 'k ext" where
  "munmap_filter K P addr len s =
     (if internal_call (me s) then Inr (Forward, s)
      else bindE (extmem_munmap K P addr len s) (\<lambda>s. Inr (Handled 0, s)))"

definition SYS_mmap :: int where "SYS_mmap = 9"
definition SYS_munmap :: int where "SYS_munmap = 11"

definition hook ::
  "'k kernel \<Rightarrow> 'k policy \<Rightarrow> int \<Rightarrow> u64 \<Rightarrow> u64 \<Rightarrow> u64 \<Rightarrow> u64 \<Rightarrow> u64 \<Rightarrow> u64 \<Rightarrow> 'k ext \<Rightarrow> c_error + hook_result \<times> 'k ext" where
  "hook K P syscall_number arg0 arg1 arg2 arg3 arg4 arg5 s =
     (if syscall_number = SYS_mmap then mmap_filter K P arg0 arg1 (ucast arg2) (ucast arg3) arg5 s
      else if syscall_number = SYS_munmap then munmap_filter K P arg0 arg1 s
      else Inr (Forward, s))"

text \<open>The constructor binds the C library's functions, a failure of which aborts, and starts the library.\<close>

definition bind_symbol :: "(string \<Rightarrow> u64 option) \<Rightarrow> string \<Rightarrow> c_error + u64" where
  "bind_symbol dlsym name = (case dlsym name of None \<Rightarrow> Inl Kernel_failed | Some p \<Rightarrow> Inr p)"

definition init_library ::
  "'k kernel \<Rightarrow> 'k policy \<Rightarrow> (string \<Rightarrow> u64 option) \<Rightarrow> (string \<Rightarrow> string option) \<Rightarrow> 'k ext \<Rightarrow> c_error + 'k ext" where
  "init_library K P dlsym getenv s =
     bindE (bind_symbol dlsym ''mmap'') (\<lambda>_.
     bindE (bind_symbol dlsym ''munmap'') (\<lambda>_.
     bindE (bind_symbol dlsym ''malloc'') (\<lambda>_.
     bindE (bind_symbol dlsym ''free'') (\<lambda>_.
     extmem_init K P getenv s))))"

definition extmem_close :: "'k ext \<Rightarrow> 'k ext" where
  "extmem_close s = extmem_stop s"

end
