(* ===== verification/System.thy ===== *)
theory System
  imports Disklinux_Init Intercept
begin

text \<open>
  The library with the policy \<open>disklinux.c\<close>: start-up, and the sequences of operations that the
  threads of a program perform. An operation runs to its end before the next one starts; what another
  thread would do in between is not modelled, except that a loop which only another thread could end
  is the outcome \<open>Spin\<close>.
\<close>

section \<open>Start-up\<close>

text \<open>The state of the loaded library before its constructor runs.\<close>

definition fresh :: "'k ext \<Rightarrow> bool" where
  "fresh s \<longleftrightarrow> boot s \<and> app_order (pages s) = [] \<and> \<not> shrinkage_running s"

text \<open>The system calls of the constructor succeed.\<close>

definition kernel_starts :: "'k kernel \<Rightarrow> bool" where
  "kernel_starts K \<longleftrightarrow> (\<forall>k f r. fst (k_fopen K f k) \<and> 0 \<le> fst (k_open_disk K f k) \<and> fst (k_uffd_open K k) \<and>
     fst (k_uffd_api K k) \<and> fst (u_queue_init K r k) \<and> fst (k_pthread_create K k) \<and>
     fst (k_mmap K 0 (16 * PAGE_SIZE * MAX_USER_THREADS) (PROT_READ OR PROT_WRITE)
       (MAP_PRIVATE OR MAP_ANONYMOUS OR MAP_NORESERVE) 0 k) \<noteq> None)"

lemma HASH_ADD_first: "app_order t = [] \<Longrightarrow>
    \<exists>t'. HASH_ADD key p t = Inr t' \<and> num_buckets (tbl t') = HASH_INITIAL_NUM_BUCKETS"
  by (simp add: HASH_ADD_def HASH_ADD_TO_BKT_def HASH_MAKE_TABLE_def empty_bucket_def HASH_BKT_CAPACITY_THRESH_def Let_def word_le_nat_alt)

lemma add_dummy_page_wp:
  assumes "app_order (pages s) = []" "\<not> held s Pages_lock"
    and Q: "\<And>t. index_ok (s\<lparr>heap := (heap s)(nalloc s := calloc_page), nalloc := nalloc s + 1, pages := t\<rparr>) \<Longrightarrow>
      app_order t = [nalloc s] \<Longrightarrow> num_buckets (tbl t) = HASH_INITIAL_NUM_BUCKETS \<Longrightarrow> Q (s\<lparr>heap := (heap s)(nalloc s := calloc_page), nalloc := nalloc s + 1, pages := t\<rparr>)"
  shows "wpE (add_dummy_page s) Q E"
proof -
  let ?s = "s\<lparr>heap := (heap s)(nalloc s := calloc_page), nalloc := nalloc s + 1\<rparr>"
  have ok: "index_ok ?s" "\<forall>q \<in> tracked ?s. key_in ?s q \<noteq> key_in ?s (nalloc s)" using assms(1,2) by (simp_all add: index_ok_def table_ok_def)
  obtain t where t: "HASH_ADD (key_in ?s) (nalloc s) (pages ?s) = Inr t" "num_buckets (tbl t) = HASH_INITIAL_NUM_BUCKETS"
    using HASH_ADD_first [of "pages ?s"] assms(1) by auto
  have a: "add_page (nalloc s) ?s = Inr (?s\<lparr>pages := t\<rparr>)" using add_page_run [OF ok] t(1) by simp
  have "index_ok (?s\<lparr>pages := t\<rparr>)" using index.add_spec [OF ok] a by auto
  moreover have "app_order t = [nalloc s]" using t(1) assms(1) by (auto simp: HASH_ADD_def Let_def bindE_Inr_iff)
  ultimately show ?thesis using Q a t(2) by (simp add: add_dummy_page_def Let_def wp_simps)
qed

lemma fresh_cong:
  assumes "fresh s" "lists s' = lists s" "held s' = held s" "nalloc s' = nalloc s" "pages s' = pages s"
    "shrinkage_running s' = shrinkage_running s"
  shows "fresh s'"
  using assms by (simp add: fresh_def boot_def queues_free_def)

text \<open>What the constructor establishes.\<close>

definition started :: "'k ext \<Rightarrow> bool" where
  "started s \<longleftrightarrow> sys_inv {} s \<and> is_init s \<and> mapped s = {} \<and> all_free s \<and>
     num_buckets (tbl (pages s)) = HASH_INITIAL_NUM_BUCKETS"

lemma started_internal: "started s \<Longrightarrow> started (set_internal b s)"
  by (simp add: started_def sys_inv_internal all_free_def)

lemma kcall_wp:
  assumes "fst (f (kst s)) \<or> E Kernel_failed" "\<And>k. Q (s\<lparr>kst := k\<rparr>)"
  shows "wpE (kcall f s) Q E"
  using assms by (auto simp: wp_simps)

lemma libc_mmap_anon_wp:
  assumes "fst (k_mmap K 0 len (PROT_READ OR PROT_WRITE) (MAP_PRIVATE OR MAP_ANONYMOUS OR MAP_NORESERVE) 0 (kst s)) \<noteq> None \<or>
      E Kernel_failed" "\<And>a k. Q (a, s\<lparr>kst := k\<rparr>)"
  shows "wpE (libc_mmap_anon K len s) Q E"
  using assms by (auto simp: libc_mmap_anon_def wp_simps split: prod.splits option.splits)

text \<open>What the constructor relies on: the policy fills its pool with one free descriptor for every place.\<close>

locale policy_start =
  fixes K :: "'k kernel" and P :: "'k policy"
  assumes init_law: "boot s \<Longrightarrow> (\<And>k. fst (k_pthread_create K k) \<or> E Kernel_failed) \<Longrightarrow>
      wpE (paging_init P s) (pool_ready s) E"
begin

text \<open>The end of the constructor: the policy's pool and the descriptor that keeps address 0.\<close>

lemma init_pool_and_dummy_wp:
  assumes s: "fresh s" and E: "E Kernel_failed \<or> kernel_starts K"
  shows "wpE (bindE (paging_init P s) (\<lambda>s. bindE (add_dummy_page (s\<lparr>is_init := True\<rparr>)) (\<lambda>s. Inr (set_internal False s))))
    (\<lambda>s'. started s' \<and> dramsize s' = dramsize s \<and> disksize s' = disksize s \<and>
      (page_aligned (safe_to_free s) \<longrightarrow> page_aligned (safe_to_free s'))) E"
  unfolding wpE_bindE
proof (rule wpE_mono [OF init_law [where E = E]], goal_cases)
  case (3 s1)
  then have s1: "pool_inv {} s1" "env s (s1\<lparr>nalloc := 0\<rparr>)" "nalloc s1 = npool s" "all_free s1" by (auto simp: pool_ready_def)
  have e: "held s1 = held s" "pages s1 = pages s" "dramsize s1 = dramsize s" "disksize s1 = disksize s" "\<not> shrinkage_running s1"
    "page_aligned (safe_to_free s) \<longrightarrow> page_aligned (safe_to_free s1)"
    using s1(2) s by (auto simp: env_def fresh_def)
  then have n: "npool s1 = npool s" by (simp add: npool_def)
  have fr: "\<not> held s1 m" "app_order (pages s1) = []" for m using e s by (auto simp: fresh_def boot_def)
  show ?case
  proof (rule add_dummy_page_wp, goal_cases)
    case (3 t)
    let ?u = "s1\<lparr>is_init := True, heap := (heap s1)(npool s := calloc_page), nalloc := npool s + 1, pages := t\<rparr>"
    have "pool_inv {} ?u = pool_inv {} (s1\<lparr>heap := (heap s1)(npool s := calloc_page)\<rparr>)"
      by (rule pool_inv_cong) simp_all
    moreover have "pool_inv {} (s1\<lparr>heap := (heap s1)(npool s := calloc_page)\<rparr>)"
      by (rule pool_inv_outside [OF s1(1)]) (simp add: n)
    ultimately have "pool_inv {} ?u" by simp
    moreover have "index_inv ?u"
      using 3 s1(3) n all_free_va [OF s1(4)] by (auto simp: index_inv_def npool_def calloc_page_def)
    ultimately have "sys_inv {} ?u" using fr e by (simp add: sys_inv_def)
    moreover have "mapped ?u = {}" using 3(2) s1(3) by (simp add: mapped_def calloc_page_def)
    moreover have "all_free ?u" using s1(4) n by (simp add: all_free_def npool_def)
    moreover have "num_buckets (tbl (pages ?u)) = HASH_INITIAL_NUM_BUCKETS" using 3(3) by simp
    ultimately have "started ?u" by (simp add: started_def)
    from started_internal [OF this, of False] show ?case using s1(3) e by (simp add: wp_simps)
  qed (use fr in simp_all)
qed (use s E in \<open>auto simp: fresh_def kernel_starts_def\<close>)

lemma extmem_init_wp:
  assumes s: "fresh s" and E: "E Kernel_failed \<or> kernel_starts K"
  shows "wpE (extmem_init K P getenv s) (\<lambda>s'. started s' \<and>
    dramsize s' = (case getenv ''DRAMSIZE'' of Some d \<Rightarrow> strtoull d | None \<Rightarrow> DRAMSIZE_DEFAULT) \<and>
    disksize s' = (case getenv ''DISKSIZE'' of Some d \<Rightarrow> strtoull d | None \<Rightarrow> DISKSIZE_DEFAULT) \<and>
    (page_aligned (safe_to_free s) \<longrightarrow> page_aligned (safe_to_free s'))) E"
proof -
  let ?d = "case getenv ''DRAMSIZE'' of Some d \<Rightarrow> strtoull d | None \<Rightarrow> DRAMSIZE_DEFAULT"
  let ?k = "case getenv ''DISKSIZE'' of Some d \<Rightarrow> strtoull d | None \<Rightarrow> DISKSIZE_DEFAULT"
  let ?a = "\<lambda>s'. page_aligned (safe_to_free s) \<longrightarrow> page_aligned (safe_to_free s')"
  have fin: "wpE (bindE (paging_init P u) (\<lambda>s. bindE (add_dummy_page (s\<lparr>is_init := True\<rparr>)) (\<lambda>s. Inr (set_internal False s))))
      (\<lambda>s'. started s' \<and> dramsize s' = ?d \<and> disksize s' = ?k \<and> ?a s') E"
    if "fresh u" "dramsize u = ?d" "disksize u = ?k" "safe_to_free u = safe_to_free s" for u
    using init_pool_and_dummy_wp [where E = E, OF that(1) E] that(2-4) by simp
  have K: "fst (k_fopen K f k) \<or> E Kernel_failed" "0 \<le> fst (k_open_disk K f k) \<or> E Kernel_failed"
    "fst (k_uffd_open K k) \<or> E Kernel_failed" "fst (k_uffd_api K k) \<or> E Kernel_failed"
    "fst (u_queue_init K r k) \<or> E Kernel_failed"
    "fst (k_mmap K 0 (16 * PAGE_SIZE * MAX_USER_THREADS) (PROT_READ OR PROT_WRITE)
       (MAP_PRIVATE OR MAP_ANONYMOUS OR MAP_NORESERVE) 0 k) \<noteq> None \<or> E Kernel_failed" for f k r
    using E by (auto simp: kernel_starts_def)
  have fin': "wpE (libc_mmap_anon K (16 * PAGE_SIZE * MAX_USER_THREADS) u) (\<lambda>r.
      wpE (paging_init P (kdo (k_memset0 K (fst r) (PAGE_SIZE * 16 * MAX_USER_THREADS)) (snd r\<lparr>page_cache := fst r\<rparr>)))
        (\<lambda>s. wpE (add_dummy_page (s\<lparr>is_init := True\<rparr>)) (\<lambda>s'. started (set_internal False s') \<and>
          dramsize s' = ?d \<and> disksize s' = ?k \<and> ?a s') E) E) E"
    if u: "fresh u" "dramsize u = ?d" "disksize u = ?k" "safe_to_free u = safe_to_free s" for u
  proof (rule libc_mmap_anon_wp [where E = E, OF K(6)])
    fix a k
    have "fresh (kdo g (u\<lparr>kst := k, page_cache := a\<rparr>))" for g by (rule fresh_cong [OF u(1)]) (simp_all add: kdo_def)
    from fin [OF this] u(2-4) show "wpE (paging_init P (kdo (k_memset0 K (fst (a, u\<lparr>kst := k\<rparr>)) (PAGE_SIZE * 16 * MAX_USER_THREADS)) (snd (a, u\<lparr>kst := k\<rparr>)\<lparr>page_cache := fst (a, u\<lparr>kst := k\<rparr>)\<rparr>)))
        (\<lambda>s. wpE (add_dummy_page (s\<lparr>is_init := True\<rparr>)) (\<lambda>s'. started (set_internal False s') \<and>
          dramsize s' = ?d \<and> disksize s' = ?k \<and> ?a s') E) E"
      by (simp add: kdo_def wpE_bindE wpE_Inr)
  qed
  show ?thesis
    unfolding extmem_init_def Let_def wpE_bindE
  proof (intro kcall_wp K, simp add: case_prod_beta wpE_bindE wpE_if wpE_Inl uswap_init_iouring_def
      uswap_register_handler_def wpE_Inr, intro conjI impI kcall_wp K, goal_cases)
    case 1
    then show ?case using K(2) by (metis linorder_not_less)
  next
    case 2
    show ?case by (rule fin' [simplified], rule fresh_cong [OF s]) (simp_all add: kdo_def upd_me_def set_internal_def)
  qed
qed

end

interpretation lru_start: policy_start K "lru_swap K" for K
  by unfold_locales (simp add: lru_swap_def lrudisk_init_wp)

section \<open>What every operation keeps\<close>

text \<open>The invariant of a running library, with enough frames for the prefetcher.\<close>

definition good :: "'k ext \<Rightarrow> bool" where
  "good s \<longleftrightarrow> sys_inv {} s \<and> 63 \<le> nframes s \<and> is_init s"

lemma sys_inv_cur: "sys_inv F (s\<lparr>cur := t\<rparr>) = sys_inv F s"
proof -
  have "pool_inv F (s\<lparr>cur := t\<rparr>) = pool_inv F s" by (rule pool_inv_cong) simp_all
  then show ?thesis by (simp add: sys_inv_def index_inv_def index_ok_def npool_def)
qed

lemma good_config: "good s \<Longrightarrow> sys_inv {} s' \<Longrightarrow> config s s' \<Longrightarrow> good s'"
  by (simp add: good_def config_size(2)) (simp add: config_def)

lemma good_pres:
  assumes "good s" "pool_inv {} s'" "pres {} s s'"
  shows "good s'" "config s s'"
proof -
  have i: "sys_inv {} s" using assms(1) by (simp add: good_def)
  show "config s s'" by (rule env_config [OF presD(1) [OF assms(3)]])
  then show "good s'" by (rule good_config [OF assms(1) sys_inv_pres [OF i assms(2,3)]])
qed

text \<open>The entry points of the core, over any policy.\<close>

context fault_policy
begin

lemma fault_good:
  assumes s: "good s" and a: "a AND NOT (PAGE_SIZE - 1) \<noteq> 0"
  shows "wpE (uswap_sig_handler K P SIGBUS a s) (\<lambda>s'. good s' \<and> config s s') stops"
  by (rule wpE_mono [OF sig_handler_wp [OF _ _ _ refl a]])
     (use s good_config [OF s] in \<open>auto simp: good_def SIGBUS_def SIGSEGV_def\<close>)

lemma mmap_good:
  assumes s: "good s" and K: "mmap_contract K"
  shows "wpE (mmap_filter K P addr len prot flags off s) (\<lambda>r. good (snd r) \<and> config s (snd r)) stops"
proof -
  have i: "sys_inv {} s" "0 < nframes s" "is_init s" using s by (simp_all add: good_def)
  have "wpE (extmem_mmap K P addr len prot flags off s) (\<lambda>r. good (snd r) \<and> config s (snd r)) stops"
    if "\<not> len < 2 * 1024 * 1024 * 1024"
    by (rule wpE_mono [OF extmem_mmap_wp [OF i _ K]]) (use that good_config [OF s] in auto)
  then show ?thesis using s by (simp add: mmap_filter_def wp_simps case_prod_beta)
qed

end

context paging_policy
begin

lemma munmap_good:
  assumes s: "good s" and r: "region_ok addr (addr + len)"
  shows "wpE (munmap_filter K P addr len s) (\<lambda>r. good (snd r) \<and> config s (snd r)) halts"
proof -
  have "wpE (extmem_munmap K P addr len s) (\<lambda>s'. good s' \<and> config s s') halts"
    by (rule wpE_mono [OF extmem_munmap_wp [OF _ r]]) (use s good_config [OF s] in \<open>auto simp: good_def\<close>)
  then show ?thesis using s by (simp add: munmap_filter_def wp_simps case_prod_beta)
qed

end

section \<open>Operations and runs\<close>

text \<open>
  What the threads of a program can make the library do: touch an address of a managed region, call
  \<open>mmap\<close> or \<open>munmap\<close> (through the hook), let \<open>kswapd\<close> or an eviction worker take a turn, or switch to
  another thread.
\<close>

datatype op =
    Fault u64
  | Mmap u64 u64 u32 u32 u64
  | Munmap u64 u64
  | Kswapd
  | Evictor
  | Evictor_vector
  | Switch tid

fun run :: "'k kernel \<Rightarrow> op \<Rightarrow> 'k ext \<Rightarrow> c_error + 'k ext" where
  "run K (Fault a) s = uswap_sig_handler K (lru_swap K) SIGBUS a s"
| "run K (Mmap addr len prot flags off) s =
     bindE (mmap_filter K (lru_swap K) addr len prot flags off s) (\<lambda>(_, s). Inr s)"
| "run K (Munmap addr len) s = bindE (munmap_filter K (lru_swap K) addr len s) (\<lambda>(_, s). Inr s)"
| "run K Kswapd s = lrudisk_synchkswapd K s"
| "run K Evictor s = lrudisk_evictionworker K s"
| "run K Evictor_vector s = lrudisk_evictionworker_vector K s"
| "run K (Switch t) s = Inr (s\<lparr>cur := t\<rparr>)"

text \<open>
  The program does not touch the page at address 0, and it unmaps regions that end below the last
  page of the address space.
\<close>

fun allowed :: "op \<Rightarrow> bool" where
  "allowed (Fault a) \<longleftrightarrow> a AND NOT (PAGE_SIZE - 1) \<noteq> 0"
| "allowed (Munmap addr len) \<longleftrightarrow> region_ok addr (addr + len)"
| "allowed _ \<longleftrightarrow> True"

inductive reachable :: "'k kernel \<Rightarrow> (string \<Rightarrow> string option) \<Rightarrow> 'k ext \<Rightarrow> bool" for K getenv where
  start: "fresh s \<Longrightarrow> extmem_init K (lru_swap K) getenv s = Inr s' \<Longrightarrow> reachable K getenv s'"
| step: "reachable K getenv s \<Longrightarrow> allowed op \<Longrightarrow> run K op s = Inr s' \<Longrightarrow> reachable K getenv s'"

lemma run_wp:
  assumes s: "good s" and K: "mmap_contract K" and ok: "allowed op"
  shows "wpE (run K op s) (\<lambda>s'. good s' \<and> nframes s' = nframes s) stops"
proof -
  have C: "good s' \<and> nframes s' = nframes s" if "good s' \<and> config s s'" for s' using that config_size(2) by blast
  have P: "good s' \<and> nframes s' = nframes s" if "pool_inv {} s' \<and> pres {} s s'" for s'
    using that good_pres [OF s] C by blast
  have pi: "pool_inv {} s" using s by (simp add: good_def sys_inv_def)
  show ?thesis
  proof (cases op)
    case (Fault a)
    then show ?thesis using wpE_mono [OF disklinux.fault_good [OF s] C] ok by simp
  next
    case (Mmap addr len prot flags off)
    then show ?thesis using wpE_mono [OF disklinux.mmap_good [OF s K]] C by (simp add: wpE_bindE wpE_Inr case_prod_beta)
  next
    case (Munmap addr len)
    then show ?thesis using wpE_mono [OF disklinux.munmap_good [OF s]] C ok by (simp add: wpE_bindE wpE_Inr case_prod_beta)
  next
    case Kswapd
    then show ?thesis using wpE_mono [OF kswapd_wp [OF pi, where E = stops]] P by simp
  next
    case Evictor
    then show ?thesis using wpE_mono [OF evictionworker_wp [OF pi, where E = stops]] P by simp
  next
    case Evictor_vector
    then show ?thesis using wpE_mono [OF evictionworker_vector_wp [OF pi, where E = stops]] P by simp
  next
    case (Switch t)
    then show ?thesis using s by (simp add: wp_simps good_def sys_inv_cur nframes_def)
  qed
qed

text \<open>The number of frames of the DRAM size that the user asks for.\<close>

definition frames_requested :: "(string \<Rightarrow> string option) \<Rightarrow> nat" where
  "frames_requested getenv =
     unat ((case getenv ''DRAMSIZE'' of Some d \<Rightarrow> strtoull d | None \<Rightarrow> DRAMSIZE_DEFAULT) div PAGE_SIZE)"

lemma reachable_good:
  assumes "reachable K getenv s" "mmap_contract K" "63 \<le> frames_requested getenv"
  shows "good s"
  using assms(1)
proof induction
  case (start s0 s)
  from lru_start.extmem_init_wp [OF start(1), of "\<lambda>e. True" K getenv] show ?case
    using start(2) assms(3) by (simp add: wpE_Inr good_def started_def nframes_def frames_requested_def)
next
  case (step s op s')
  then show ?case using run_wp [OF step.IH assms(2) step.hyps(2)] by (simp add: wpE_Inr)
qed

end
