(* ===== verification/Liveness.thy ===== *)
theory Liveness
  imports System
begin

text \<open>
  When the library keeps running. A kernel whose calls succeed never makes an operation stop with
  \<open>Kernel_failed\<close>; together with the invariant this leaves memory and swap space as the only reasons
  to stop. A fault that finds a free frame always returns.
\<close>

section \<open>Errors that a computation avoids\<close>

definition avoids :: "c_error \<Rightarrow> c_error + 'a \<Rightarrow> bool" where
  "avoids e r \<longleftrightarrow> r \<noteq> Inl e"

named_theorems avoid \<open>introduction rules for \<open>avoids\<close>\<close>

lemma avoids_basic [avoid]:
  "avoids e (Inr v)" "e' \<noteq> e \<Longrightarrow> avoids e (Inl e')"
  "e \<noteq> Assert_failed \<Longrightarrow> avoids e (assertE b)" "e \<noteq> Null_deref \<Longrightarrow> avoids e (derefE x)" "e \<noteq> Deadlock \<Longrightarrow> avoids e (lock m s)"
  by (auto simp: avoids_def assertE_def derefE_def lock_def split: option.splits)

lemma avoids_bindE [avoid]: "avoids e r \<Longrightarrow> (\<And>x. avoids e (f x)) \<Longrightarrow> avoids e (bindE r f)"
  by (auto simp: avoids_def bindE_def split: sum.splits)

lemma avoids_split [avoid]:
  "(b \<Longrightarrow> avoids e r1) \<Longrightarrow> (\<not> b \<Longrightarrow> avoids e r2) \<Longrightarrow> avoids e (if b then r1 else r2)"
  "(\<And>a c. avoids e (g a c)) \<Longrightarrow> avoids e (case x of (a, c) \<Rightarrow> g a c)"
  "avoids e r3 \<Longrightarrow> (\<And>y. avoids e (f y)) \<Longrightarrow> avoids e (case z of None \<Rightarrow> r3 | Some y \<Rightarrow> f y)"
  "avoids e (h v) \<Longrightarrow> avoids e (Let v h)"
  by (auto simp: Let_def split: prod.splits option.splits)

lemma avoids_wpE: "wpE r Q E \<Longrightarrow> avoids e r \<Longrightarrow> wpE r Q (\<lambda>e'. E e' \<and> e' \<noteq> e)"
  by (auto simp: wpE_def avoids_def split: sum.splits)

text \<open>A kernel whose calls succeed, except that \<open>mmap\<close> may refuse a request of the program itself.\<close>

definition reliable :: "'k kernel \<Rightarrow> bool" where
  "reliable K \<longleftrightarrow> (\<forall>k r a b c.
     fst (k_munmap K a b k) \<and> fst (k_madvise_dontneed K a b k) \<and> fst (k_uffd_register K a b k) \<and>
     fst (k_uffd_copy K a b c k) \<and> (\<forall>p. fst (k_uffd_writeprotect K a b p k)) \<and>
     fst (k_uffd_get_flag K a b c k) \<noteq> None \<and> fst (k_uffd_clear_flag K a b c k) \<and>
     fst (u_queue_init K r k) \<and> fst (u_get_sqe K r k) \<and> fst (u_submit K r k) \<and> fst (u_wait_cqe K r k) \<and>
     fst (k_mmap K 0 PAGE_SIZE (PROT_READ OR PROT_WRITE) (MAP_PRIVATE OR MAP_ANONYMOUS OR MAP_NORESERVE) 0 k) \<noteq> None \<and>
     fst (k_mmap K 0 (PAGE_SIZE * 32) (PROT_READ OR PROT_WRITE) (MAP_PRIVATE OR MAP_ANONYMOUS OR MAP_NORESERVE) 0 k) \<noteq> None)"

lemma avoids_kcall [avoid]: "e \<noteq> Kernel_failed \<or> (\<forall>k. fst (f k)) \<Longrightarrow> avoids e (kcall f s)"
  by (auto simp: avoids_def kcall_def case_prod_beta)

lemma reliable_calls [simp]:
  assumes "reliable K"
  shows "fst (k_munmap K a b k)" "fst (k_madvise_dontneed K a b k)" "fst (k_uffd_register K a b k)"
    "fst (k_uffd_copy K a b c k)" "fst (k_uffd_writeprotect K a b p k)" "fst (k_uffd_clear_flag K a b c k)"
    "fst (u_queue_init K r k)" "fst (u_get_sqe K r k)" "fst (u_submit K r k)" "fst (u_wait_cqe K r k)"
    "fst (k_uffd_get_flag K a b c k) \<noteq> None"
  using assms by (simp_all add: reliable_def)

section \<open>Queues and index\<close>

abbreviation resource :: "c_error \<Rightarrow> bool" where
  "resource e \<equiv> e \<in> {Kernel_failed, Out_of_memory, No_disk_page}"

lemma avoids_fifo [avoid]:
  assumes "resource e"
  shows "avoids e (enqueue_fifo l p s)" "avoids e (dequeue_fifo l s)" "avoids e (page_list_tryremove_page ol p s)"
    "avoids e (page_list_remove_page l p s)" "avoids e (dequeue_fifo_vector l n s)"
proof -
  have n: "e \<noteq> Assert_failed" "e \<noteq> Null_deref" "e \<noteq> Deadlock" "Null_deref \<noteq> e" "Assert_failed \<noteq> e" "Deadlock \<noteq> e" using assms by auto
  have tl: "avoids e (take_last l p s)" for p and s :: "'a ext"
    by (auto simp: take_last_def n intro!: avoid)
  have ul: "avoids e (unlink_page l p s)" for l and s :: "'a ext"
    by (auto simp: unlink_page_def n intro!: avoid)
  have vl: "avoids e (dequeue_vector_loop n l s)" for s :: "'a ext"
    by (induction n arbitrary: s) (auto simp: n intro!: avoid tl)
  show "avoids e (enqueue_fifo l p s)" by (auto simp: enqueue_fifo_def n intro!: avoid)
  show "avoids e (dequeue_fifo l s)" by (auto simp: dequeue_fifo_def n intro!: avoid tl)
  show "avoids e (page_list_tryremove_page ol p s)" by (auto simp: page_list_tryremove_page_def n intro!: avoid ul)
  show "avoids e (page_list_remove_page l p s)" by (auto simp: page_list_remove_page_def n intro!: avoid ul)
  show "avoids e (dequeue_fifo_vector l n s)" by (auto simp: dequeue_fifo_vector_def n intro!: avoid vl)
qed

lemma avoids_index [avoid]:
  assumes "resource e"
  shows "avoids e (find_page a s)" "avoids e (remove_page p s)" "e \<noteq> Out_of_memory \<Longrightarrow> avoids e (add_page p s)"
  using assms
  by (auto simp: find_page_def remove_page_def add_page_def HASH_ADD_def HASH_ADD_TO_BKT_def HASH_EXPAND_BUCKETS_def
      intro!: avoid)

section \<open>Kernel, storage and migration\<close>

lemma avoids_mmap_anon [avoid]:
  assumes "resource e" "e \<noteq> Kernel_failed \<or> reliable K" "len = PAGE_SIZE \<or> len = PAGE_SIZE * 32"
  shows "avoids e (libc_mmap_anon K len s)"
proof (cases "k_mmap K 0 len (PROT_READ OR PROT_WRITE) (MAP_PRIVATE OR MAP_ANONYMOUS OR MAP_NORESERVE) 0 (kst s)")
  case (Pair a k)
  have "e = Kernel_failed \<Longrightarrow> fst (k_mmap K 0 len (PROT_READ OR PROT_WRITE) (MAP_PRIVATE OR MAP_ANONYMOUS OR MAP_NORESERVE) 0 (kst s)) \<noteq> None"
    using assms unfolding reliable_def by blast
  then have "e = Kernel_failed \<Longrightarrow> a \<noteq> None" using Pair by simp
  then show ?thesis using Pair by (cases a) (auto simp: libc_mmap_anon_def intro!: avoid)
qed

lemma avoids_bits [avoid]:
  assumes "resource e" "e \<noteq> Kernel_failed \<or> reliable K"
  shows "avoids e (pt_get_bits K p s)"
proof (cases "k_uffd_get_flag K (va (heap s p)) PT_ACCESSED_FLAG PT_DIRTY_FLAG (kst s)")
  case (Pair o' k)
  then have "e = Kernel_failed \<Longrightarrow> o' \<noteq> None"
    using assms reliable_calls(11) [of K "va (heap s p)" PT_ACCESSED_FLAG PT_DIRTY_FLAG "kst s"] by auto
  then show ?thesis using assms Pair by (cases o') (auto simp: pt_get_bits_def intro!: avoid)
qed

lemma avoids_kernel [avoid]:
  assumes "resource e" "e \<noteq> Kernel_failed \<or> reliable K"
  shows "avoids e (pt_clear_accessed_flag K p s)" "avoids e (extmem_wp_page K p b s)"
    "avoids e (ioring_read_store K fd off buf sz s)" "avoids e (ioring_write_store K fd off buf sz s)"
    "avoids e (ioring_start_read K fd off buf sz s)" "avoids e (ioring_prepare_read K fd off buf sz s)"
    "avoids e (ioring_submit_all_reads K s)" "avoids e (ioring_finish_read K fd off buf sz s)"
    "avoids e (ioring_prepare_write K fd off buf sz s)" "avoids e (ioring_submit_all_writes K s)"
    "avoids e (ioring_finish_write K s)" "avoids e (alloc_buffer K s)" "avoids e (alloc_prefetch_buffer K s)"
    "avoids e (kcall (k_uffd_copy K a c len) s)" "avoids e (kcall (k_madvise_dontneed K a len) s)"
    "avoids e (kcall (k_munmap K a len) s)" "avoids e (kcall (k_uffd_register K a len) s)"
  using assms
  by (auto simp: pt_clear_accessed_flag_def extmem_wp_page_def ioring_read_store_def ioring_write_store_def
      ioring_start_read_def ioring_prepare_read_def ioring_submit_all_reads_def ioring_finish_read_def
      ioring_prepare_write_def ioring_submit_all_writes_def ioring_finish_write_def thread_init_iouring_def
      thread_init_read_iouring_def alloc_buffer_def alloc_prefetch_buffer_def CORE_PREFETCH_RATE_def intro!: avoid)

lemma avoids_migrate [avoid]:
  assumes "resource e" "e \<noteq> Kernel_failed \<or> reliable K"
  shows "avoids e (core_migrate_up_async_start K p s)" "avoids e (core_migrate_up_async_finish K p off s)"
    "avoids e (extmem_migrate_downdisk K p off b w s)" "avoids e (lrudisk_migrate_down K p off b w s)"
  using assms
  by (auto simp: core_migrate_up_async_start_def core_migrate_up_async_finish_def extmem_migrate_downdisk_def
      lrudisk_migrate_down_def intro!: avoid)

section \<open>The policy\<close>

lemma avoids_shrink_active [avoid]:
  assumes "resource e"
  shows "avoids e (shrink_active_list n s)"
proof -
  have n: "Spin \<noteq> e" using assms by auto
  have "avoids e (shrink_active_loop nr ret tries s)" for nr ret tries and s :: "'a ext"
  proof (induction "nr - ret" arbitrary: ret tries s rule: less_induct)
    case less
    show ?case unfolding shrink_active_loop.simps [of nr ret tries s]
      by (intro avoid n assms less) auto
  qed
  then show ?thesis by (auto simp: shrink_active_list_def intro!: avoid)
qed

lemma avoids_shrink_inactive [avoid]:
  assumes "resource e" "e \<noteq> Kernel_failed \<or> reliable K"
  shows "avoids e (shrink_inactive_list K n s)"
proof -
  have n: "Spin \<noteq> e" using assms by auto
  have p: "avoids e (scan_inactive_page K page s)" for page s
    unfolding scan_inactive_page_def by (intro avoid assms)
  have "avoids e (shrink_inactive_loop K nr ret tries s)" for nr ret tries s
  proof (induction "nr * 100 - tries" arbitrary: ret tries s rule: less_induct)
    case less
    show ?case unfolding shrink_inactive_loop.simps [of K nr ret tries s]
      by (intro avoid n p assms less) auto
  qed
  then show ?thesis by (auto simp: shrink_inactive_list_def intro!: avoid)
qed

lemma avoids_reclaim [avoid]:
  assumes "resource e" "e \<noteq> Kernel_failed \<or> reliable K"
  shows "avoids e (direct_allocate_page_asynch K nr priority s)" "avoids e (lrudisk_synchkswapd K s)"
proof -
  have n: "e \<noteq> Deadlock" using assms by auto
  have "avoids e (direct_allocate_loop K nr ta ti sa si rec s)" for nr ta ti sa si rec s
  proof (induction "nat (ti - si)" arbitrary: sa si rec s rule: less_induct)
    case less
    show ?case unfolding direct_allocate_loop.simps [of K nr ta ti sa si rec s]
      by (intro avoid assms less) (simp_all add: SWAP_CLUSTER_COUNT_def)
  qed
  then show d: "avoids e (direct_allocate_page_asynch K nr priority s)" for nr priority s
    by (simp add: direct_allocate_page_asynch_def)
  show "avoids e (lrudisk_synchkswapd K s)"
    by (auto simp: lrudisk_synchkswapd_def kswapd_reclaim_def n intro!: avoid d split: kswapd_pc.split)
qed

lemma avoids_victim [avoid]:
  assumes "resource e" "e \<noteq> Kernel_failed \<or> reliable K"
  shows "avoids e (protect_victim K v s)" "avoids e (detach_from l p s)" "avoids e (take_reserve v s)"
    "avoids e (release_victim v s)" "avoids e (file_victim v d off s)"
  using assms
  by (auto simp: protect_victim_def detach_from_def take_reserve_def release_victim_def file_victim_def
      intro!: avoid)

lemma avoids_evict [avoid]:
  assumes "resource e" "e \<noteq> Kernel_failed \<or> reliable K" "e \<noteq> No_disk_page"
  shows "avoids e (evict_victim K v s)" "avoids e (evict_for_frame K v s)" "avoids e (lrudisk_evictionworker K s)"
  using assms
  by (auto simp: evict_victim_def evict_for_frame_def lrudisk_evictionworker_def intro!: avoid)

lemma avoids_vector [avoid]:
  assumes "resource e" "e \<noteq> Kernel_failed \<or> reliable K" "e \<noteq> No_disk_page"
  shows "avoids e (lrudisk_evictionworker_vector K s)"
proof -
  have pv: "avoids e (protect_victims K vs s)" for vs s
    by (induction vs arbitrary: s) (auto intro!: avoid assms(1,2))
  have gd: "avoids e (get_diskpages vs s)" for vs and s :: "'a ext"
    using assms by (induction vs arbitrary: s) (auto intro!: avoid)
  have pw: "avoids e (prepare_writes K xs s)" for xs s
    using assms by (induction xs arbitrary: s) (auto intro!: avoid)
  have fw: "avoids e (finish_writes K n s)" for n s
    using assms by (induction n arbitrary: s) (auto intro!: avoid)
  have dm: "avoids e (drop_mappings K xs s)" for xs s
    using assms by (induction xs arbitrary: s) (auto intro!: avoid)
  have ms: "avoids e (mark_swapped_out xs s)" for xs and s :: "'a ext"
    using assms by (induction xs arbitrary: s) (auto intro!: avoid)
  have fv: "avoids e (file_victims xs s)" for xs and s :: "'a ext"
    using assms by (induction xs arbitrary: s) (auto intro!: avoid)
  have n: "e \<noteq> Deadlock" using assms by auto
  show ?thesis unfolding lrudisk_evictionworker_vector_def extmem_migrate_downdisk_vector_def
    by (intro avoid pv gd pw fw dm ms fv n assms)
qed

lemma avoids_fetch [avoid]:
  assumes "reliable K"
  shows "avoids Kernel_failed (fetch_free_asynch K s)"
proof -
  have "avoids Kernel_failed (fetch_free_loop K n s)" for n s
    using assms by (induction n arbitrary: s) (auto intro!: avoid)
  then show ?thesis by (auto simp: fetch_free_asynch_def wake_kswapd_def intro!: avoid)
qed

lemma avoids_files [avoid]:
  assumes "resource e"
  shows "avoids e (lrudisk_track_page p s)" "avoids e (lrudisk_put_page_free p s)" "avoids e (lrudisk_detach_page p s)"
    "avoids e (lrudisk_ack_swapin p fp s)" "avoids e (link_reserve p fp off s)" "avoids e (lrudisk_remove_page p s)"
  using assms
  by (auto simp: lrudisk_track_page_def lrudisk_put_page_free_def lrudisk_detach_page_def lrudisk_ack_swapin_def
      link_reserve_def lrudisk_remove_page_def remove_from_any_def free_place_def drop_reserve_def detach_from_def intro!: avoid)

lemma avoids_policy [avoid]:
  assumes "reliable K"
  shows "avoids Kernel_failed (lrudisk_pagefault K s)" "avoids Kernel_failed (lrudisk_swapin_external_async K p s)"
  using assms by (auto simp: lrudisk_pagefault_def lrudisk_swapin_external_async_def intro!: avoid)

lemma lru_swap_simps [simp]:
  "pagefault (lru_swap K) = lrudisk_pagefault K" "mmgr_remove (lru_swap K) = lrudisk_remove_page"
  "policy_add_page (lru_swap K) = lrudisk_track_page" "policy_detach_page (lru_swap K) = lrudisk_detach_page"
  "policy_put_freepage (lru_swap K) = lrudisk_put_page_free"
  "page_swapin_external_async (lru_swap K) = lrudisk_swapin_external_async K"
  "policy_ack_swapped_in (lru_swap K) = lrudisk_ack_swapin"
  by (simp_all add: lru_swap_def)

section \<open>The core\<close>

lemma avoids_prefetch [avoid]:
  assumes "reliable K"
  shows "avoids Kernel_failed (core_try_prefetch K (lru_swap K) a s)"
proof -
  have pc: "avoids Kernel_failed (prefetch_collect (lru_swap K) n b s)" for n b s
    using assms by (induction n arbitrary: b s) (auto intro!: avoid)
  have pp: "avoids Kernel_failed (prefetch_prepare K ps b s)" for ps b s
    using assms by (induction ps arbitrary: b s) (auto intro!: avoid)
  have pf: "avoids Kernel_failed (prefetch_frames (lru_swap K) n s)" for n s
    using assms by (induction n arbitrary: s) (auto intro!: avoid)
  have pi: "avoids Kernel_failed (prefetch_finish K ps b s)" for ps b s
    using assms by (induction ps arbitrary: b s) (auto intro!: avoid)
  have pm: "avoids Kernel_failed (prefetch_map K (lru_swap K) ps b s)" for ps b s
    using assms by (induction ps arbitrary: b s) (auto simp: prefetch_map_one_def intro!: avoid)
  show ?thesis using assms by (auto simp: core_try_prefetch_def intro!: avoid pc pp pf pi pm)
qed

lemma avoids_handlers [avoid]:
  assumes "reliable K"
  shows "avoids Kernel_failed (handle_missing_fault K (lru_swap K) p s)" "avoids Kernel_failed (handle_first_fault K (lru_swap K) b s)"
    "avoids Kernel_failed (handle_wp_fault p s)"
  using assms
  by (auto simp: handle_missing_fault_def handle_first_fault_def handle_wp_fault_def busy_wait_def intro!: avoid)

lemma avoids_sig_handler [avoid]:
  assumes "reliable K"
  shows "avoids Kernel_failed (uswap_sig_handler K (lru_swap K) code a s)"
  using assms by (auto simp: uswap_sig_handler_def intro!: avoid)

lemma avoids_munmap [avoid]:
  assumes "reliable K"
  shows "avoids Kernel_failed (extmem_munmap K (lru_swap K) a len s)"
proof -
  have p: "avoids Kernel_failed (munmap_page (lru_swap K) p s)" for p and s
    by (auto simp: munmap_page_def busy_wait_def intro!: avoid)
  have "avoids Kernel_failed (munmap_loop (lru_swap K) b e s)" for b e s
  proof (induction "unat e - unat b" arbitrary: b s rule: less_induct)
    case less
    show ?case unfolding munmap_loop.simps [of "lru_swap K" b e s]
      by (intro avoid p less) (auto simp: word_less_nat_alt)
  qed
  then show ?thesis using assms by (auto simp: extmem_munmap_def intro!: avoid)
qed

text \<open>
  On a machine whose calls succeed, every operation but \<open>mmap\<close> either returns or stops because memory or
  swap space ran out.
\<close>

lemma run_reliable:
  assumes "good s" "mmap_contract K" "allowed op" "reliable K" "\<And>addr len prot flags off. op \<noteq> Mmap addr len prot flags off"
  shows "wpE (run K op s) (\<lambda>s'. good s' \<and> nframes s' = nframes s) (\<lambda>e. e \<in> {Out_of_memory, No_disk_page})"
proof -
  have "avoids Kernel_failed (run K op s)" using assms(4,5) by (cases op) (fastforce simp: munmap_filter_def intro!: avoid)+
  from avoids_wpE [OF run_wp [OF assms(1-3)] this] show ?thesis by (rule wpE_mono) (auto simp: stops_def)
qed

section \<open>Faults that find a free frame\<close>

text \<open>There is a free frame, and the index can still double its buckets.\<close>

definition frame_free :: "'k ext \<Rightarrow> bool" where
  "frame_free s \<longleftrightarrow> last_p (queue (lists s) Dram_free_list) \<noteq> None"

definition index_room :: "'k ext \<Rightarrow> bool" where
  "index_room s \<longleftrightarrow> app_order (pages s) \<noteq> [] \<and> num_buckets (tbl (pages s)) * 2 \<noteq> 0"

lemma dequeue_free: "frame_free s \<Longrightarrow>
   wpE (dequeue_fifo Dram_free_list s) (\<lambda>(p, s'). p \<noteq> None \<and> pages s' = pages s) (\<lambda>e. \<not> resource e)"
  by (auto simp: frame_free_def dequeue_fifo_def take_last_def set_link_def set_queue_def wp_simps unlock_def split: option.splits)

lemma fetch_free_run: "frame_free s \<Longrightarrow>
   wpE (fetch_free_asynch K s) (\<lambda>(p, s'). pages s' = pages s) (\<lambda>e. \<not> resource e)"
proof -
  assume s: "frame_free s"
  have f: "wpE (fetch_free_loop K 12 s') (\<lambda>(p, s''). pages s'' = pages s') (\<lambda>e. \<not> resource e)" if "frame_free s'" for s'
  proof -
    have n: "(12::nat) = Suc 11" by simp
    show ?thesis unfolding n fetch_free_loop.simps wpE_bindE
      by (rule wpE_mono [OF dequeue_free [OF that]]) (auto simp: wp_simps)
  qed
  show ?thesis using s by (auto simp: fetch_free_asynch_def wake_kswapd_def wp_simps unlock_def frame_free_def intro!: wpE_mono [OF f])
qed

lemma add_page_room: "index_room s \<Longrightarrow> avoids Out_of_memory (add_page p s)"
  by (auto simp: add_page_def HASH_ADD_def HASH_ADD_TO_BKT_def HASH_EXPAND_BUCKETS_def index_room_def lock_def avoids_def
      assertE_def Let_def case_prod_beta bindE_def split: if_splits sum.splits)

abbreviation spares :: "c_error \<Rightarrow> bool" where
  "spares e \<equiv> e \<noteq> Out_of_memory \<and> e \<noteq> No_disk_page"

lemma spares_avoids: "wpE r Q spares \<longleftrightarrow> wpE r Q (\<lambda>_. True) \<and> avoids Out_of_memory r \<and> avoids No_disk_page r"
  by (auto simp: wpE_def avoids_def split: sum.splits)

lemma first_fault_spares:
  assumes "frame_free s" "index_room s"
  shows "wpE (handle_first_fault K (lru_swap K) b s) (\<lambda>_. True) spares"
proof -
  have s: "frame_free (set_internal True s)" "pages (set_internal True s) = pages s"
    using assms(1) by (simp_all add: frame_free_def set_internal_def upd_me_def)
  have pf: "wpE (lrudisk_pagefault K (set_internal True s)) (\<lambda>(p, s'). pages s' = pages s) spares"
    unfolding lrudisk_pagefault_def wpE_bindE
    by (rule wpE_mono [OF fetch_free_run [OF s(1)]]) (auto simp: wp_simps s(2))
  have ap: "wpE (add_page p s') (\<lambda>_. True) spares" if "pages s' = pages s" for p s'
    using that assms(2) add_page_room [of s' p] avoids_index(3) [of No_disk_page p s']
    unfolding spares_avoids by (simp add: index_room_def wpE_def split: sum.splits)
  have tp: "wpE (lrudisk_track_page p s') (\<lambda>_. True) spares" "wpE (lrudisk_put_page_free p s') (\<lambda>_. True) spares" for p and s' :: "'a ext"
    unfolding spares_avoids by (auto simp: wpE_def split: sum.splits intro!: avoid)
  show ?thesis unfolding handle_first_fault_def Let_def wpE_bindE lru_swap_simps wpE_assertE
    by (auto simp: wp_simps find_page_def busy_wait_def unlock_def Let_def intro!: wpE_mono [OF pf] wpE_mono [OF ap] wpE_mono [OF tp(1)] wpE_mono [OF tp(2)])
qed

text \<open>Hence a first fault of a new page returns, with the page in memory.\<close>

lemma returnsI:
  "wpE r Q stops \<Longrightarrow> avoids Kernel_failed r \<Longrightarrow> wpE r Q' spares \<Longrightarrow> \<exists>x. r = Inr x \<and> Q x"
  by (auto simp: wpE_def avoids_def stops_def split: sum.splits)

lemma first_fault_returns:
  assumes "sys_inv {} s" "0 < nframes s" "b \<noteq> 0" "page_aligned b" "reliable K" "frame_free s" "index_room s"
  shows "\<exists>s'. handle_first_fault K (lru_swap K) b s = Inr s' \<and> sys_inv {} s' \<and> config s s' \<and>
    mapped s' = insert b (mapped s) \<and> (b \<in> mapped s \<or> b \<in> in_memory s')"
  by (rule returnsI [OF disklinux.first_fault_wp [OF assms(1-4)] avoids_handlers(2) [OF assms(5)] first_fault_spares [OF assms(6,7)]])

lemma detach_spares: "frame_free s \<Longrightarrow> wpE (detach_from Disk_active_list p s) frame_free spares"
  by (auto simp: detach_from_def page_list_tryremove_page_def unlink_page_def set_link_def set_queue_def unlock_def
      frame_free_def wp_simps split: option.splits)

lemma start_spares: "frame_free s \<Longrightarrow> wpE (core_migrate_up_async_start K p s) frame_free spares"
  by (auto simp: core_migrate_up_async_start_def alloc_buffer_def libc_mmap_anon_def ioring_start_read_def
      thread_init_read_iouring_def kdo_def upd_me_def frame_free_def wp_simps split: option.splits prod.splits)

lemma swapin_spares: "frame_free s \<Longrightarrow> wpE (lrudisk_swapin_external_async K p s) (\<lambda>_. True) spares"
proof -
  assume s: "frame_free s"
  have r: "wpE (core_migrate_up_async_finish K p off s') (\<lambda>_. True) spares" "wpE (link_reserve p fp off s') (\<lambda>_. True) spares" for p fp off s'
    unfolding spares_avoids by (auto simp: wpE_def split: sum.splits intro!: avoid)
  have ff: "wpE (fetch_free_asynch K s') (\<lambda>_. True) spares" if "frame_free s'" for s'
    by (rule wpE_mono [OF fetch_free_run [OF that]]) auto
  show ?thesis unfolding lrudisk_swapin_external_async_def Let_def wpE_bindE
    by (rule wpE_mono [OF detach_spares [OF s]], rule wpE_mono [OF start_spares], assumption, rule wpE_mono [OF ff], assumption)
       (auto simp: wp_simps intro!: wpE_mono [OF r(1)] wpE_mono [OF r(2)])
qed

lemma missing_fault_spares:
  assumes "frame_free s" "\<not> sequential_fault False (va (heap s p)) (me s)"
  shows "wpE (handle_missing_fault K (lru_swap K) p s) (\<lambda>_. True) spares"
proof -
  have sw: "wpE (lrudisk_swapin_external_async K p s') (\<lambda>_. True) spares" if "lists s' = lists s" for s'
    by (rule swapin_spares) (use assms(1) that in \<open>simp add: frame_free_def\<close>)
  show ?thesis using assms(2)
    by (auto simp: handle_missing_fault_def Let_def wp_simps lru_swap_simps busy_wait_def unlock_def set_internal_def
        upd_me_def upd_page_def count_def count_wait_def sequential_fault_def intro!: wpE_mono [OF sw])
qed

lemma missing_fault_returns:
  assumes "sys_inv {} s" "63 \<le> nframes s" "p \<in> tracked s" "va (heap s p) \<noteq> 0" "reliable K" "frame_free s"
    and q: "\<not> sequential_fault False (va (heap s p)) (me s)"
  shows "\<exists>s'. handle_missing_fault K (lru_swap K) p s = Inr s' \<and> sys_inv {} s' \<and> config s s' \<and> mapped s' = mapped s \<and>
    va (heap s p) \<in> in_memory s'"
  using returnsI [OF disklinux.missing_fault_wp [OF assms(1-4)] avoids_handlers(1) [OF assms(5)] missing_fault_spares [OF assms(6) q]] q
  by auto

end
