(* ===== verification/Limits.thy ===== *)
theory Limits
  imports Disklinux_Init
begin

text \<open>
  Behaviours that the code has and that its authors did not intend: reclaim that gives up although
  pages could be evicted, a loop of \<open>munmap\<close> that does not end, counters that do not fit together.
\<close>

section \<open>Reclaim and the active queue\<close>

lemma lock_roundtrip: "\<not> held s m \<Longrightarrow> unlock m (s\<lparr>held := (held s)(m := True)\<rparr>) = s"
  by (simp add: unlock_def fun_upd_idem)

lemma dequeue_empty: "last_p (queue (lists s) l) = None \<Longrightarrow> \<not> held s (List_lock l) \<Longrightarrow> dequeue_fifo l s = Inr (None, s)"
  by (simp add: dequeue_fifo_def lock_def lock_roundtrip del: fun_upd_apply)

lemma reclaim_idle: "entries s Inactive_list = 0 \<Longrightarrow> direct_allocate_page_asynch K nr priority s = Inr (0, s)"
  by (simp add: direct_allocate_page_asynch_def c_int_def direct_allocate_loop.simps [of K nr _ 0 0 0 0 s])

lemma fetch_free_gives_up:
  assumes "last_p (queue (lists s) Dram_free_list) = None" "last_p (queue (lists s) Eviction_list) = None"
    "entries s Inactive_list = 0" "\<not> shrinkage_running s" "resident s > dramsize s div (PAGE_SIZE * 2)"
    "\<not> held s (List_lock Dram_free_list)" "\<not> held s (List_lock Eviction_list)"
  shows "fetch_free_loop K n s = Inl Out_of_memory"
  using assms by (induction n) (simp_all add: dequeue_empty reclaim_idle)

lemma active_pages_unused:
  assumes inv: "pool_inv F s" and e: "seq (lists s) Dram_free_list = []" "seq (lists s) Eviction_list = []" "seq (lists s) Inactive_list = []"
    and n: "\<not> shrinkage_running s" "resident s > dramsize s div (PAGE_SIZE * 2)"
  shows "fetch_free_asynch K s = Inl Out_of_memory"
proof -
  have "queues_free s" by (rule pool_invD(1) [OF inv])
  then have ok: "lists_ok (lists s)" "\<And>l. \<not> held s (List_lock l)" by (auto simp: queues_free_def)
  have q: "last_p (queue (lists s) l) = None \<and> entries s l = 0" if "seq (lists s) l = []" for l
    using lists_rep_fifo [of "lists s" "seq (lists s)" l] ok(1) that by (simp add: lists_ok_def fifo_rep_nil)
  have k: "\<exists>s'. wake_kswapd s = Inr s' \<and> lists s' = lists s \<and> held s' = held s \<and> shrinkage_running s' = shrinkage_running s \<and> dramsize s' = dramsize s"
    using pool_invD(3) [OF inv] by (auto simp: wake_kswapd_def lock_def Let_def unlock_def fun_upd_idem)
  then obtain s' where s': "wake_kswapd s = Inr s'" "lists s' = lists s" "held s' = held s"
    "shrinkage_running s' = shrinkage_running s" "dramsize s' = dramsize s" by blast
  have "fetch_free_loop K 12 s' = Inl Out_of_memory"
    by (rule fetch_free_gives_up) (use s' q e n ok in \<open>auto simp: resident_def\<close>)
  then show ?thesis using s'(1) by (simp add: fetch_free_asynch_def)
qed

section \<open>The page at address 0\<close>

text \<open>
  The descriptor that \<open>extmem_init\<close> puts in the index for address 0 is in no queue. A \<open>munmap\<close> of a
  region that starts there finds it and waits for ever for its queue.
\<close>

lemma remove_dummy_spins: "page_list s p = None \<Longrightarrow> lrudisk_remove_page p s = Inl Spin"
  by (simp add: lrudisk_remove_page_def remove_from_any_def page_list_tryremove_page_def Let_def)

lemma munmap_zero_spins:
  assumes s: "sys_inv {} s" and len: "len \<noteq> 0"
  shows "extmem_munmap K (lru_swap K) 0 len s = Inl Spin"
proof -
  let ?s = "(set_internal True s)\<lparr>held := (held s)(Allocator_lock := True)\<rparr>"
  note i = sys_invD(2) [OF s, unfolded index_inv_def]
  have h: "\<not> held s Allocator_lock" "\<not> held s Handler_lock" "\<not> held s Pages_lock"
    using sys_invD(3) [OF s] pool_invD(2) [OF sys_invD(1) [OF s]] i by (auto simp: index_ok_def)
  have hp: "heap ?s = heap s" "lists ?s = lists s" "pages ?s = pages s" "held ?s = (held s)(Allocator_lock := True)"
    by (simp_all add: set_internal_def upd_me_def)
  have f: "find_page 0 ?s = Inr (Some (npool s), ?s)"
    using HASH_FIND_iff [of "key_in s" "pages s" 0 "npool s"] i h(3) hp by (simp add: find_page_run index_ok_def)
  have l: "page_list s (npool s) = None" using pool_invD(8) [OF sys_invD(1) [OF s]] by simp
  have "munmap_page (lru_swap K) (npool s) ?s = Inl Spin"
    using h i hp l by (simp add: munmap_page_def lock_def Let_def remove_page_def lru_swap_def unlock_def upd_page_def remove_dummy_spins)
  then have "munmap_loop (lru_swap K) 0 (0 + len) ?s = Inl Spin"
    using f len by (simp add: munmap_loop.simps [of _ 0] word_gt_0)
  then show ?thesis using h(1) by (simp add: extmem_munmap_def lock_def Let_def set_internal_def upd_me_def)
qed

end
