(* ===== verification/Reference.thy ===== *)
theory Reference
  imports System Liveness Limits
begin

text \<open>
  A concrete machine for the witnesses: a kernel whose calls all succeed, the state of the loaded
  library before its constructor, an environment that asks for 63 frames and 8 disk slots, and the
  state the constructor leaves.
\<close>

definition ref_kernel :: "unit kernel" where
  "ref_kernel = \<lparr>
     k_mmap = (\<lambda>addr len prot flags off k. if len = 0 \<or> 0x100000000000 < len then (None, k) else (Some 0x7000000000, k)),
     k_munmap = (\<lambda>a len k. (True, k)), k_memset0 = (\<lambda>a len k. k), k_madvise_dontneed = (\<lambda>a len k. (True, k)),
     k_fopen = (\<lambda>f k. (True, k)), k_open_disk = (\<lambda>f k. (3, k)), k_sigaction = (\<lambda>k. (True, k)),
     k_pthread_create = (\<lambda>k. (True, k)), k_uffd_open = (\<lambda>k. (True, k)), k_uffd_api = (\<lambda>k. (True, k)),
     k_uffd_register = (\<lambda>a len k. (True, k)), k_uffd_copy = (\<lambda>d s len k. (True, k)),
     k_uffd_writeprotect = (\<lambda>a len b k. (True, k)), k_uffd_get_flag = (\<lambda>a f g k. (Some (0, 0), k)),
     k_uffd_clear_flag = (\<lambda>a f g k. (True, k)), k_uffd_tlbflush = (\<lambda>a len k. (True, k)),
     k_pread = (\<lambda>fd d len off k. (True, k)), k_pwrite = (\<lambda>fd d len off k. (True, k)),
     u_queue_init = (\<lambda>r k. (True, k)), u_get_sqe = (\<lambda>r k. (True, k)), u_prep_read = (\<lambda>r fd b len off k. k),
     u_prep_write = (\<lambda>r fd b len off k. k), u_submit = (\<lambda>r k. (True, k)), u_wait_cqe = (\<lambda>r k. (True, k)),
     u_cqe_seen = (\<lambda>r k. k)\<rparr>"

definition ref_thread :: thread_local where
  "ref_thread = \<lparr>internal_call = False, buffer_space = 0, buffer_allocated = False, prefetch_buffer = 0,
     prefetch_buffer_allocated = False, prev_fault_1 = 0, prev_fault_2 = 0, uring_init = False, uring_read_init = False\<rparr>"

definition ref_boot :: "unit ext" where
  "ref_boot = \<lparr>heap = (\<lambda>_. calloc_page), nalloc = 0,
     lists = \<lparr>link = (\<lambda>_. \<lparr>next_p = None, prev_p = None, list_p = None\<rparr>),
       queue = (\<lambda>_. \<lparr>first_p = None, last_p = None, numentries = 0\<rparr>)\<rparr>,
     pages = \<lparr>app_order = [], tbl = HASH_MAKE_TABLE, hashv = (\<lambda>_. 0)\<rparr>, held = (\<lambda>_. False),
     tls = (\<lambda>_. ref_thread), cur = 0,
     stats = \<lparr>mem_mmaped = 0, mem_allocated = 0, pages_allocated = 0, pages_freed = 0, first_faults_handled = 0,
       major_faults_handled = 0, migrations_up = 0, migrations_down = 0, bytes_migrated = 0, migration_waits = 0\<rparr>,
     dramsize = 0, disksize = 0, diskfd = - 1, is_init = False, main_mmap = 0, page_cache = 0, prev_fault_global_1 = 0,
     prev_fault_global_2 = 0, kswapd_running = False, shrinkage_running = False, kswapd_at = Kswapd_top,
     safe_to_free = 0, main_vma = \<lparr>vma_va = 0, vma_priority = 0, vma_size = 0\<rparr>, kst = ()\<rparr>"

definition ref_getenv :: "string \<Rightarrow> string option" where
  "ref_getenv v = (if v = ''DRAMSIZE'' then Some ''258048'' else if v = ''DISKSIZE'' then Some ''32768'' else None)"

definition ref_state :: "unit ext" where
  "ref_state = projr (extmem_init ref_kernel (lru_swap ref_kernel) ref_getenv ref_boot)"

lemma ref_kernel_starts: "kernel_starts ref_kernel"
  by (simp add: kernel_starts_def ref_kernel_def MAX_USER_THREADS_def)

lemma ref_mmap: "k_mmap ref_kernel addr len prot flags off k =
   (if len = 0 \<or> 0x100000000000 < len then (None, k) else (Some 0x7000000000, k))"
  by (simp add: ref_kernel_def)

lemma ref_mmap_contract: "mmap_contract ref_kernel"
  unfolding mmap_contract_def ref_mmap
proof (intro allI impI)
  fix len :: u64 and p :: u64 and k k' :: unit
  assume a: "(if len = 0 \<or> 0x100000000000 < len then (None, k) else (Some 0x7000000000, k)) = (Some p, k')"
  then have l: "len \<noteq> 0" "len \<le> 0x100000000000" and p: "p = 0x7000000000" by (auto split: if_splits)
  from l(2) have "unat len \<le> 0x100000000000" unfolding word_le_nat_alt by simp
  moreover have "unat p = 0x7000000000" unfolding p by simp
  moreover have "page_aligned p" unfolding p page_aligned_unat by simp
  ultimately show "len \<noteq> 0 \<and> page_aligned p \<and> unat p + unat len + 4096 \<le> 2 ^ 64"
    using l(1) by simp
qed

lemma ref_boot_simps [simp]:
  "lists ref_boot = \<lparr>link = (\<lambda>_. \<lparr>next_p = None, prev_p = None, list_p = None\<rparr>),
     queue = (\<lambda>_. \<lparr>first_p = None, last_p = None, numentries = 0\<rparr>)\<rparr>"
  "held ref_boot = (\<lambda>_. False)" "nalloc ref_boot = 0" "app_order (pages ref_boot) = []" "\<not> shrinkage_running ref_boot"
  unfolding ref_boot_def by (simp_all only: ext.simps uthash.simps not_False_eq_True)

lemma ref_lists_ok: "lists_ok (lists ref_boot)" "seq (lists ref_boot) = (\<lambda>_. [])"
proof -
  have r: "lists_rep (lists ref_boot) (\<lambda>_. [])" by (simp add: lists_rep_def fifo_rep_def)
  show "lists_ok (lists ref_boot)" "seq (lists ref_boot) = (\<lambda>_. [])"
    by (rule conjunct1 [OF lists_okI [OF r]], rule conjunct2 [OF lists_okI [OF r]])
qed

lemma ref_fresh: "fresh ref_boot"
  using ref_lists_ok(1) by (simp add: fresh_def boot_def queues_free_def)

lemma ref_strtoull: "strtoull ''258048'' = 258048" "strtoull ''32768'' = 32768"
  by (simp_all add: strtoull_def is_space_def is_digit_def digits_value_def of_char_def)

lemma ref_init:
  "extmem_init ref_kernel (lru_swap ref_kernel) ref_getenv ref_boot = Inr ref_state"
  "started ref_state" "dramsize ref_state = 258048" "disksize ref_state = 32768"
proof -
  have "wpE (extmem_init ref_kernel (lru_swap ref_kernel) ref_getenv ref_boot) (\<lambda>s'. started s' \<and> dramsize s' = 258048 \<and> disksize s' = 32768) (\<lambda>_. False)"
    using lru_start.extmem_init_wp [OF ref_fresh, of "\<lambda>_. False" ref_kernel ref_getenv] ref_kernel_starts
    by (auto simp: ref_getenv_def ref_strtoull elim!: wpE_mono)
  then show "extmem_init ref_kernel (lru_swap ref_kernel) ref_getenv ref_boot = Inr ref_state"
    "started ref_state" "dramsize ref_state = 258048" "disksize ref_state = 32768"
    by (auto simp: wpE_returns ref_state_def)
qed

lemma ref_started: "sys_inv {} ref_state" "is_init ref_state" "mapped ref_state = {}" "all_free ref_state"
  "num_buckets (tbl (pages ref_state)) = HASH_INITIAL_NUM_BUCKETS"
  using ref_init(2) by (simp_all add: started_def)

lemma ref_nframes: "nframes ref_state = 63"
  using ref_init(3) by (simp add: nframes_def)

lemma ref_frames_requested: "frames_requested ref_getenv = 63"
  by (simp add: frames_requested_def ref_getenv_def ref_strtoull)

lemma ref_reachable: "reachable ref_kernel ref_getenv ref_state"
  by (rule reachable.start [OF ref_fresh ref_init(1)])

lemma ref_good: "good ref_state"
  using ref_started ref_nframes by (simp add: good_def)

section \<open>A state with a page on disk\<close>

text \<open>The first disk slot holds the page at the start of the region that \<open>mmap\<close> returns.\<close>

definition ref_swapped :: "unit ext" where
  "ref_swapped = (projr (bindE (page_list_tryremove_page (Some Disk_free_list) 63 ref_state) (\<lambda>(_, s).
     bindE (enqueue_fifo Disk_active_list 63 (upd_page 63 (\<lambda>h. h\<lparr>va := 0x7000000000\<rparr>) s)) (add_page 63))))
     \<lparr>tls := \<lambda>_. ref_thread\<rparr>"

lemma ref_aligned: "page_aligned 0x7000000000"
  unfolding page_aligned_unat by simp

lemma HASH_ADD_room: "num_buckets (tbl t) * 2 \<noteq> 0 \<Longrightarrow> app_order t \<noteq> [] \<Longrightarrow> \<exists>t'. HASH_ADD key p t = Inr t'"
  by (auto simp: HASH_ADD_def HASH_ADD_TO_BKT_def HASH_EXPAND_BUCKETS_def Let_def case_prod_beta)

lemma index_add_room_wp:
  assumes "index_ok s" "\<forall>q \<in> tracked s. va (heap s q) \<noteq> va (heap s p)" "num_buckets (tbl (pages s)) * 2 \<noteq> 0" "tracked s \<noteq> {}"
    and Q: "\<And>t. index_ok (s\<lparr>pages := t\<rparr>) \<Longrightarrow> set (app_order t) = insert p (tracked s) \<Longrightarrow> Q (s\<lparr>pages := t\<rparr>)"
  shows "wpE (add_page p s) Q E"
proof -
  obtain t where t: "HASH_ADD (key_in s) p (pages s) = Inr t" using HASH_ADD_room [of "pages s"] assms(3,4) by auto
  have a: "add_page p s = Inr (s\<lparr>pages := t\<rparr>)" using add_page_run [OF assms(1,2)] t by simp
  then show ?thesis using index.add_spec [OF assms(1,2)] Q [of t] by (auto simp: wpE_Inr)
qed

lemma ref_npool: "npool ref_state = 71" "unat (dramsize ref_state div PAGE_SIZE) = 63"
  using ref_init(3,4) by (simp_all add: npool_def)

lemma ref_slot: "heap ref_state 63 = pool_page False 0" "page_list ref_state 63 = Some Disk_free_list" "heap ref_state 71 = heap ref_state (npool ref_state)"
  using ref_started(4) unfolding all_free_def ref_npool by auto

lemma ref_tracked: "tracked ref_state = {71}" "va (heap ref_state 71) = 0" "index_ok ref_state"
proof -
  have i: "index_inv ref_state" using ref_started(1) by (simp add: sys_inv_def)
  have "va (heap ref_state p) = 0" if "p < 71" for p using all_free_va [OF ref_started(4)] that by (simp add: ref_npool)
  then show "tracked ref_state = {71}" "va (heap ref_state 71) = 0" "index_ok ref_state"
    using i unfolding index_inv_def ref_npool by auto
qed

lemma ref_swapped_wp:
  "wpE (bindE (page_list_tryremove_page (Some Disk_free_list) 63 ref_state) (\<lambda>(_, s).
     bindE (enqueue_fifo Disk_active_list 63 (upd_page 63 (\<lambda>h. h\<lparr>va := 0x7000000000\<rparr>) s)) (add_page 63)))
   (\<lambda>s. sys_inv {} s \<and> nframes s = 63 \<and> is_init s \<and> 63 \<in> tracked s \<and> va (heap s 63) = 0x7000000000 \<and> swapped_out (heap s 63) \<and>
      (\<forall>p. p \<noteq> 63 \<longrightarrow> heap s p = heap ref_state p) \<and> heap s 63 = (heap ref_state 63)\<lparr>va := 0x7000000000\<rparr> \<and> npool s = 71)
   (\<lambda>_. False)"
  unfolding wpE_bindE
proof (rule pool_inv_tryremove_wp [where F = "{}"], goal_cases)
  case (4 fs)
  let ?s = "ref_state\<lparr>lists := fs\<rparr>"
  let ?u = "upd_page 63 (\<lambda>h. h\<lparr>va := 0x7000000000\<rparr>) ?s"
  have u: "pool_inv {63} ?u" by (rule pool_inv_upd_page [OF 4(1)]) simp_all
  have "fits ?u Disk_active_list 63"
    using ref_slot(1) ref_aligned by (simp add: fits_def pool_page_def calloc_page_def)
  then show ?case unfolding prod.case wpE_bindE
  proof (rule pool_inv_enq_wp [OF u, rotated], goal_cases)
    case (1 gs)
    let ?v = "?u\<lparr>lists := gs\<rparr>"
    have "index_ok ?v" using ref_tracked by (auto simp: index_ok_def intro: table_ok_cong [THEN iffD1, rotated])
    then show ?case
    proof (rule index_add_room_wp, goal_cases)
      case (4 t)
      have "pool_inv {} (?v\<lparr>pages := t\<rparr>) = pool_inv {} ?v" by (rule pool_inv_cong) simp_all
      moreover have "pool_inv {} ?v" using 1(1) by simp
      moreover have "index_inv (?v\<lparr>pages := t\<rparr>)"
      proof -
        have "va (heap ref_state q) = 0" if "q < 71" for q using all_free_va [OF ref_started(4)] that by (simp add: ref_npool)
        moreover have "npool (?v\<lparr>pages := t\<rparr>) = 71" using ref_npool by (simp add: npool_def)
        ultimately show ?thesis using 4 ref_tracked sys_invD(2) [OF ref_started(1)] unfolding index_inv_def
          by (auto simp: ref_npool)
      qed
      ultimately show ?case using sys_invD(3,4) [OF ref_started(1)] ref_nframes ref_started(2) 4(2) ref_slot(1)
        by (simp add: sys_inv_def nframes_def) (use ref_npool(1) in \<open>simp add: upd_page_def pool_page_def npool_def\<close>)
    qed (use ref_tracked ref_started(5) in \<open>simp_all add: HASH_INITIAL_NUM_BUCKETS_def\<close>)
  qed simp
qed (use ref_started(1) ref_slot in \<open>simp_all add: sys_inv_def\<close>)

lemma sys_inv_tls: "sys_inv F (s\<lparr>tls := t\<rparr>) = sys_inv F s"
proof -
  have "pool_inv F (s\<lparr>tls := t\<rparr>) = pool_inv F s" by (rule pool_inv_cong) simp_all
  then show ?thesis by (simp add: sys_inv_def index_inv_def index_ok_def npool_def)
qed

lemma ref_swapped:
  "sys_inv {} ref_swapped" "nframes ref_swapped = 63" "is_init ref_swapped" "63 \<in> tracked ref_swapped"
  "va (heap ref_swapped 63) = 0x7000000000" "swapped_out (heap ref_swapped 63)" "heap ref_swapped 0 = heap ref_state 0"
  "me ref_swapped = ref_thread" "npool ref_swapped = 71" "p < 71 \<Longrightarrow> va (heap ref_swapped p) \<noteq> 0 \<Longrightarrow> p = 63"
  "virtual_offset (heap ref_swapped 63) = 0"
proof -
  have z: "va (heap ref_state p) = 0" if "p < 71" for p using all_free_va [OF ref_started(4)] that by (simp add: ref_npool)
  show "sys_inv {} ref_swapped" "nframes ref_swapped = 63" "is_init ref_swapped" "63 \<in> tracked ref_swapped"
    "va (heap ref_swapped 63) = 0x7000000000" "swapped_out (heap ref_swapped 63)" "heap ref_swapped 0 = heap ref_state 0"
    "me ref_swapped = ref_thread" "npool ref_swapped = 71" "p < 71 \<Longrightarrow> va (heap ref_swapped p) \<noteq> 0 \<Longrightarrow> p = 63"
    "virtual_offset (heap ref_swapped 63) = 0"
    using ref_swapped_wp z [of p] ref_slot(1) unfolding wpE_returns ref_swapped_def by (auto simp: sys_inv_tls nframes_def npool_def pool_page_def)
qed

lemma ref_reliable: "reliable ref_kernel"
  by (simp add: reliable_def ref_kernel_def)

lemma free_listed: "sys_inv {} s \<Longrightarrow> page_list s p = Some Dram_free_list \<Longrightarrow> frame_free s"
proof -
  assume s: "sys_inv {} s" "page_list s p = Some Dram_free_list"
  then have ok: "lists_ok (lists s)" using pool_invD(1) [OF sys_invD(1) [OF s(1)]] by (simp add: queues_free_def)
  then have "seq (lists s) Dram_free_list \<noteq> []" using lists_ok_mem [OF ok, of p Dram_free_list] s(2) by auto
  then show ?thesis using lists_rep_fifo [of "lists s" "seq (lists s)" Dram_free_list] ok
    by (auto simp: frame_free_def lists_ok_def fifo_rep_last_None)
qed

lemma ref_frame_free: "frame_free ref_state"
proof -
  have "page_list ref_state 0 = Some Dram_free_list" using ref_started(4) by (simp add: all_free_def ref_npool)
  then show ?thesis by (rule free_listed [OF ref_started(1)])
qed

lemma ref_index_room: "index_room ref_state"
  using ref_tracked(1) ref_started(5) by (auto simp: index_room_def HASH_INITIAL_NUM_BUCKETS_def)

text \<open>A frame that no page uses is in the queue of free frames.\<close>

lemma unused_frame:
  assumes "sys_inv {} s" "p < npool s" "in_dram (heap s p)" "va (heap s p) = 0"
  shows "page_list s p = Some Dram_free_list"
proof -
  obtain l where "page_list s p = Some l" "fits s l p"
    using pool_invD(10) [OF sys_invD(1) [OF assms(1)] assms(2)] by (auto simp: filed_def)
  then show ?thesis using assms(3,4) by (cases l) (auto simp: fits_def resident_page_def Let_def)
qed

lemma ref_swapped_free: "frame_free ref_swapped"
proof -
  have "heap ref_state 0 = pool_page True 0" using ref_started(4) by (simp add: all_free_def ref_npool)
  moreover have "0 < npool ref_swapped" using ref_swapped(2) by (simp add: nframes_def npool_def)
  ultimately show ?thesis
    using free_listed [OF ref_swapped(1) unused_frame [OF ref_swapped(1), of 0]] ref_swapped(7) by (simp add: pool_page_def calloc_page_def)
qed

lemma ref_swapped_run: "\<not> sequential_fault False 0x7000000000 (me ref_swapped)"
  by (simp add: ref_swapped(8) ref_thread_def sequential_fault_def)

text \<open>The page on disk with the mark that the core sets before it calls the policy.\<close>

lemma ref_marked:
  "pool_inv {} (unmark 63 (mark 63 ref_swapped))" "page_list (mark 63 ref_swapped) 63 = Some Disk_active_list"
  "can_alloc {} (mark 63 ref_swapped)"
proof -
  have va: "va (heap ref_swapped 63) \<noteq> 0" by (simp add: ref_swapped(5))
  note t = tracked_page [OF sys_invD(1,2) [OF ref_swapped(1)] ref_swapped(4) va]
  have "heap (unmark 63 (mark 63 ref_swapped)) = heap ref_swapped" using t(2) by (auto simp: upd_page_def)
  then have "pool_inv {} (unmark 63 (mark 63 ref_swapped)) = pool_inv {} ref_swapped"
    by (intro pool_inv_cong) (simp_all add: upd_page_def)
  then show "pool_inv {} (unmark 63 (mark 63 ref_swapped))" using sys_invD(1) [OF ref_swapped(1)] by simp
  show "page_list (mark 63 ref_swapped) 63 = Some Disk_active_list" using t(5) ref_swapped(6) by simp
  show "can_alloc {} (mark 63 ref_swapped)" using ref_swapped(2) sys_invD(4) [OF ref_swapped(1)]
    by (simp add: can_alloc_def frames_held_def nframes_def upd_page_def)
qed

section \<open>Queues and index of the state after start-up\<close>

lemma ref_queues: "queues_free ref_state" "page_list ref_state 71 = None" "seq (lists ref_state) Active_list = []"
proof -
  note i = sys_invD(1) [OF ref_started(1)]
  show q: "queues_free ref_state" by (rule pool_invD(1) [OF i])
  show "page_list ref_state 71 = None" using pool_invD(8) [OF i, of 71] by (simp add: ref_npool)
  have "page_list ref_state p \<noteq> Some Active_list" for p
  proof (cases "p < npool ref_state")
    case True
    then show ?thesis using ref_started(4) by (auto simp: all_free_def split: if_splits)
  next
    case False
    then show ?thesis using pool_invD(8) [OF i, of p] by simp
  qed
  then have "p \<notin> set (seq (lists ref_state) Active_list)" for p using q by (simp add: queues_free_def lists_ok_mem)
  then show "seq (lists ref_state) Active_list = []" by (cases "seq (lists ref_state) Active_list") auto
qed

lemma ref_addable:
  defines "s \<equiv> upd_page 63 (\<lambda>h. h\<lparr>va := 0x7000000000\<rparr>) ref_state"
  shows "index_ok s" "\<forall>q \<in> tracked s. va (heap s q) \<noteq> va (heap s 63)" "\<exists>s'. add_page 63 s = Inr s'"
proof -
  have t: "tracked s = {71}" "pages s = pages ref_state" using ref_tracked(1) by (simp_all add: s_def upd_page_def)
  show i: "index_ok s" unfolding index_ok_def t(2)
    using ref_tracked by (auto simp: index_ok_def s_def intro: table_ok_cong [THEN iffD1, rotated])
  show a: "\<forall>q \<in> tracked s. va (heap s q) \<noteq> va (heap s 63)" using t(1) ref_tracked(2) by (simp add: s_def)
  have "wpE (add_page 63 s) (\<lambda>_. True) (\<lambda>_. False)"
    by (rule index_add_room_wp [OF i a]) (use t ref_started(5) in \<open>simp_all add: HASH_INITIAL_NUM_BUCKETS_def\<close>)
  then show "\<exists>s'. add_page 63 s = Inr s'" by (simp add: wpE_returns)
qed

section \<open>A state whose only frame holds a page\<close>

definition ref_one :: "list_id \<Rightarrow> unit ext" where
  "ref_one l = ref_boot\<lparr>heap := (\<lambda>_. calloc_page)(0 := calloc_page\<lparr>va := 0x7000000000, in_dram := True, pt := BASEP\<rparr>),
     lists := \<lparr>link = (\<lambda>_. \<lparr>next_p = None, prev_p = None, list_p = None\<rparr>)(0 := \<lparr>next_p = None, prev_p = None, list_p = Some l\<rparr>),
       queue = (\<lambda>_. \<lparr>first_p = None, last_p = None, numentries = 0\<rparr>)(l := \<lparr>first_p = Some 0, last_p = Some 0, numentries = 1\<rparr>)\<rparr>,
     dramsize := PAGE_SIZE\<rparr>"

text \<open>A hot page.\<close>

abbreviation ref_hot :: "unit ext" where
  "ref_hot \<equiv> ref_one Active_list"

lemma ref_one_seq: "seq (lists (ref_one l)) = (\<lambda>m. if m = l then [0] else [])"
  by (auto simp: seq_def ref_one_def)

lemma ref_one:
  assumes "l \<in> {Active_list, Inactive_list, Eviction_list}"
  shows "pool_inv {} (ref_one l)"
proof -
  have n: "npool (ref_one l) = 1" by (simp add: npool_def ref_one_def ref_boot_def)
  have "lists_ok (lists (ref_one l))"
    unfolding lists_ok_def ref_one_seq by (auto simp: lists_rep_def fifo_rep_def ref_one_def)
  then have q: "queues_free (ref_one l)" by (simp add: queues_free_def) (simp add: ref_one_def ref_boot_def)
  have "fits (ref_one l) l 0" using ref_aligned assms
    by (auto simp: fits_def resident_page_def ref_one_def calloc_page_def)
  then have f: "filed (ref_one l) 0" by (simp add: filed_def) (simp add: ref_one_def)
  have b: "bij_betw (frame (ref_one l)) {..<1} (all_frames (ref_one l))"
    by (auto simp: bij_betw_def inj_on_def all_frames_def slots_def frame_def ref_one_def ref_boot_def calloc_page_def)
  show ?thesis unfolding pool_inv_def n using q f b
    by (auto simp: ref_one_def ref_boot_def calloc_page_def)
qed

lemma ref_hot:
  "pool_inv {} ref_hot" "seq (lists ref_hot) Dram_free_list = []" "seq (lists ref_hot) Eviction_list = []"
  "seq (lists ref_hot) Inactive_list = []" "\<not> shrinkage_running ref_hot" "resident ref_hot > dramsize ref_hot div (PAGE_SIZE * 2)"
proof -
  show "pool_inv {} ref_hot" by (rule ref_one) simp
  show "seq (lists ref_hot) Dram_free_list = []" "seq (lists ref_hot) Eviction_list = []" "seq (lists ref_hot) Inactive_list = []"
    by (simp_all add: ref_one_seq)
  show "\<not> shrinkage_running ref_hot" "resident ref_hot > dramsize ref_hot div (PAGE_SIZE * 2)"
    by (simp_all add: ref_one_def ref_boot_def resident_def)
qed

end
