(* ===== verification/PageRank.thy ===== *)
theory PageRank
  imports Disklinux
begin

text \<open>
  \<open>policies/pageRank.c\<close>, the policy for graph workloads that read an edge array in order. It started
  as a copy of \<open>disklinux.c\<close> and keeps that file's queues and function names; here its functions have the prefix
  \<open>pr_\<close>. What differs: a major fault records the faulting address in \<open>safe_to_free\<close>, the scan of the inactive
  queue then decides by the distance of a page from that address and not by the accessed bit, the active queue is
  never scanned, a thread prefetches the block behind the last fault, and the removal of a page waits while the
  page is queued for eviction. Code blocks that the two files share word for word (the work on one victim, the
  reserve links, the pool loops) use the definitions of \<open>Disklinux\<close>.
\<close>

section \<open>Parameters of the policy (pageRank.h)\<close>

definition pr_LOW_WATER_THREASHOLD :: u64 where "pr_LOW_WATER_THREASHOLD = 80"
definition pr_WRITER_THREADS :: nat where "pr_WRITER_THREADS = 12"
definition PREFETCHER_THREADS :: nat where "PREFETCHER_THREADS = 1"
definition PR_WINDOW_SIZE :: u64 where "PR_WINDOW_SIZE = 128 * 1024 * 1024"
definition PR_BLOCK_SIZE :: u64 where "PR_BLOCK_SIZE = 32 * 1024 * 1024"

section \<open>Migration and swap-in\<close>

definition pr_migrate_down :: "'k kernel \<Rightarrow> page_ptr \<Rightarrow> u64 \<Rightarrow> bool \<Rightarrow> bool \<Rightarrow> 'k ext \<Rightarrow> c_error + 'k ext" where
  "pr_migrate_down K page offset need_wp writeback s =
     (let s = upd_page page (\<lambda>h. h\<lparr>migrating := True\<rparr>) s in
     bindE (if need_wp then extmem_wp_page K page True s else Inr s) (\<lambda>s.
     extmem_migrate_downdisk K page offset False writeback s))"

definition pr_migrate_up :: "'k kernel \<Rightarrow> page_ptr \<Rightarrow> u64 \<Rightarrow> 'k ext \<Rightarrow> c_error + 'k ext" where
  "pr_migrate_up K page offset s = extmem_migrate_updisk K page offset s"

definition pr_swapin :: "'k kernel \<Rightarrow> page_ptr \<Rightarrow> page_ptr \<Rightarrow> 'k ext \<Rightarrow> c_error + 'k ext" where
  "pr_swapin K page freepage s =
     (let file_offset = virtual_offset (heap s page) in
     bindE (assertE (in_dram (heap s freepage))) (\<lambda>_.
     bindE (assertE (page_list s freepage = Some Active_list)) (\<lambda>_.
     bindE (page_list_remove_page Active_list freepage s) (\<lambda>s.
     bindE (assertE (page_list s page = Some Disk_active_list)) (\<lambda>_.
     bindE (page_list_remove_page Disk_active_list page s) (\<lambda>s.
     let offset = virtual_offset (heap s freepage) in
     bindE (pr_migrate_up K page offset s) (\<lambda>s.
     let s = upd_page freepage (\<lambda>h. h\<lparr>virtual_offset := file_offset, in_dram := False,
               swapped_out := True, migrating := False\<rparr>) s in
     bindE (enqueue_fifo Active_list page s) (\<lambda>s.
     enqueue_fifo Disk_free_list freepage s))))))))"

definition pr_ack_swapin :: "page_ptr \<Rightarrow> page_ptr \<Rightarrow> 'k ext \<Rightarrow> c_error + 'k ext" where
  "pr_ack_swapin page freepage s =
     (let offset = virtual_offset (heap s freepage);
          file_offset = virtual_offset (heap s page) in
     bindE (assertE (in_dram (heap s freepage))) (\<lambda>_.
     bindE (assertE (page_list s freepage = None)) (\<lambda>_.
     bindE (assertE (swapped_out (heap s page))) (\<lambda>_.
     bindE (assertE (migrating (heap s page))) (\<lambda>_.
     bindE (assertE (page_list s page = None)) (\<lambda>_.
     let s = upd_page freepage (\<lambda>h. h\<lparr>virtual_offset := file_offset, in_dram := False,
                swapped_out := True, migrating := False\<rparr>) s;
         s = upd_page page (\<lambda>h. h\<lparr>virtual_offset := offset\<rparr>) s;
         s = upd_page freepage (\<lambda>h. h\<lparr>reserve := Some page\<rparr>) s;
         s = upd_page page (\<lambda>h. h\<lparr>reserve := Some freepage, has_reserve := True\<rparr>) s;
         s = upd_page freepage (\<lambda>h. h\<lparr>has_reserve := True\<rparr>) s in
     bindE (enqueue_fifo Disk_reserve_list freepage s) (\<lambda>s.
     enqueue_fifo Inactive_list page s)))))))"

text \<open>The region of the last \<open>mmap\<close> is remembered.\<close>

definition pr_ack_vma :: "u64 \<Rightarrow> u64 \<Rightarrow> int \<Rightarrow> 'k ext \<Rightarrow> 'k ext" where
  "pr_ack_vma vma_boundry sz priority s =
     s\<lparr>main_vma := \<lparr>vma_va = vma_boundry, vma_priority = priority, vma_size = sz\<rparr>\<rparr>"

section \<open>The reclaim scans\<close>

definition pr_shrink_active_list :: "nat \<Rightarrow> 'k ext \<Rightarrow> c_error + nat \<times> 'k ext" where
  "pr_shrink_active_list nr_pages s =
     (if nr_pages = 0 then Inr (0, s)
      else
        let s = s\<lparr>shrinkage_running := True\<rparr>;
            nr_pages = (if nr_pages > entries s Active_list then entries s Active_list else nr_pages) in
        bindE (shrink_active_loop nr_pages 0 0 s) (\<lambda>(ret, s).
        Inr (ret, s\<lparr>shrinkage_running := False\<rparr>)))"

text \<open>
  The test on \<open>safe_to_free\<close>: a page is kept if it lies less than 512 MB below that address, or less than the
  window and 2 MB above it.
\<close>

definition in_window :: "u64 \<Rightarrow> u64 \<Rightarrow> bool" where
  "in_window stf a \<longleftrightarrow> a < stf \<and> stf - a < 32 * 4096 * 4096 \<or>
     a > stf \<and> a - stf < PR_WINDOW_SIZE + 512 * 4096"

definition scan_window_page :: "page_ptr \<Rightarrow> 'k ext \<Rightarrow> c_error + bool \<times> 'k ext" where
  "scan_window_page page s =
     (if \<not> in_window (safe_to_free s) (va (heap s page)) then
        bindE (enqueue_fifo Eviction_list page s) (\<lambda>s. Inr (True, s))
      else bindE (enqueue_fifo Inactive_list page s) (\<lambda>s. Inr (False, s)))"

function shrink_window_loop :: "nat \<Rightarrow> nat \<Rightarrow> nat \<Rightarrow> 'k ext \<Rightarrow> c_error + nat \<times> 'k ext" where
  "shrink_window_loop nr_pages ret tries s =
     (if ret < nr_pages \<and> 0 < entries s Inactive_list \<and> tries < nr_pages * 100 then
        bindE (dequeue_fifo Inactive_list s) (\<lambda>(page, s).
        case page of
          None \<Rightarrow> Inl Spin
        | Some page \<Rightarrow>
            bindE (scan_window_page page s) (\<lambda>(found, s).
            shrink_window_loop nr_pages (if found then ret + 1 else ret) (tries + 1) s))
      else Inr (ret, s))"
  by pat_completeness auto
termination by (relation "measure (\<lambda>(nr, _, tries, _). nr * 100 - tries)") auto

declare shrink_window_loop.simps [simp del]

text \<open>Before the first major fault the scan is the one of the default policy, with the accessed bits.\<close>

definition pr_shrink_inactive_list :: "'k kernel \<Rightarrow> nat \<Rightarrow> 'k ext \<Rightarrow> c_error + nat \<times> 'k ext" where
  "pr_shrink_inactive_list K nr_pages s =
     (let nr_pages = (if nr_pages = 0 \<or> nr_pages > entries s Inactive_list
                      then entries s Inactive_list else nr_pages);
          s = s\<lparr>shrinkage_running := True\<rparr> in
      bindE (if safe_to_free s = 0 then shrink_inactive_loop K nr_pages 0 0 s
             else shrink_window_loop nr_pages 0 0 s) (\<lambda>(ret, s).
      Inr (ret, s\<lparr>shrinkage_running := False\<rparr>)))"

text \<open>The loop of \<open>direct_allocate_page_asynch\<close>; the scan of the active queue is compiled out.\<close>

function pr_direct_allocate_loop :: "'k kernel \<Rightarrow> int \<Rightarrow> int \<Rightarrow> int \<Rightarrow> int \<Rightarrow> 'k ext \<Rightarrow> c_error + int \<times> 'k ext" where
  "pr_direct_allocate_loop K nr_pages to_scan_inactive nr_scanned_inactive reclaimed s =
     (if nr_scanned_inactive < to_scan_inactive \<and> reclaimed < nr_pages then
        bindE (pr_shrink_inactive_list K SWAP_CLUSTER_COUNT s) (\<lambda>(ret, s).
        pr_direct_allocate_loop K nr_pages to_scan_inactive
          (nr_scanned_inactive + int SWAP_CLUSTER_COUNT) (reclaimed + int ret) s)
      else Inr (reclaimed, s))"
  by pat_completeness auto
termination
  by (relation "measure (\<lambda>(_, _, to_scan, scanned, _, _). nat (to_scan - scanned))")
     (auto simp: SWAP_CLUSTER_COUNT_def)

declare pr_direct_allocate_loop.simps [simp del]

definition pr_direct_allocate_page_asynch :: "'k kernel \<Rightarrow> int \<Rightarrow> nat \<Rightarrow> 'k ext \<Rightarrow> c_error + int \<times> 'k ext" where
  "pr_direct_allocate_page_asynch K nr_pages priority s =
     pr_direct_allocate_loop K nr_pages (c_int (int (drop_bit priority (entries s Inactive_list)))) 0 0 s"

section \<open>kswapd\<close>

definition pr_low_water :: "'k ext \<Rightarrow> u64" where
  "pr_low_water s = pr_LOW_WATER_THREASHOLD * dramsize s div (PAGE_SIZE * 100)"

definition pr_kswapd_reclaim :: "'k kernel \<Rightarrow> 'k ext \<Rightarrow> c_error + 'k ext" where
  "pr_kswapd_reclaim K s =
     (let s = s\<lparr>kswapd_running := True\<rparr>;
          nr_pages = c_int (sint (resident s - pr_low_water s)) in
      if nr_pages \<le> 0 then Inr (s\<lparr>kswapd_running := False\<rparr>)
      else bindE (pr_direct_allocate_page_asynch K nr_pages 12 s) (\<lambda>(_, s).
        Inr (s\<lparr>kswapd_running := False\<rparr>)))"

definition pr_synchkswapd :: "'k kernel \<Rightarrow> 'k ext \<Rightarrow> c_error + 'k ext" where
  "pr_synchkswapd K s =
     (case kswapd_at s of
        Kswapd_top \<Rightarrow>
          if resident s \<le> pr_low_water s then
            bindE (lock Kswapd_lock s) (\<lambda>s. Inr ((unlock Kswapd_lock s)\<lparr>kswapd_at := Kswapd_waiting\<rparr>))
          else pr_kswapd_reclaim K s
      | Kswapd_waiting \<Rightarrow> Inr s
      | Kswapd_signalled \<Rightarrow>
          bindE (lock Kswapd_lock s) (\<lambda>s.
          pr_kswapd_reclaim K ((unlock Kswapd_lock s)\<lparr>kswapd_at := Kswapd_top\<rparr>)))"

section \<open>Eviction\<close>

text \<open>The workers of the default policy, with an assertion on the victim's address.\<close>

definition pr_evictionworker :: "'k kernel \<Rightarrow> 'k ext \<Rightarrow> c_error + 'k ext" where
  "pr_evictionworker K s =
     (let s = upd_me (\<lambda>t. t\<lparr>internal_call := True\<rparr>) s in
     bindE (dequeue_fifo Eviction_list s) (\<lambda>(victim, s).
     case victim of
       None \<Rightarrow> Inr s
     | Some victim \<Rightarrow> bindE (assertE (va (heap s victim) \<noteq> 0)) (\<lambda>_. evict_victim K victim s)))"

fun pr_protect_victims :: "'k kernel \<Rightarrow> page_ptr list \<Rightarrow> 'k ext \<Rightarrow> c_error + (u64 \<times> bool) list \<times> 'k ext" where
  "pr_protect_victims K [] s = Inr ([], s)"
| "pr_protect_victims K (v # vs) s =
     bindE (assertE (va (heap s v) \<noteq> 0)) (\<lambda>_.
     let old_offset = virtual_offset (heap s v) in
     bindE (protect_victim K v s) (\<lambda>(writeback, s).
     bindE (pr_protect_victims K vs s) (\<lambda>(ows, s).
     Inr ((old_offset, writeback) # ows, s))))"

definition pr_evictionworker_vector :: "'k kernel \<Rightarrow> 'k ext \<Rightarrow> c_error + 'k ext" where
  "pr_evictionworker_vector K s =
     (let s = upd_me (\<lambda>t. t\<lparr>internal_call := True\<rparr>) s in
     bindE (dequeue_fifo_vector Eviction_list EVICT_VECTOR_SIZE s) (\<lambda>(vs, s).
     if vs = [] then Inr s
     else
       bindE (pr_protect_victims K vs s) (\<lambda>(ows, s).
       bindE (get_diskpages vs s) (\<lambda>(ds, s).
       bindE (extmem_migrate_downdisk_vector K (zip vs (zip ds (map snd ows))) s) (\<lambda>s.
       file_victims (zip vs (zip ds (map fst ows))) s)))))"

section \<open>Allocation\<close>

fun pr_fetch_free_loop :: "'k kernel \<Rightarrow> nat \<Rightarrow> 'k ext \<Rightarrow> c_error + page_ptr \<times> 'k ext" where
  "pr_fetch_free_loop K 0 s = Inl Out_of_memory"
| "pr_fetch_free_loop K (Suc priority) s =
     bindE (dequeue_fifo Dram_free_list s) (\<lambda>(page, s).
     case page of
       Some page \<Rightarrow> Inr (page, s)
     | None \<Rightarrow>
         if \<not> shrinkage_running s \<and> resident s > dramsize s div (PAGE_SIZE * 2) then
           bindE (pr_direct_allocate_page_asynch K (int SWAP_CLUSTER_COUNT) (Suc priority) s) (\<lambda>(_, s).
           bindE (dequeue_fifo Eviction_list s) (\<lambda>(page, s).
           case page of
             Some page \<Rightarrow> evict_for_frame K page s
           | None \<Rightarrow> pr_fetch_free_loop K priority s))
         else
           bindE (dequeue_fifo Eviction_list s) (\<lambda>(page, s).
           case page of
             Some page \<Rightarrow> evict_for_frame K page s
           | None \<Rightarrow> Inl Spin))"

definition pr_fetch_free_asynch :: "'k kernel \<Rightarrow> 'k ext \<Rightarrow> c_error + page_ptr \<times> 'k ext" where
  "pr_fetch_free_asynch K s = bindE (wake_kswapd s) (\<lambda>s. pr_fetch_free_loop K 12 s)"

definition pr_pagefault :: "'k kernel \<Rightarrow> 'k ext \<Rightarrow> c_error + page_ptr \<times> 'k ext" where
  "pr_pagefault K s =
     bindE (pr_fetch_free_asynch K s) (\<lambda>(page, s).
     Inr (page, upd_page page (\<lambda>h. h\<lparr>migrating := True\<rparr>) s))"

definition pr_track_page :: "page_ptr \<Rightarrow> 'k ext \<Rightarrow> c_error + 'k ext" where
  "pr_track_page page s =
     bindE (assertE (page_list s page = None)) (\<lambda>_. enqueue_fifo Inactive_list page s)"

definition pr_put_page_free :: "page_ptr \<Rightarrow> 'k ext \<Rightarrow> c_error + 'k ext" where
  "pr_put_page_free page s =
     bindE (assertE (page_list s page = None)) (\<lambda>_.
     bindE (assertE (va (heap s page) = 0)) (\<lambda>_.
     enqueue_fifo Dram_free_list page s))"

definition pr_detach_page :: "page_ptr \<Rightarrow> 'k ext \<Rightarrow> c_error + 'k ext" where
  "pr_detach_page page s = detach_from Disk_active_list page s"

definition pr_swapin_external :: "'k kernel \<Rightarrow> page_ptr \<Rightarrow> 'k ext \<Rightarrow> c_error + 'k ext" where
  "pr_swapin_external K page s =
     (let file_offset = virtual_offset (heap s page);
          s = s\<lparr>safe_to_free := va (heap s page)\<rparr> in
     bindE (pr_fetch_free_asynch K s) (\<lambda>(freepage, s).
     bindE (assertE (in_dram (heap s freepage))) (\<lambda>_.
     bindE (detach_from Disk_active_list page s) (\<lambda>s.
     let offset = virtual_offset (heap s freepage) in
     bindE (pr_migrate_up K page offset s) (\<lambda>s.
     link_reserve page freepage file_offset s)))))"

definition pr_swapin_external_async :: "'k kernel \<Rightarrow> page_ptr \<Rightarrow> 'k ext \<Rightarrow> c_error + 'k ext" where
  "pr_swapin_external_async K page s =
     (let file_offset = virtual_offset (heap s page) in
     bindE (detach_from Disk_active_list page s) (\<lambda>s.
     let s = s\<lparr>safe_to_free := va (heap s page)\<rparr> in
     bindE (core_migrate_up_async_start K page s) (\<lambda>s.
     bindE (pr_fetch_free_asynch K s) (\<lambda>(freepage, s).
     bindE (assertE (in_dram (heap s freepage))) (\<lambda>_.
     let offset = virtual_offset (heap s freepage) in
     bindE (core_migrate_up_async_finish K page offset s) (\<lambda>s.
     link_reserve page freepage file_offset s))))))"

section \<open>Removal\<close>

text \<open>
  A page that is queued for eviction is left to the eviction workers: the loop sleeps and tries again, which a
  single thread would do for ever. The page's \<open>migrating\<close> flag is not touched.
\<close>

definition pr_remove_page :: "page_ptr \<Rightarrow> 'k ext \<Rightarrow> c_error + 'k ext" where
  "pr_remove_page page s =
     bindE (assertE (va (heap s page) \<noteq> 0)) (\<lambda>_.
     bindE (if page_list s page = Some Eviction_list then Inl Spin else remove_from_any page s) (\<lambda>s.
     let s = upd_page page (\<lambda>h. h\<lparr>present := False, va := 0\<rparr>) s in
     free_place page s))"

section \<open>Initialisation\<close>

text \<open>The mutex of the active queue is not initialised; static storage leaves it unlocked.\<close>

definition pr_init :: "'k kernel \<Rightarrow> 'k ext \<Rightarrow> c_error + 'k ext" where
  "pr_init K s =
     (let s = init_locks [List_lock Dram_free_list] s in
     bindE (init_pool True Dram_free_list [0..<unat (dramsize s div PAGE_SIZE)] s) (\<lambda>s.
     let s = init_locks [List_lock Disk_free_list] s in
     bindE (init_pool False Disk_free_list [0..<unat (disksize s div PAGE_SIZE)] s) (\<lambda>s.
     let s = init_locks [List_lock Inactive_list, List_lock Disk_active_list,
               List_lock Disk_reserve_list, List_lock Eviction_list, Kswapd_lock] s in
     bindE (kcall (k_pthread_create K) s) (\<lambda>s.
     bindE (create_workers K pr_WRITER_THREADS s) (\<lambda>s.
     create_workers K PREFETCHER_THREADS s)))))"

text \<open>The operations behind the macros of \<open>core.h\<close> when the library is built with \<open>PAGE_RANK\<close>.\<close>

definition pr_swap :: "'k kernel \<Rightarrow> 'k policy" where
  "pr_swap K = \<lparr>pagefault = pr_pagefault K, paging_init = pr_init K, mmgr_remove = pr_remove_page,
     policy_add_page = pr_track_page, policy_detach_page = pr_detach_page,
     policy_put_freepage = pr_put_page_free, page_swapin_external_async = pr_swapin_external_async K,
     policy_ack_swapped_in = pr_ack_swapin, policy_ack_vma = pr_ack_vma\<rparr>"

section \<open>The prefetch worker\<close>

text \<open>
  The inner loop over one block. Every turn that goes on has prefetched at least one page, so the block, of 8193
  page addresses, bounds the number of turns as long as the addresses do not wrap around; the argument \<open>turns\<close>
  counts down from there.
\<close>

definition PR_BLOCK_TURNS :: nat where
  "PR_BLOCK_TURNS = 8194"

fun prefetch_block :: "'k kernel \<Rightarrow> nat \<Rightarrow> u64 \<Rightarrow> u64 \<Rightarrow> 'k ext \<Rightarrow> c_error + 'k ext" where
  "prefetch_block K 0 block_head prefetch_head s = Inl Spin"
| "prefetch_block K (Suc turns) block_head prefetch_head s =
     (if prefetch_head \<le> block_head + PR_BLOCK_SIZE then
        bindE (assertE (prefetch_head mod PAGE_SIZE = 0)) (\<lambda>_.
        bindE (core_try_prefetch K (pr_swap K) prefetch_head s) (\<lambda>(nr_prefetched, s).
        if nr_prefetched = 0 then Inr s
        else prefetch_block K turns block_head (prefetch_head + word_of_nat nr_prefetched * PAGE_SIZE) s))
      else Inr s)"

text \<open>
  One iteration of \<open>lrudisk_prefetchworker\<close>. Its local variable \<open>block_head\<close> lives across the iterations; the
  source does not initialise it, so the first iteration may be given any value.
\<close>

definition pr_prefetchworker :: "'k kernel \<Rightarrow> u64 \<Rightarrow> 'k ext \<Rightarrow> c_error + u64 \<times> 'k ext" where
  "pr_prefetchworker K block_head s =
     (let s = upd_me (\<lambda>t. t\<lparr>internal_call := True\<rparr>) s in
      if vma_va (main_vma s) = 0 \<or> safe_to_free s = 0 \<or> vma_size (main_vma s) < 5 * 1024 * 1024 * 1024
      then Inr (block_head, s)
      else if block_head = safe_to_free s + PR_BLOCK_SIZE * 1 then Inr (block_head, s)
      else
        let block_head = safe_to_free s + PR_BLOCK_SIZE * 1 in
        bindE (prefetch_block K PR_BLOCK_TURNS block_head block_head s) (\<lambda>s.
        Inr (block_head, s)))"

end
