(* ===== verification/PageRank_Safe.thy ===== *)
theory PageRank_Safe
  imports PageRank System
begin

text \<open>
  The operations of \<open>pageRank.c\<close> keep the pool invariant and the contract of the core. The removal of a page
  may wait for the eviction workers; everything else can stop only for want of resources.
\<close>

section \<open>What the two policies share\<close>

text \<open>These functions are the same in \<open>disklinux.c\<close> and \<open>pageRank.c\<close>.\<close>

lemma pr_same:
  "pr_migrate_down = lrudisk_migrate_down" "pr_migrate_up = lrudisk_migrate_up" "pr_swapin = lrudisk_swapin"
  "pr_ack_swapin = lrudisk_ack_swapin" "pr_shrink_active_list = shrink_active_list" "pr_track_page = lrudisk_track_page"
  "pr_put_page_free = lrudisk_put_page_free" "pr_detach_page = lrudisk_detach_page"
  by (simp_all add: fun_eq_iff pr_migrate_down_def lrudisk_migrate_down_def pr_migrate_up_def lrudisk_migrate_up_def
      pr_swapin_def lrudisk_swapin_def pr_ack_swapin_def lrudisk_ack_swapin_def pr_shrink_active_list_def shrink_active_list_def
      pr_track_page_def lrudisk_track_page_def pr_put_page_free_def lrudisk_put_page_free_def pr_detach_page_def lrudisk_detach_page_def)

lemma safe_to_free_inv [simp]: "pool_inv F (s\<lparr>safe_to_free := a\<rparr>) = pool_inv F s"
  "can_alloc F (s\<lparr>safe_to_free := a\<rparr>) = can_alloc F s"
  by (rule pool_inv_cong, simp_all) (simp add: can_alloc_def frames_held_def nframes_def)

lemma main_vma_inv [simp]: "pool_inv F (s\<lparr>main_vma := v\<rparr>) = pool_inv F s"
  by (rule pool_inv_cong) simp_all

section \<open>The window scan\<close>

lemma scan_window_page_wp:
  assumes inv: "pool_inv (insert x F) s" and x: "x \<notin> F" "x < npool s" "resident_page s x"
  shows "wpE (scan_window_page x s) (\<lambda>(_, s'). pool_inv F s' \<and> pres F s s') E"
proof -
  have "wpE (enqueue_fifo l x s) (\<lambda>s'. pool_inv F s' \<and> pres F s s') E" if "l \<in> {Eviction_list, Inactive_list}" for l
    by (rule refile_wp [OF inv x(1,3)]) (use that in auto)
  then show ?thesis by (auto simp: scan_window_page_def wp_simps)
qed

lemma shrink_window_loop_wp:
  assumes "pool_inv F s"
  shows "wpE (shrink_window_loop nr ret tries s) (\<lambda>(_, s'). pool_inv F s' \<and> pres F s s') E"
  using assms
proof (induction "nr * 100 - tries" arbitrary: ret tries s rule: less_induct)
  case less
  show ?case
  proof (cases "ret < nr \<and> 0 < entries s Inactive_list \<and> tries < nr * 100")
    case True
    show ?thesis
      unfolding shrink_window_loop.simps [of nr ret tries s] if_P [OF True] wpE_bindE wpE_case_prod
    proof (rule pool_inv_deq_wp [OF less.prems], goal_cases)
      case 2
      then show ?case using True pool_inv_entries [OF less.prems] by simp
    next
      case (3 fs xs x)
      have "wpE (shrink_window_loop nr ret' (tries + 1) s') (\<lambda>(_, s'). pool_inv F s' \<and> pres F s s') E"
        if "pool_inv F s'" "pres F (s\<lparr>lists := fs\<rparr>) s'" for ret' s'
      proof -
        have "pres F s s'" using that(2) by (simp add: pres_def)
        moreover have "wpE (shrink_window_loop nr ret' (tries + 1) s') (\<lambda>(_, s''). pool_inv F s'' \<and> pres F s' s'') E"
          by (rule less.hyps) (use True that in auto)
        ultimately show ?thesis by (auto elim!: wpE_mono intro: pres_trans)
      qed
      moreover have "wpE (scan_window_page x (s\<lparr>lists := fs\<rparr>))
          (\<lambda>(_, s'). pool_inv F s' \<and> pres F (s\<lparr>lists := fs\<rparr>) s') E"
        by (rule scan_window_page_wp) (use 3 in \<open>auto simp: fits_resident\<close>)
      ultimately show ?case by (auto simp: wp_simps case_prod_beta elim!: wpE_mono)
    qed simp
  next
    case False
    then show ?thesis unfolding shrink_window_loop.simps [of nr ret tries s] if_not_P [OF False]
      using less.prems by (simp add: wp_simps)
  qed
qed

lemma pr_shrink_inactive_list_wp:
  assumes "pool_inv F s" "E Kernel_failed"
  shows "wpE (pr_shrink_inactive_list K nr s) (\<lambda>(_, s'). pool_inv F s' \<and> pres F s s') E"
proof -
  let ?s = "s\<lparr>shrinkage_running := True\<rparr>"
  let ?Q = "\<lambda>r. pool_inv F (snd r) \<and> pres F s (snd r\<lparr>shrinkage_running := False\<rparr>)"
  have "wpE (shrink_inactive_loop K n 0 0 ?s) ?Q E" for n
    by (rule wpE_mono [OF shrink_inactive_loop_wp [where F = F]]) (use assms in \<open>auto intro: pres_shrink_end\<close>)
  moreover have "wpE (shrink_window_loop n 0 0 ?s) ?Q E" for n
    by (rule wpE_mono [OF shrink_window_loop_wp [where F = F]]) (use assms in \<open>auto intro: pres_shrink_end\<close>)
  ultimately show ?thesis by (simp add: pr_shrink_inactive_list_def Let_def wp_simps)
qed

lemma pr_direct_allocate_loop_wp:
  assumes "pool_inv F s" and E: "E Kernel_failed"
  shows "wpE (pr_direct_allocate_loop K nr ti si rc s) (\<lambda>(_, s'). pool_inv F s' \<and> pres F s s') E"
  using assms(1)
proof (induction "nat (ti - si)" arbitrary: si rc s rule: less_induct)
  case less
  let ?Q = "\<lambda>(_, s'). pool_inv F s' \<and> pres F s s'"
  show ?case
  proof (cases "si < ti \<and> rc < nr")
    case True
    have rec: "wpE (pr_direct_allocate_loop K nr ti (si + int SWAP_CLUSTER_COUNT) rc' s') ?Q E"
      if "pool_inv F s'" "pres F s s'" for rc' s'
    proof -
      have "wpE (pr_direct_allocate_loop K nr ti (si + int SWAP_CLUSTER_COUNT) rc' s')
          (\<lambda>(_, s''). pool_inv F s'' \<and> pres F s' s'') E"
        by (rule less.hyps) (use True that in \<open>auto simp: SWAP_CLUSTER_COUNT_def\<close>)
      then show ?thesis by (rule wpE_mono) (use that in \<open>auto intro: pres_trans\<close>)
    qed
    show ?thesis
      unfolding pr_direct_allocate_loop.simps [of K nr ti si rc s] if_P [OF True] wpE_bindE
      by (rule wpE_mono [OF pr_shrink_inactive_list_wp [where E = E, OF less.prems E]]) (auto intro!: rec)
  next
    case False
    then show ?thesis unfolding pr_direct_allocate_loop.simps [of K nr ti si rc s] if_not_P [OF False]
      using less.prems by (simp add: wp_simps)
  qed
qed

lemma pr_direct_allocate_wp:
  assumes "pool_inv F s" "E Kernel_failed"
  shows "wpE (pr_direct_allocate_page_asynch K nr priority s) (\<lambda>(_, s'). pool_inv F s' \<and> pres F s s') E"
  unfolding pr_direct_allocate_page_asynch_def by (rule pr_direct_allocate_loop_wp [where E = E, OF assms])

lemma pr_kswapd_reclaim_wp:
  assumes "pool_inv F s" "E Kernel_failed"
  shows "wpE (pr_kswapd_reclaim K s) (\<lambda>s'. pool_inv F s' \<and> pres F s s') E"
proof -
  have "wpE (pr_direct_allocate_page_asynch K nr 12 (s\<lparr>kswapd_running := True\<rparr>))
      (\<lambda>r. pool_inv F (snd r) \<and> pres F s (snd r\<lparr>kswapd_running := False\<rparr>)) E" for nr
    by (rule wpE_mono [OF pr_direct_allocate_wp [where F = F]])
       (use assms in \<open>auto simp: pres_def env_def npool_def\<close>)
  then show ?thesis using assms
    by (simp add: pr_kswapd_reclaim_def Let_def wp_simps) (auto simp: pres_def env_def npool_def)
qed

lemma pr_kswapd_wp:
  assumes inv: "pool_inv F s" and E: "E Kernel_failed"
  shows "wpE (pr_synchkswapd K s) (\<lambda>s'. pool_inv F s' \<and> pres F s s') E"
proof -
  note h = pool_invD(3) [OF inv]
  let ?u = "\<lambda>a. s\<lparr>held := held s, kswapd_at := a\<rparr>"
  have "pool_inv F (?u a) \<and> pres F s (?u a)" for a using inv by (simp add: pres_def)
  moreover have "wpE (pr_kswapd_reclaim K (?u a)) (\<lambda>s'. pool_inv F s' \<and> pres F s s') E" for a
    by (rule wpE_mono [OF pr_kswapd_reclaim_wp [where F = F and E = E]]) (use inv E in \<open>auto simp: pres_def env_def npool_def\<close>)
  ultimately show ?thesis using h inv pr_kswapd_reclaim_wp [where E = E, OF inv E]
    by (auto simp: pr_synchkswapd_def wp_simps unlock_def held_idem split: kswapd_pc.split)
qed

section \<open>Eviction\<close>

text \<open>
  The assertion that the workers add is one that \<open>extmem_wp_page\<close> makes anyway, so they are the workers of the
  default policy.
\<close>

lemma protect_checks_va: "va (heap s v) = 0 \<Longrightarrow> protect_victim K v s = Inl Assert_failed"
  by (simp add: protect_victim_def extmem_wp_page_def Let_def)

lemma protect_checked: "bindE (assertE (va (heap s v) \<noteq> 0)) (\<lambda>_. bindE (protect_victim K v s) f) = bindE (protect_victim K v s) f"
  by (cases "va (heap s v) = 0") (simp_all add: protect_checks_va)

lemma pr_protect_victims_eq: "pr_protect_victims K vs s = protect_victims K vs s"
  by (induction vs arbitrary: s) (simp_all add: Let_def protect_checked)

lemma pr_workers_eq:
  "pr_evictionworker K s = lrudisk_evictionworker K s" "pr_evictionworker_vector K s = lrudisk_evictionworker_vector K s"
proof -
  have "bindE (assertE (va (heap s v) \<noteq> 0)) (\<lambda>_. evict_victim K v s) = evict_victim K v s" for v and s :: "'a ext"
    by (simp add: evict_victim_def protect_checked)
  then show "pr_evictionworker K s = lrudisk_evictionworker K s"
    by (simp add: pr_evictionworker_def lrudisk_evictionworker_def cong: option.case_cong)
  show "pr_evictionworker_vector K s = lrudisk_evictionworker_vector K s"
    by (simp add: pr_evictionworker_vector_def lrudisk_evictionworker_vector_def pr_protect_victims_eq cong: if_cong)
qed

section \<open>Allocation and swap-in\<close>

interpretation pr_reclaim: reclaimer "\<lambda>priority. pr_direct_allocate_page_asynch K nr priority" for K nr
  by unfold_locales (rule wpE_mono [OF pr_direct_allocate_wp [where E = stops]], auto)

lemma pr_fetch_free_loop_wp:
  assumes "pool_inv F s" "can_alloc F s"
  shows "wpE (pr_fetch_free_loop K priority s) (\<lambda>r. free_frame F (snd r) (fst r) \<and> pres F s (snd r)) stops"
  using assms
proof (induction priority arbitrary: s)
  case (Suc priority)
  show ?case unfolding pr_fetch_free_loop.simps by (rule pr_reclaim.fetch_turn [OF Suc.prems]) (rule Suc.IH)
qed (simp add: wp_simps)

lemma pr_fetch_free_wp:
  assumes inv: "pool_inv F s" and a: "can_alloc F s"
  shows "wpE (pr_fetch_free_asynch K s) (\<lambda>r. free_frame F (snd r) (fst r) \<and> pres F s (snd r)) stops"
  unfolding pr_fetch_free_asynch_def wpE_bindE
proof (rule wpE_mono [OF wake_kswapd_wp [where E = stops, OF inv]])
  fix s1 assume s1: "pool_inv F s1 \<and> pres F s s1 \<and> heap s1 = heap s"
  then have "can_alloc F s1" using can_alloc_pres [of F s s1] a by simp
  then show "wpE (pr_fetch_free_loop K 12 s1) (\<lambda>r. free_frame F (snd r) (fst r) \<and> pres F s (snd r)) stops"
    using s1 by (intro frame_then [OF pr_fetch_free_loop_wp]) auto
qed

interpretation pr_frames: frame_source "pr_fetch_free_asynch K" for K
  by unfold_locales (rule pr_fetch_free_wp)

lemma pr_pagefault_wp:
  assumes "pool_inv F s" "can_alloc F s"
  shows "wpE (pr_pagefault K s) (\<lambda>r. free_frame F (snd r) (fst r) \<and> pres F s (snd r)) stops"
  unfolding pr_pagefault_def wpE_bindE wpE_case_prod
  by (rule wpE_mono [OF pr_fetch_free_wp [OF assms]]) (auto simp: wp_simps free_frame_upd)

lemma pr_swapin_external_async_wp:
  assumes inv: "pool_inv F (unmark p s)" and p: "page_list s p = Some Disk_active_list" and a: "can_alloc F s"
  shows "wpE (pr_swapin_external_async K p s) (\<lambda>s'. pool_inv F (settle p s') \<and> pres F s (settle p s')) stops"
  unfolding pr_swapin_external_async_def wpE_Let wpE_bindE [of "detach_from _ _ _"]
proof (rule marked_detach_from_wp [OF inv p], rule pr_frames.swapin_detached, goal_cases)
  case (1 fs)
  then show ?case by (simp add: incoming_def on_disk_def)
next
  case (2 fs)
  then have "page_aligned (va (heap s p))" using incoming_place(3) by fastforce
  then show ?case by (simp add: pres_def env_def)
qed (use a in simp_all)

section \<open>Removal\<close>

text \<open>The removal either waits for the eviction workers or removes the page.\<close>

definition waits :: "c_error \<Rightarrow> bool" where
  "waits e \<longleftrightarrow> stops e \<or> e = Spin"

lemma pr_free_place_wp:
  assumes l: "leaving F s p"
  shows "wpE (free_place p s) (\<lambda>s'. pool_inv F s' \<and> only_changes F p s s' \<and> va (heap s' p) = 0) E"
proof -
  have filing: "wpE (enqueue_fifo l p s1) (\<lambda>s'. pool_inv F s' \<and> only_changes F p s s' \<and> va (heap s' p) = 0) E"
    if "leaving F s1 p" "only_changes F p s s1" "\<not> has_reserve (heap s1 p)"
      "l = (if in_dram (heap s1 p) then Dram_free_list else Disk_free_list)" for s1 l
  proof (rule pool_inv_enq_wp)
    show "pool_inv (insert p F) s1" "p \<in> insert p F" using that(1) by (simp_all add: leaving_def)
    show "fits s1 l p" using that(1,3,4) by (auto simp: fits_def Let_def leaving_def)
    fix fs assume "pool_inv (insert p F - {p}) (s1\<lparr>lists := fs\<rparr>)"
    moreover have "insert p F - {p} = F" using that(1) by (auto simp: leaving_def)
    ultimately show "pool_inv F (s1\<lparr>lists := fs\<rparr>) \<and> only_changes F p s (s1\<lparr>lists := fs\<rparr>) \<and> va (heap (s1\<lparr>lists := fs\<rparr>) p) = 0"
      using that(1,2) by (auto simp: only_changes_def leaving_def)
  qed
  show ?thesis
  proof (cases "in_dram (heap s p)")
    case True
    have "wpE (drop_reserve p s) (\<lambda>s1. wpE (enqueue_fifo Dram_free_list p s1)
        (\<lambda>s'. pool_inv F s' \<and> only_changes F p s s' \<and> va (heap s' p) = 0) E) E"
      by (rule drop_reserve_wp [OF l True]) (auto intro!: filing)
    then show ?thesis using True by (simp add: free_place_def wp_simps)
  next
    case False
    let ?s = "upd_page p (\<lambda>h. h\<lparr>reserve := None, has_reserve := False\<rparr>) s"
    have i: "pool_inv (insert p F) s" "p \<notin> F" "swapped_out (heap s p)" "\<not> has_reserve (heap s p)" "va (heap s p) = 0"
      using l False by (auto simp: leaving_def)
    have "pool_inv (insert p F) ?s" unfolding upd_page_def
      by (rule pool_inv_upd [OF i(1)]) (use i pool_invD(4-6) [OF i(1), of p] in auto)
    then have "leaving F ?s p" using i by (simp add: leaving_def)
    moreover have "only_changes F p s ?s" using i(2) pool_invD(6) [OF i(1), of p] by (auto simp: only_changes_def)
    ultimately show ?thesis using False i filing [of ?s] by (simp add: free_place_def Let_def)
  qed
qed

lemma pr_remove_page_wp:
  assumes inv: "pool_inv F (unmark p s)" and p: "page_list s p = Some l"
    and l: "l \<in> {Active_list, Inactive_list, Disk_active_list}"
  shows "wpE (pr_remove_page p s) (\<lambda>s'. pool_inv F s' \<and> only_changes F p s s' \<and> va (heap s' p) = 0) E"
proof -
  let ?z = "\<lambda>h. h\<lparr>present := False, va := 0\<rparr>"
  note m = marked_listed [OF inv p]
  have v: "va (heap s p) \<noteq> 0" using m(3) l by (auto simp: fits_def resident_page_def Let_def)
  have "wpE (page_list_tryremove_page (Some l) p s) (\<lambda>x. fst x = 0 \<and> wpE (free_place p (upd_page p ?z (snd x)))
        (\<lambda>s'. pool_inv F s' \<and> only_changes F p s s' \<and> va (heap s' p) = 0) E) E"
  proof (rule marked_detach_wp [OF inv p])
    fix fs
    assume i: "pool_inv (insert p F) (s\<lparr>lists := fs\<rparr>)"
      and fs: "\<And>q. list_p (link fs q) = (if q = p then None else page_list s q)"
    let ?s1 = "upd_page p ?z (s\<lparr>lists := fs\<rparr>)"
    have i1: "pool_inv (insert p F) ?s1" unfolding upd_page_def [of p ?z]
      by (rule pool_inv_upd [OF i]) (use pool_invD(4) [OF i, of p] m(1) in auto)
    have "backed ?s1 d p" if "backed (unmark p s) d p" for d
      using that p l fs [of d] by (cases "d = p") (auto simp: backed_def)
    then have "leaving F ?s1 p"
      using i1 m l by (auto simp: leaving_def fits_def resident_page_def Let_def)
    from pr_free_place_wp [OF this]
    have "wpE (free_place p ?s1) (\<lambda>s'. pool_inv F s' \<and> only_changes F p s s' \<and> va (heap s' p) = 0) E"
      by (rule wpE_mono) (use m(1,2) in \<open>auto simp: only_changes_def\<close>)
    then show "fst (0 :: int, s\<lparr>lists := fs\<rparr>) = 0 \<and> wpE (free_place p (upd_page p ?z (snd (0 :: int, s\<lparr>lists := fs\<rparr>))))
        (\<lambda>s'. pool_inv F s' \<and> only_changes F p s s' \<and> va (heap s' p) = 0) E" by simp
  qed (use l in auto)
  then show ?thesis using p v l
    by (auto simp: pr_remove_page_def remove_from_any_def wp_simps Let_def case_prod_beta elim!: wpE_mono)
qed

lemma pr_remove_waits:
  assumes "va (heap s p) \<noteq> 0" "page_list s p = Some Eviction_list"
  shows "pr_remove_page p s = Inl Spin"
  using assms by (simp add: pr_remove_page_def)

section \<open>Initialisation\<close>

lemma pr_init_wp:
  assumes b: "boot s" and E: "\<And>k. fst (k_pthread_create K k) \<or> E Kernel_failed"
  shows "wpE (pr_init K s) (pool_ready s) E"
  unfolding pr_init_def
proof (rule init_pools_wp [OF b], goal_cases)
  case (1 s')
  show ?case unfolding Let_def init_locks_idle [OF 1(2)]
    by (intro create_thread_wp E) (subst wpE_bindE, intro create_workers_wp E, use pool_ready_kst [OF 1(1)] in simp)
qed

section \<open>The contract of the core\<close>

interpretation pagerank: paging_policy "pr_swap K" waits for K
proof (unfold_locales, unfold pr_swap_def policy.simps pr_same, goal_cases)
  case (1 F s)
  then show ?case by (rule pr_pagefault_wp)
next
  case (2 F s p)
  then show ?case by (intro track_page_wp) auto
next
  case (3 F s p)
  then show ?case by (intro put_page_free_wp) auto
next
  case (4 F p s)
  then show ?case by (rule pr_swapin_external_async_wp)
next
  case (5 F p s)
  then show ?case by (intro detach_page_wp) (auto intro: incoming_detached)
next
  case (6 F s p fp)
  then show ?case by (rule ack_swapin_wp)
next
  case (7 F s a len priority)
  then show ?case by (simp add: pr_ack_vma_def) (simp add: pres_def env_def)
next
  case (8 e)
  then show ?case by (simp add: waits_def)
next
  case (9 F p s l)
  show ?case
  proof (cases "l = Eviction_list")
    case True
    then have "va (heap s p) \<noteq> 0" using marked_listed(3) [OF 9(1,2)] by (simp add: fits_resident resident_page_def Let_def)
    then show ?thesis using True 9(2) by (simp add: pr_remove_waits wp_simps waits_def)
  qed (use 9 in \<open>intro pr_remove_page_wp; auto\<close>)
qed

end
