(* ===== verification/PageRank_System.thy ===== *)
theory PageRank_System
  imports PageRank_Safe
begin

text \<open>
  The library with the policy \<open>pageRank.c\<close>: start-up, the prefetch worker, and the sequences of operations.
\<close>

section \<open>The prefetch worker\<close>

text \<open>
  The loop over a block ends within its bound if the block does not reach the last pages of the address space.
\<close>

lemma unat_block: "unat PR_BLOCK_SIZE = 33554432"
  by (simp add: PR_BLOCK_SIZE_def)

lemma unat_advance:
  assumes "n \<le> 32" "unat (a :: u64) + 33 * 4096 \<le> 2 ^ 64"
  shows "unat (a + word_of_nat n * PAGE_SIZE) = unat a + n * 4096"
proof -
  have "unat (word_of_nat n :: u64) = n" using assms(1) by (simp add: unat_of_nat take_bit_eq_mod)
  then have "unat (word_of_nat n * PAGE_SIZE) = n * 4096" using assms(1) by (simp add: unat_word_ariths(2))
  then show ?thesis using assms by (simp add: unat_word_ariths(1))
qed

lemma good_prefetch:
  assumes s: "good s" and a: "a \<noteq> 0"
  shows "wpE (core_try_prefetch K (pr_swap K) a s)
    (\<lambda>r. good (snd r) \<and> config s (snd r) \<and> mapped (snd r) = mapped s \<and> fst r \<le> 32) stops"
proof (rule wpE_mono [OF pagerank.prefetch_wp [OF _ _ _ _ a]], goal_cases)
  case (5 r)
  then show ?case using good_pres [OF s, of "snd r"] mapped_pres [of "{}" s "snd r"] by (simp add: CORE_PREFETCH_RATE_def)
qed (use s in \<open>simp_all add: good_def sys_inv_def\<close>)

lemma prefetch_block_wp:
  assumes "good s" "page_aligned a" "a \<noteq> 0" "unat b + 33554432 + 34 * 4096 \<le> 2 ^ 64"
    "unat b + 33554432 < unat a + turns * 4096"
  shows "wpE (prefetch_block K (Suc turns) b a s) (\<lambda>s'. good s' \<and> config s s' \<and> mapped s' = mapped s) stops"
  using assms
proof (induction turns arbitrary: a s)
  case 0
  then have "\<not> a \<le> b + PR_BLOCK_SIZE" by (simp add: word_le_nat_alt unat_word_ariths unat_block)
  then show ?case using 0 by (simp add: wp_simps)
next
  case (Suc turns)
  show ?case
  proof (cases "a \<le> b + PR_BLOCK_SIZE")
    case True
    then have le: "unat a \<le> unat b + 33554432" using Suc.prems(4) by (simp add: word_le_nat_alt unat_word_ariths unat_block)
    have more: "wpE (prefetch_block K (Suc turns) b (a + word_of_nat n * PAGE_SIZE) s1)
        (\<lambda>s'. good s' \<and> config s s' \<and> mapped s' = mapped s) stops"
      if "good s1" "config s s1" "mapped s1 = mapped s" "n \<le> 32" "n \<noteq> 0" for n s1
    proof -
      have u: "unat (a + word_of_nat n * PAGE_SIZE) = unat a + n * 4096" by (rule unat_advance) (use that le Suc.prems(4) in auto)
      have al: "page_aligned (a + word_of_nat n * PAGE_SIZE)" using u Suc.prems(2) by (simp add: page_aligned_unat)
      have "a + word_of_nat n * PAGE_SIZE \<noteq> 0" using u that(5) by (metis add_is_0 mult_is_0 unat_0 zero_neq_numeral)
      from Suc.IH [OF that(1) al this Suc.prems(4)] show ?thesis
        by (rule wpE_mono) (use u that Suc.prems(5) in \<open>auto intro: config_trans\<close>)
    qed
    have "wpE (core_try_prefetch K (pr_swap K) a s) (\<lambda>r. (fst r = 0 \<longrightarrow> good (snd r) \<and> config s (snd r) \<and> mapped (snd r) = mapped s) \<and>
        (fst r \<noteq> 0 \<longrightarrow> wpE (prefetch_block K (Suc turns) b (a + word_of_nat (fst r) * PAGE_SIZE) (snd r))
          (\<lambda>s'. good s' \<and> config s s' \<and> mapped s' = mapped s) stops)) stops"
      by (rule wpE_mono [OF good_prefetch [OF Suc.prems(1,3)]]) (auto intro: more simp del: prefetch_block.simps)
    then show ?thesis using True Suc.prems(2) unfolding prefetch_block.simps(2) [of K "Suc turns"]
      by (simp add: wpE_bindE wpE_assertE wpE_if wpE_Inr case_prod_beta page_aligned_def del: prefetch_block.simps)
  qed (use Suc.prems(1) in \<open>simp add: wp_simps\<close>)
qed

lemma good_internal: "good s \<Longrightarrow> good (upd_me (\<lambda>t. t\<lparr>internal_call := b\<rparr>) s)"
  using sys_inv_internal [of "{}" s b] by (simp add: good_def set_internal_def) (simp add: upd_me_def nframes_def)

lemma pr_prefetchworker_wp:
  assumes s: "good s" and a: "page_aligned (safe_to_free s)" "unat (safe_to_free s) < 2 ^ 47"
  shows "wpE (pr_prefetchworker K block_head s) (\<lambda>r. good (snd r) \<and> config s (snd r) \<and> mapped (snd r) = mapped s) stops"
proof -
  let ?s = "upd_me (\<lambda>t. t\<lparr>internal_call := True\<rparr>) s" and ?b = "safe_to_free s + PR_BLOCK_SIZE"
  have i: "good ?s" "config s ?s" "mapped ?s = mapped s" "safe_to_free ?s = safe_to_free s"
    using good_internal [OF s] by (simp_all add: set_internal_def [symmetric])
  have u: "unat ?b = unat (safe_to_free s) + 33554432" using a(2) by (simp add: unat_word_ariths unat_block)
  have b: "page_aligned ?b" "?b \<noteq> 0" using u a(1) by (auto simp: page_aligned_unat simp flip: unat_eq_zero)
  have "wpE (prefetch_block K (Suc 8193) ?b ?b ?s) (\<lambda>s'. good s' \<and> config ?s s' \<and> mapped s' = mapped ?s) stops"
    by (rule prefetch_block_wp [OF i(1) b]) (use u a(2) in simp_all)
  then have "wpE (prefetch_block K (Suc 8193) ?b ?b ?s) (\<lambda>s'. good s' \<and> config s s' \<and> mapped s' = mapped s) stops"
    by (rule wpE_mono) (use i config_trans in auto)
  moreover have "PR_BLOCK_TURNS = Suc 8193" by (simp add: PR_BLOCK_TURNS_def)
  ultimately have "wpE (prefetch_block K PR_BLOCK_TURNS ?b ?b ?s) (\<lambda>s'. good s' \<and> config s s' \<and> mapped s' = mapped s) stops"
    by (simp only:)
  then show ?thesis using i by (simp add: pr_prefetchworker_def Let_def wpE_bindE wpE_Inr del: prefetch_block.simps)
qed

section \<open>Start-up\<close>

interpretation pr_start: policy_start K "pr_swap K" for K
  by unfold_locales (simp add: pr_swap_def pr_init_wp)

section \<open>Operations and runs\<close>

text \<open>
  The operations are those of the library with the default policy, and a turn of the prefetch worker; its argument
  is the value of the worker's \<open>block_head\<close> before the turn.
\<close>

datatype pr_op = Op op | Prefetcher u64

fun pr_run :: "'k kernel \<Rightarrow> pr_op \<Rightarrow> 'k ext \<Rightarrow> c_error + 'k ext" where
  "pr_run K (Op (Fault a)) s = uswap_sig_handler K (pr_swap K) SIGBUS a s"
| "pr_run K (Op (Mmap addr len prot flags off)) s =
     bindE (mmap_filter K (pr_swap K) addr len prot flags off s) (\<lambda>(_, s). Inr s)"
| "pr_run K (Op (Munmap addr len)) s = bindE (munmap_filter K (pr_swap K) addr len s) (\<lambda>(_, s). Inr s)"
| "pr_run K (Op Kswapd) s = pr_synchkswapd K s"
| "pr_run K (Op Evictor) s = pr_evictionworker K s"
| "pr_run K (Op Evictor_vector) s = pr_evictionworker_vector K s"
| "pr_run K (Op (Switch t)) s = Inr (s\<lparr>cur := t\<rparr>)"
| "pr_run K (Prefetcher block_head) s = bindE (pr_prefetchworker K block_head s) (\<lambda>(_, s). Inr s)"

text \<open>
  As for the default policy; and the address of the last major fault, when the prefetch worker looks at it, is one of
  the 47-bit addresses that the kernel hands out to programs.
\<close>

fun pr_allowed :: "pr_op \<Rightarrow> 'k ext \<Rightarrow> bool" where
  "pr_allowed (Op op) s \<longleftrightarrow> allowed op"
| "pr_allowed (Prefetcher block_head) s \<longleftrightarrow> unat (safe_to_free s) < 2 ^ 47"

inductive pr_reachable :: "'k kernel \<Rightarrow> (string \<Rightarrow> string option) \<Rightarrow> 'k ext \<Rightarrow> bool" for K getenv where
  start: "fresh s \<Longrightarrow> safe_to_free s = 0 \<Longrightarrow> extmem_init K (pr_swap K) getenv s = Inr s' \<Longrightarrow> pr_reachable K getenv s'"
| step: "pr_reachable K getenv s \<Longrightarrow> pr_allowed op s \<Longrightarrow> pr_run K op s = Inr s' \<Longrightarrow> pr_reachable K getenv s'"

definition pr_good :: "'k ext \<Rightarrow> bool" where
  "pr_good s \<longleftrightarrow> good s \<and> page_aligned (safe_to_free s)"

lemma pr_good_config: "pr_good s \<Longrightarrow> good s' \<and> config s s' \<Longrightarrow> pr_good s' \<and> nframes s' = nframes s"
  using config_size(2) [of s s'] by (auto simp: pr_good_def config_def)

text \<open>Only \<open>munmap\<close> may have to wait for another thread.\<close>

fun may_wait :: "pr_op \<Rightarrow> bool" where
  "may_wait (Op (Munmap addr len)) \<longleftrightarrow> True"
| "may_wait _ \<longleftrightarrow> False"

lemma pr_run_wp:
  assumes s: "pr_good s" and K: "mmap_contract K" and ok: "pr_allowed op s"
  shows "wpE (pr_run K op s) (\<lambda>s'. pr_good s' \<and> nframes s' = nframes s) (\<lambda>e. stops e \<or> may_wait op \<and> e = Spin)"
proof -
  note C = pr_good_config [OF s]
  have g: "good s" "page_aligned (safe_to_free s)" using s by (simp_all add: pr_good_def)
  have P: "pr_good s' \<and> nframes s' = nframes s" if "pool_inv {} s' \<and> pres {} s s'" for s'
    using that good_pres [OF g(1)] C by blast
  have pi: "pool_inv {} s" using g by (simp add: good_def sys_inv_def)
  let ?Q = "\<lambda>s'. pr_good s' \<and> nframes s' = nframes s" and ?E = "\<lambda>e. stops e \<or> may_wait op \<and> e = Spin"
  show ?thesis
  proof (cases op)
    case (Prefetcher b)
    then have "wpE (pr_prefetchworker K b s) (\<lambda>r. ?Q (snd r)) ?E"
      by (intro wpE_mono [OF pr_prefetchworker_wp [OF g]]) (use ok C in auto)
    then show ?thesis using Prefetcher by (simp add: wpE_bindE wpE_Inr case_prod_beta)
  next
    case o: (Op oo)
    show ?thesis
    proof (cases oo)
      case (Fault a)
      have "wpE (uswap_sig_handler K (pr_swap K) SIGBUS a s) ?Q ?E"
        by (rule wpE_mono [OF pagerank.fault_good [OF g(1)]]) (use ok o Fault C in auto)
      then show ?thesis using o Fault by simp
    next
      case (Mmap addr len prot flags off)
      have "wpE (mmap_filter K (pr_swap K) addr len prot flags off s) (\<lambda>r. ?Q (snd r)) ?E"
        by (rule wpE_mono [OF pagerank.mmap_good [OF g(1) K]]) (use C in auto)
      then show ?thesis using o Mmap by (simp add: wpE_bindE wpE_Inr case_prod_beta)
    next
      case (Munmap addr len)
      have "wpE (munmap_filter K (pr_swap K) addr len s) (\<lambda>r. ?Q (snd r)) ?E"
        by (rule wpE_mono [OF pagerank.munmap_good [OF g(1)]]) (use ok o Munmap C in \<open>auto simp: waits_def\<close>)
      then show ?thesis using o Munmap by (simp add: wpE_bindE wpE_Inr case_prod_beta)
    next
      case Kswapd
      have "wpE (pr_synchkswapd K s) ?Q ?E"
        by (rule wpE_mono [OF pr_kswapd_wp [OF pi, where E = stops]]) (use P in auto)
      then show ?thesis using o Kswapd by simp
    next
      case Evictor
      have "wpE (lrudisk_evictionworker K s) ?Q ?E"
        by (rule wpE_mono [OF evictionworker_wp [OF pi, where E = stops]]) (use P in auto)
      then show ?thesis using o Evictor by (simp add: pr_workers_eq)
    next
      case Evictor_vector
      have "wpE (lrudisk_evictionworker_vector K s) ?Q ?E"
        by (rule wpE_mono [OF evictionworker_vector_wp [OF pi, where E = stops]]) (use P in auto)
      then show ?thesis using o Evictor_vector by (simp add: pr_workers_eq)
    next
      case (Switch t)
      then show ?thesis using o s by (simp add: wp_simps pr_good_def good_def sys_inv_cur nframes_def)
    qed
  qed
qed

lemma pr_reachable_good:
  assumes "pr_reachable K getenv s" "mmap_contract K" "63 \<le> frames_requested getenv"
  shows "pr_good s"
  using assms(1)
proof induction
  case (start s0 s)
  from pr_start.extmem_init_wp [OF start(1), of "\<lambda>e. True" K getenv] show ?case
    using start(2,3) assms(3) by (simp add: wpE_Inr pr_good_def good_def started_def nframes_def frames_requested_def page_aligned_def)
next
  case (step s op s')
  then show ?case using pr_run_wp [OF step.IH assms(2) step.hyps(2)] by (simp add: wpE_Inr)
qed

end
