(* ===== verification/PageRank_Window.thy ===== *)
theory PageRank_Window
  imports PageRank_Safe "HOL-Library.Multiset"
begin

text \<open>
  What the window scan of \<open>pageRank.c\<close> does to the queues, as a function on the contents of the inactive queue:
  the loop over linked queues refines it, and the pages it gives up are the first ones outside the window.
\<close>

section \<open>The abstract scan\<close>

text \<open>
  At most \<open>tries\<close> pages are looked at, from the end of the queue; a page of the window goes back to the front, the
  others are given up until \<open>n\<close> are found. The result is the pages given up, in order, and the rest of the queue.
\<close>

fun window_scan :: "('p \<Rightarrow> bool) \<Rightarrow> nat \<Rightarrow> nat \<Rightarrow> 'p list \<Rightarrow> 'p list \<times> 'p list" where
  "window_scan W 0 n q = ([], q)"
| "window_scan W (Suc tries) n q =
     (if n = 0 \<or> q = [] then ([], q)
      else if W (last q) then window_scan W tries n (last q # butlast q)
      else let (e, q') = window_scan W tries (n - 1) (butlast q) in (last q # e, q'))"

lemma window_scan_stop [simp]: "window_scan W t 0 q = ([], q)" "window_scan W t n [] = ([], [])"
  by (cases t; simp)+

lemma window_scan_snoc [simp]:
  "0 < n \<Longrightarrow> window_scan W (Suc t) n (xs @ [x]) = (if W x then window_scan W t n (x # xs)
     else (x # fst (window_scan W t (n - 1) xs), snd (window_scan W t (n - 1) xs)))"
  by (simp add: case_prod_beta Let_def)

declare window_scan.simps(2) [simp del]

text \<open>No page is lost or duplicated, and the pages that are given up are outside the window.\<close>

lemma window_scan_mset: "mset (fst (window_scan W t n q)) + mset (snd (window_scan W t n q)) = mset q"
proof (induction W t n q rule: window_scan.induct)
  case (2 W t n q)
  show ?case
  proof (cases "n = 0 \<or> q = []")
    case False
    then obtain xs x where q: "q = xs @ [x]" by (cases q rule: rev_cases) auto
    show ?thesis using False 2 by (auto simp: q)
  qed auto
qed simp

text \<open>Behind pages that are all in the window, the scan gives up the first \<open>n\<close> pages outside.\<close>

lemma window_scan_found:
  "\<forall>y \<in> set ys. W y \<Longrightarrow> fst (window_scan W t n (ys @ zs)) = take n (filter (\<lambda>p. \<not> W p) (take t (rev zs)))"
proof (induction t arbitrary: n ys zs)
  case (Suc t)
  show ?case
  proof (cases "n = 0")
    case False
    show ?thesis
    proof (cases zs rule: rev_cases)
      case Nil
      show ?thesis
      proof (cases ys rule: rev_cases)
        case (snoc us u)
        have "fst (window_scan W t n ((u # us) @ [])) = []" by (subst Suc.IH) (use Suc.prems snoc in auto)
        then show ?thesis using Suc.prems False Nil snoc by simp
      qed (simp add: Nil)
    next
      case (snoc us u)
      have W: "W u \<Longrightarrow> fst (window_scan W t n ((u # ys) @ us)) = take n (filter (\<lambda>p. \<not> W p) (take t (rev us)))"
        by (rule Suc.IH) (use Suc.prems in auto)
      have "window_scan W (Suc t) n ((ys @ us) @ [u]) = (if W u then window_scan W t n (u # ys @ us)
         else (u # fst (window_scan W t (n - 1) (ys @ us)), snd (window_scan W t (n - 1) (ys @ us))))"
        by (rule window_scan_snoc) (use False in simp)
      then show ?thesis using False W Suc.IH [OF Suc.prems] by (cases n) (auto simp: snoc)
    qed
  qed simp
qed simp

section \<open>Refinement\<close>

text \<open>The pages in the window around the last major fault.\<close>

abbreviation kept_page :: "'k ext \<Rightarrow> page_ptr \<Rightarrow> bool" where
  "kept_page s p \<equiv> in_window (safe_to_free s) (va (heap s p))"

definition window_scanned :: "page_ptr set \<Rightarrow> nat \<Rightarrow> nat \<Rightarrow> 'k ext \<Rightarrow> nat \<Rightarrow> 'k ext \<Rightarrow> bool" where
  "window_scanned F t n s ret s' \<longleftrightarrow> (\<exists>fs e q. window_scan (kept_page s) t n (seq (lists s) Inactive_list) = (e, q) \<and>
     ret = length e \<and> s' = s\<lparr>lists := fs\<rparr> \<and> pool_inv F s' \<and>
     seq fs = (seq (lists s))(Inactive_list := q, Eviction_list := rev e @ seq (lists s) Eviction_list))"

lemma shrink_window_loop_refines:
  assumes "pool_inv F s" "ret \<le> nr"
  shows "wpE (shrink_window_loop nr ret tries s)
    (\<lambda>r. \<exists>m. fst r = ret + m \<and> window_scanned F (nr * 100 - tries) (nr - ret) s m (snd r)) E"
  using assms
proof (induction "nr * 100 - tries" arbitrary: ret tries s)
  case 0
  then show ?case unfolding shrink_window_loop.simps [of nr ret tries s]
    by (auto simp: wp_simps window_scanned_def intro!: exI [of _ "lists s"])
next
  case (Suc t)
  then have t: "nr * 100 - tries = Suc t" "t = nr * 100 - (tries + 1)" by auto
  show ?case
  proof (cases "ret < nr \<and> 0 < entries s Inactive_list \<and> tries < nr * 100")
    case True
    then have n: "0 < nr - ret" by simp
    show ?thesis
      unfolding shrink_window_loop.simps [of nr ret tries s] if_P [OF True] wpE_bindE wpE_case_prod
    proof (rule pool_inv_deq_wp [OF Suc.prems(1)], goal_cases)
      case 2
      then show ?case using True pool_inv_entries [OF Suc.prems(1)] by simp
    next
      case (3 fs xs x)
      let ?s = "s\<lparr>lists := fs\<rparr>"
      have rec: "wpE (shrink_window_loop nr ret' (tries + 1) (s\<lparr>lists := fs'\<rparr>))
          (\<lambda>r. \<exists>m. fst r = ret + m \<and> window_scanned F (nr * 100 - tries) (nr - ret) s m (snd r)) E"
        if i: "pool_inv F (s\<lparr>lists := fs'\<rparr>)" and w: "if kept_page s x then ret' = ret \<and> seq fs' = (seq fs)(Inactive_list := x # xs)
          else ret' = ret + 1 \<and> seq fs' = (seq fs)(Eviction_list := x # seq fs Eviction_list)" for fs' ret'
      proof (rule wpE_mono [OF Suc.hyps(1) [OF t(2) i]], goal_cases)
        case 1
        then show ?case using w True by (auto split: if_splits)
      next
        case (2 r)
        then show ?case using w 3(5,6) n unfolding window_scanned_def t(1) t(2) [symmetric]
          by (cases "kept_page s x") (auto simp: fun_upd_twist [of Eviction_list])
      qed simp
      have enq: "wpE (enqueue_fifo l x ?s) Q E"
        if "l \<in> {Inactive_list, Eviction_list}"
          "\<And>fs'. pool_inv F (s\<lparr>lists := fs'\<rparr>) \<Longrightarrow> seq fs' = (seq fs)(l := x # seq fs l) \<Longrightarrow> Q (s\<lparr>lists := fs'\<rparr>)" for l Q
      proof (rule pool_inv_enq_wp [OF 3(1)])
        have "insert x F - {x} = F" using 3(2) by auto
        then show "Q (?s\<lparr>lists := fs'\<rparr>)" if "pool_inv (insert x F - {x}) (?s\<lparr>lists := fs'\<rparr>)"
          "seq fs' = (seq (lists ?s))(l := x # seq (lists ?s) l)" for fs'
          using that \<open>\<And>fs'. _ \<Longrightarrow> _ \<Longrightarrow> Q _\<close> by simp
      qed (use that(1) 3(4) in \<open>auto simp: fits_resident\<close>)
      show ?case using 3(6) unfolding scan_window_page_def
        by (auto simp: wpE_bindE wpE_if wpE_Inr intro!: enq rec [simplified])
    qed simp
  next
    case False
    then have "nr - ret = 0 \<or> seq (lists s) Inactive_list = []" using t(1) Suc.prems pool_inv_entries [OF Suc.prems(1)] by auto
    then show ?thesis unfolding shrink_window_loop.simps [of nr ret tries s] if_not_P [OF False]
      using Suc.prems by (auto simp: wp_simps window_scanned_def fun_upd_idem intro!: exI [of _ "lists s"])
  qed
qed

section \<open>The whole scan\<close>

text \<open>
  After a major fault the scan gives up the first pages outside the window, in the order in which they entered the
  queue, and no others.
\<close>

lemma window_scan_split:
  assumes "window_scan W t n q = (e, q')"
  shows "e = take n (filter (\<lambda>p. \<not> W p) (take t (rev q)))" "mset e + mset q' = mset q"
  using window_scan_found [of "[]" W t n q] window_scan_mset [of W t n q] assms by simp_all

lemma pr_shrink_inactive_returns:
  assumes inv: "pool_inv F s" and f: "safe_to_free s \<noteq> 0" and q: "q = seq (lists s) Inactive_list"
    and n: "n = (if nr = 0 \<or> length q < nr then length q else nr)"
  shows "\<exists>e s'. pr_shrink_inactive_list K nr s = Inr (length e, s') \<and>
     e = take n (filter (\<lambda>p. \<not> kept_page s p) (take (n * 100) (rev q))) \<and> pool_inv F s' \<and> heap s' = heap s \<and>
     seq (lists s') Eviction_list = rev e @ seq (lists s) Eviction_list \<and>
     mset e + mset (seq (lists s') Inactive_list) = mset q \<and>
     (\<forall>l. l \<noteq> Inactive_list \<longrightarrow> l \<noteq> Eviction_list \<longrightarrow> seq (lists s') l = seq (lists s) l)"
proof -
  let ?s = "s\<lparr>shrinkage_running := True\<rparr>"
  have i: "pool_inv F ?s" using inv by simp
  obtain r where r: "shrink_window_loop n 0 0 ?s = Inr r" "window_scanned F (n * 100) n ?s (fst r) (snd r)"
    using shrink_window_loop_refines [OF i, of 0 n 0 "\<lambda>_. False"] by (auto simp: wpE_returns)
  then obtain fs e q' where w: "window_scan (kept_page s) (n * 100) n q = (e, q')" "r = (length e, ?s\<lparr>lists := fs\<rparr>)"
    "pool_inv F (?s\<lparr>lists := fs\<rparr>)" "seq fs = (seq (lists s))(Inactive_list := q', Eviction_list := rev e @ seq (lists s) Eviction_list)"
    unfolding window_scanned_def q by (cases r) auto
  have "pr_shrink_inactive_list K nr s = Inr (length e, s\<lparr>lists := fs, shrinkage_running := False\<rparr>)"
    using r(1) w(2) f unfolding pr_shrink_inactive_list_def Let_def pool_inv_entries [OF inv] q [symmetric] n [symmetric] by simp
  moreover have "pool_inv F (s\<lparr>lists := fs, shrinkage_running := False\<rparr>) = pool_inv F (?s\<lparr>lists := fs\<rparr>)"
    by (rule pool_inv_cong) simp_all
  ultimately show ?thesis using w(3,4) window_scan_split [OF w(1)] by (intro exI [of _ e] exI [of _ "s\<lparr>lists := fs, shrinkage_running := False\<rparr>"]) auto
qed

end
