(* ===== verification/PageRank_Reference.thy ===== *)
theory PageRank_Reference
  imports Reference PageRank_System PageRank_Window
begin

text \<open>The concrete machine for the instances of the theorems on \<open>pageRank.c\<close>.\<close>

section \<open>After start-up\<close>

definition pr_ref_state :: "unit ext" where
  "pr_ref_state = projr (extmem_init ref_kernel (pr_swap ref_kernel) ref_getenv ref_boot)"

lemma ref_boot_window [simp]: "safe_to_free ref_boot = 0"
  unfolding ref_boot_def by (simp only: ext.simps)

lemma pr_ref_init:
  "extmem_init ref_kernel (pr_swap ref_kernel) ref_getenv ref_boot = Inr pr_ref_state"
proof -
  have "wpE (extmem_init ref_kernel (pr_swap ref_kernel) ref_getenv ref_boot) (\<lambda>_. True) (\<lambda>_. False)"
    using pr_start.extmem_init_wp [OF ref_fresh, of "\<lambda>_. False" ref_kernel ref_getenv] ref_kernel_starts
    by (auto elim!: wpE_mono)
  then show ?thesis by (auto simp: wpE_returns pr_ref_state_def)
qed

lemma pr_ref_reachable: "pr_reachable ref_kernel ref_getenv pr_ref_state"
  by (rule pr_reachable.start [OF ref_fresh ref_boot_window pr_ref_init])

section \<open>After a major fault\<close>

text \<open>A page on disk at the start of a region of 6 GiB, and the last major fault one block below it.\<close>

definition pr_ref_swapped :: "unit ext" where
  "pr_ref_swapped = ref_swapped\<lparr>safe_to_free := 0x6FFE000000, main_vma := \<lparr>vma_va = 0x7000000000, vma_priority = 0, vma_size = 0x180000000\<rparr>\<rparr>"

lemma pr_ref_swapped:
  "good pr_ref_swapped" "page_aligned (safe_to_free pr_ref_swapped)" "unat (safe_to_free pr_ref_swapped) < 2 ^ 47"
proof -
  have g: "good ref_swapped" using ref_swapped(1-3) by (simp add: good_def)
  have "pool_inv {} pr_ref_swapped" using ref_swapped(1) by (simp add: pr_ref_swapped_def sys_inv_def)
  moreover have "index_inv pr_ref_swapped"
    by (rule index_inv_cong [of ref_swapped]) (use ref_swapped(1) in \<open>simp_all add: pr_ref_swapped_def sys_inv_def npool_def\<close>)
  ultimately show "good pr_ref_swapped" using g
    by (simp add: good_def sys_inv_def) (simp add: pr_ref_swapped_def nframes_def)
  show "page_aligned (safe_to_free pr_ref_swapped)" "unat (safe_to_free pr_ref_swapped) < 2 ^ 47"
    by (simp_all add: pr_ref_swapped_def page_aligned_unat)
qed

text \<open>One page in the inactive queue, and the last major fault was on it.\<close>

definition pr_ref_cold :: "unit ext" where
  "pr_ref_cold = (ref_one Inactive_list)\<lparr>safe_to_free := 0x7000000000\<rparr>"

lemma pr_ref_cold: "pool_inv {} pr_ref_cold" "safe_to_free pr_ref_cold \<noteq> 0" "seq (lists pr_ref_cold) Inactive_list = [0]"
  "va (heap pr_ref_cold 0) = 0x7000000000" "safe_to_free pr_ref_cold = 0x7000000000"
  using ref_one [of Inactive_list] ref_one_seq [of Inactive_list] by (simp_all add: pr_ref_cold_def) (simp add: ref_one_def)

end
