(* ===== verification/Contents.thy ===== *)
theory Contents
  imports Disklinux_Alloc Disklinux_Vector Disklinux_Counts Core_Safe
begin

text \<open>
  What happens to the contents of the pages. The kernel moves the data; how it does so is stated as laws on
  the calls that the library makes, over a view of the kernel state: the page at every address, the page in
  every disk slot, the page that was mapped at an address when its dirty bit was last clear, and the requests
  of every ring that are not completed. Under these laws an eviction, an allocation and a swap-in keep the
  contents of every page, also when the eviction does not write a clean page back.
\<close>

section \<open>The kernel's view\<close>

datatype request = Read_into u64 u64 | Write_from u64 u64

fun is_write :: "request \<Rightarrow> bool" where
  "is_write (Read_into b off) = False"
| "is_write (Write_from b off) = True"

record ('k, 'd) view =
  mem :: "'k \<Rightarrow> u64 \<Rightarrow> 'd"
  disk :: "'k \<Rightarrow> u64 \<Rightarrow> 'd"
  base :: "'k \<Rightarrow> u64 \<Rightarrow> 'd"
  queued :: "'k \<Rightarrow> ring_id \<Rightarrow> request list"
  zeros :: u64

text \<open>The page from which first faults copy and the buffers of the threads are where they were; once allocated, a buffer stays.\<close>

abbreviation same_buffers :: "'k ext \<Rightarrow> 'k ext \<Rightarrow> bool" where
  "same_buffers s s' \<equiv> page_cache s' = page_cache s \<and>
     (\<forall>t. buffer_space (tls s' t) = buffer_space (tls s t) \<and> prefetch_buffer (tls s' t) = prefetch_buffer (tls s t) \<and>
        (buffer_allocated (tls s t) \<longrightarrow> buffer_allocated (tls s' t)) \<and>
        (prefetch_buffer_allocated (tls s t) \<longrightarrow> prefetch_buffer_allocated (tls s' t)))"

text \<open>Two kernel states that do not differ in data.\<close>

definition same :: "('k, 'd) view \<Rightarrow> 'k \<Rightarrow> 'k \<Rightarrow> bool" where
  "same V k k' \<longleftrightarrow> mem V k' = mem V k \<and> disk V k' = disk V k \<and> base V k' = base V k \<and> queued V k' = queued V k"

text \<open>The effect of a completed request.\<close>

definition completes :: "('k, 'd) view \<Rightarrow> request \<Rightarrow> 'k \<Rightarrow> 'k \<Rightarrow> bool" where
  "completes V q k k' \<longleftrightarrow> base V k' = base V k \<and> (case q of
       Read_into b off \<Rightarrow> mem V k' = (mem V k)(b := disk V k off) \<and> disk V k' = disk V k
     | Write_from b off \<Rightarrow> mem V k' = mem V k \<and> disk V k' = (disk V k)(off := mem V k b))"

text \<open>
  The laws: a request is queued when it is prepared and takes effect at the latest when its completion is
  waited for, in any order among the requests of a ring; \<open>UFFDIO_COPY\<close> copies a page and leaves it clean;
  \<open>MADV_DONTNEED\<close> drops one page; a page whose dirty bit is clear holds what was last copied there; the other
  calls do not touch data.
\<close>

definition data_laws :: "'k kernel \<Rightarrow> ('k, 'd) view \<Rightarrow> bool" where
  "data_laws K V \<longleftrightarrow>
     (\<forall>r k. same V k (snd (u_queue_init K r k)) \<and> same V k (snd (u_get_sqe K r k)) \<and>
        same V k (snd (u_submit K r k)) \<and> same V k (u_cqe_seen K r k)) \<and>
     (\<forall>r fd b off k. let k' = u_prep_write K r fd b PAGE_SIZE off k in mem V k' = mem V k \<and> disk V k' = disk V k \<and>
        base V k' = base V k \<and> queued V k' = (queued V k)(r := queued V k r @ [Write_from b off])) \<and>
     (\<forall>r fd b off k. let k' = u_prep_read K r fd b PAGE_SIZE off k in mem V k' = mem V k \<and> disk V k' = disk V k \<and>
        base V k' = base V k \<and> queued V k' = (queued V k)(r := queued V k r @ [Read_into b off])) \<and>
     (\<forall>r k. queued V k r \<noteq> [] \<longrightarrow> fst (u_wait_cqe K r k) \<longrightarrow> (let k' = snd (u_wait_cqe K r k) in
        \<exists>q \<in> set (queued V k r). completes V q k k' \<and> queued V k' = (queued V k)(r := remove1 q (queued V k r)))) \<and>
     (\<forall>a b k. fst (k_uffd_copy K a b PAGE_SIZE k) \<longrightarrow> (let k' = snd (k_uffd_copy K a b PAGE_SIZE k) in
        mem V k' = (mem V k)(a := mem V k b) \<and> base V k' = (base V k)(a := mem V k b) \<and> disk V k' = disk V k \<and>
        queued V k' = queued V k)) \<and>
     (\<forall>a k. fst (k_madvise_dontneed K a PAGE_SIZE k) \<longrightarrow> (let k' = snd (k_madvise_dontneed K a PAGE_SIZE k) in
        (\<forall>b. b \<noteq> a \<longrightarrow> mem V k' b = mem V k b) \<and> (\<forall>b. b \<noteq> a \<longrightarrow> base V k' b = base V k b) \<and>
        disk V k' = disk V k \<and> queued V k' = queued V k)) \<and>
     (\<forall>a n p k. same V k (snd (k_uffd_writeprotect K a n p k))) \<and>
     (\<forall>a f g k. same V k (snd (k_uffd_clear_flag K a f g k)) \<and> same V k (snd (k_uffd_get_flag K a f g k))) \<and>
     (\<forall>a k r1 r2. fst (k_uffd_get_flag K a PT_ACCESSED_FLAG PT_DIRTY_FLAG k) = Some (r1, r2) \<longrightarrow>
        (r1 OR r2) AND PT_DIRTY_FLAG = 0 \<longrightarrow> mem V k a = base V k a)"

lemma same_refl [simp]: "same V k k"
  by (simp add: same_def)

lemma same_trans [trans]: "same V k k' \<Longrightarrow> same V k' k'' \<Longrightarrow> same V k k''"
  by (simp add: same_def)

text \<open>The laws, one by one.\<close>

lemma data_lawsD:
  assumes "data_laws K V"
  shows "same V k (snd (u_queue_init K r k))" "same V k (snd (u_get_sqe K r k))" "same V k (snd (u_submit K r k))"
    "same V k (u_cqe_seen K r k)" "same V k (snd (k_uffd_writeprotect K a n p k))" "same V k (snd (k_uffd_clear_flag K a f g k))"
    "same V k (snd (k_uffd_get_flag K a f g k))"
  using assms by (simp_all add: data_laws_def)

lemma data_prep_write:
  assumes "data_laws K V"
  shows "mem V (u_prep_write K r fd b PAGE_SIZE off k) = mem V k" "disk V (u_prep_write K r fd b PAGE_SIZE off k) = disk V k"
    "base V (u_prep_write K r fd b PAGE_SIZE off k) = base V k"
    "queued V (u_prep_write K r fd b PAGE_SIZE off k) = (queued V k)(r := queued V k r @ [Write_from b off])"
  using assms by (simp_all add: data_laws_def Let_def)

lemma data_prep_read:
  assumes "data_laws K V"
  shows "mem V (u_prep_read K r fd b PAGE_SIZE off k) = mem V k" "disk V (u_prep_read K r fd b PAGE_SIZE off k) = disk V k"
    "base V (u_prep_read K r fd b PAGE_SIZE off k) = base V k"
    "queued V (u_prep_read K r fd b PAGE_SIZE off k) = (queued V k)(r := queued V k r @ [Read_into b off])"
  using assms by (simp_all add: data_laws_def Let_def)

lemma data_wait:
  assumes "data_laws K V" "queued V k r \<noteq> []" "fst (u_wait_cqe K r k)"
  obtains q where "q \<in> set (queued V k r)" "completes V q k (snd (u_wait_cqe K r k))"
    "queued V (snd (u_wait_cqe K r k)) = (queued V k)(r := remove1 q (queued V k r))"
proof -
  have "\<exists>q \<in> set (queued V k r). completes V q k (snd (u_wait_cqe K r k)) \<and>
      queued V (snd (u_wait_cqe K r k)) = (queued V k)(r := remove1 q (queued V k r))"
    using assms by (simp add: data_laws_def Let_def)
  then show ?thesis using that by blast
qed

lemma data_copy:
  assumes "data_laws K V" "fst (k_uffd_copy K a b PAGE_SIZE k)"
  shows "mem V (snd (k_uffd_copy K a b PAGE_SIZE k)) = (mem V k)(a := mem V k b)"
    "base V (snd (k_uffd_copy K a b PAGE_SIZE k)) = (base V k)(a := mem V k b)"
    "disk V (snd (k_uffd_copy K a b PAGE_SIZE k)) = disk V k" "queued V (snd (k_uffd_copy K a b PAGE_SIZE k)) = queued V k"
  using assms by (simp_all add: data_laws_def Let_def)

lemma data_madvise:
  assumes "data_laws K V" "fst (k_madvise_dontneed K a PAGE_SIZE k)"
  shows "b \<noteq> a \<Longrightarrow> mem V (snd (k_madvise_dontneed K a PAGE_SIZE k)) b = mem V k b"
    "b \<noteq> a \<Longrightarrow> base V (snd (k_madvise_dontneed K a PAGE_SIZE k)) b = base V k b"
    "disk V (snd (k_madvise_dontneed K a PAGE_SIZE k)) = disk V k" "queued V (snd (k_madvise_dontneed K a PAGE_SIZE k)) = queued V k"
  using assms by (simp_all add: data_laws_def Let_def)

lemma data_clean:
  assumes "data_laws K V" "fst (k_uffd_get_flag K a PT_ACCESSED_FLAG PT_DIRTY_FLAG k) = Some (r1, r2)" "(r1 OR r2) AND PT_DIRTY_FLAG = 0"
  shows "mem V k a = base V k a"
  using assms unfolding data_laws_def by blast

section \<open>Contents\<close>

text \<open>The contents of a page, wherever it is.\<close>

definition content :: "('k, 'd) view \<Rightarrow> 'k ext \<Rightarrow> page_ptr \<Rightarrow> 'd" where
  "content V s p = (if in_dram (heap s p) then mem V (kst s) (va (heap s p)) else disk V (kst s) (virtual_offset (heap s p)))"

text \<open>The disk slot kept for a resident page holds what was copied into memory.\<close>

definition synced :: "('k, 'd) view \<Rightarrow> 'k ext \<Rightarrow> bool" where
  "synced V s \<longleftrightarrow> (\<forall>p d. p < npool s \<longrightarrow> in_dram (heap s p) \<longrightarrow> va (heap s p) \<noteq> 0 \<longrightarrow> has_reserve (heap s p) \<longrightarrow>
     reserve (heap s p) = Some d \<longrightarrow> disk V (kst s) (virtual_offset (heap s d)) = base V (kst s) (va (heap s p)))"

definition kept :: "('k, 'd) view \<Rightarrow> 'k ext \<Rightarrow> 'k ext \<Rightarrow> bool" where
  "kept V s s' \<longleftrightarrow> (\<forall>p < npool s. va (heap s p) \<noteq> 0 \<longrightarrow> content V s' p = content V s p)"

section \<open>Storage\<close>

text \<open>One page written, one page read.\<close>

definition wrote :: "('k, 'd) view \<Rightarrow> u64 \<Rightarrow> u64 \<Rightarrow> 'k \<Rightarrow> 'k \<Rightarrow> bool" where
  "wrote V b off k k' \<longleftrightarrow> mem V k' = mem V k \<and> base V k' = base V k \<and> queued V k' = queued V k \<and>
     disk V k' = (disk V k)(off := mem V k b)"

lemma write_kernel:
  assumes K: "data_laws K V" and r: "queued V k r = []"
    and ok: "fst (u_wait_cqe K r (snd (u_submit K r (u_prep_write K r fd b PAGE_SIZE off (snd (u_get_sqe K r k))))))"
  shows "wrote V b off k (u_cqe_seen K r (snd (u_wait_cqe K r (snd (u_submit K r
     (u_prep_write K r fd b PAGE_SIZE off (snd (u_get_sqe K r k))))))))"
proof -
  define k1 where "k1 = snd (u_submit K r (u_prep_write K r fd b PAGE_SIZE off (snd (u_get_sqe K r k))))"
  have k1: "mem V k1 = mem V k" "disk V k1 = disk V k" "base V k1 = base V k" "queued V k1 = (queued V k)(r := [Write_from b off])"
    using data_lawsD(2,3) [OF K] data_prep_write [OF K] r by (simp_all add: k1_def same_def)
  obtain q where "q \<in> set (queued V k1 r)" "completes V q k1 (snd (u_wait_cqe K r k1))"
    "queued V (snd (u_wait_cqe K r k1)) = (queued V k1)(r := remove1 q (queued V k1 r))"
    by (rule data_wait [OF K, of k1 r]) (use k1(4) ok in \<open>auto simp: k1_def\<close>)
  then have "wrote V b off k (snd (u_wait_cqe K r k1))" using k1 r by (auto simp: wrote_def completes_def)
  then show ?thesis using data_lawsD(4) [OF K] by (simp add: wrote_def same_def k1_def)
qed

lemma write_store_data:
  assumes K: "data_laws K V" and r: "queued V (kst s) (Io_ring (cur s)) = []"
  shows "wpE (ioring_write_store K fd off b PAGE_SIZE s) (\<lambda>s'. io_only s s' \<and> wrote V b off (kst s) (kst s') \<and>
     same_buffers s s') any_error"
proof -
  have "wpE (ioring_write_store K fd off b PAGE_SIZE s) (\<lambda>s'. wrote V b off (kst s) (kst s') \<and>
     same_buffers s s') any_error"
  proof (cases "uring_init (me s)")
    case True
    then show ?thesis using write_kernel [OF K r] by (simp add: ioring_write_store_def wp_simps kdo_def)
  next
    case False
    let ?k = "snd (u_queue_init K (Io_ring (cur s)) (kst s))"
    have i: "same V (kst s) ?k" by (rule data_lawsD(1) [OF K])
    then have "queued V ?k (Io_ring (cur s)) = []" using r by (simp add: same_def)
    from write_kernel [OF K this] show ?thesis using False i
      by (simp add: ioring_write_store_def thread_init_iouring_def wp_simps kdo_def upd_me_def wrote_def same_def)
  qed
  from wpE_conj [OF ioring_io(2) this] show ?thesis by (rule wpE_mono) auto
qed

text \<open>A read that was started waits in the ring of the thread until it is finished.\<close>

definition reading :: "('k, 'd) view \<Rightarrow> ring_id \<Rightarrow> u64 \<Rightarrow> u64 \<Rightarrow> 'k \<Rightarrow> 'k \<Rightarrow> bool" where
  "reading V r b off k k' \<longleftrightarrow> mem V k' = mem V k \<and> base V k' = base V k \<and> disk V k' = disk V k \<and>
     queued V k' = (queued V k)(r := queued V k r @ [Read_into b off])"

lemma start_read_data:
  assumes K: "data_laws K V"
  shows "wpE (ioring_start_read K fd off b PAGE_SIZE s)
    (\<lambda>s'. io_only s s' \<and> reading V (Io_read_ring (cur s)) b off (kst s) (kst s') \<and>
     same_buffers s s') any_error"
proof -
  have "wpE (ioring_start_read K fd off b PAGE_SIZE s) (\<lambda>s'. reading V (Io_read_ring (cur s)) b off (kst s) (kst s') \<and>
     same_buffers s s') any_error"
    using data_lawsD(1,2,3) [OF K] data_prep_read [OF K]
    by (simp add: ioring_start_read_def thread_init_read_iouring_def wp_simps kdo_def upd_me_def reading_def same_def)
  from wpE_conj [OF ioring_io(3) this] show ?thesis by (rule wpE_mono) auto
qed

lemma finish_read_data:
  assumes K: "data_laws K V" and r: "queued V (kst s) (Io_read_ring (cur s)) = [Read_into b off]"
  shows "wpE (ioring_finish_read K fd off' b' sz s) (\<lambda>s'. heap s' = heap s \<and> lists s' = lists s \<and> env s s' \<and> me s' = me s \<and>
     mem V (kst s') = (mem V (kst s))(b := disk V (kst s) off) \<and> base V (kst s') = base V (kst s) \<and>
     disk V (kst s') = disk V (kst s) \<and> queued V (kst s') = (queued V (kst s))(Io_read_ring (cur s) := [])) any_error"
proof (cases "fst (u_wait_cqe K (Io_read_ring (cur s)) (kst s))")
  case True
  let ?r = "Io_read_ring (cur s)" and ?k = "kst s"
  obtain q where "q \<in> set (queued V ?k ?r)" "completes V q ?k (snd (u_wait_cqe K ?r ?k))"
    "queued V (snd (u_wait_cqe K ?r ?k)) = (queued V ?k)(?r := remove1 q (queued V ?k ?r))"
    by (rule data_wait [OF K, of ?k ?r]) (use r True in auto)
  then show ?thesis using r data_lawsD(4) [OF K, of "snd (u_wait_cqe K ?r ?k)" ?r]
    by (simp add: ioring_finish_read_def wp_simps kdo_def completes_def same_def env_def)
qed (simp add: ioring_finish_read_def wp_simps)

section \<open>One eviction\<close>

text \<open>What all the steps of an eviction leave alone: the running thread, the buffers, the requests of the rings.\<close>

definition settled :: "('k, 'd) view \<Rightarrow> 'k ext \<Rightarrow> 'k ext \<Rightarrow> bool" where
  "settled V s s' \<longleftrightarrow> cur s' = cur s \<and> same_buffers s s' \<and> queued V (kst s') = queued V (kst s)"

lemma page_cache_simps [simp]:
  "page_cache (upd_page p f s) = page_cache s" "page_cache (count g s) = page_cache s" "page_cache (set_link p l s) = page_cache s"
  "page_cache (set_queue i h s) = page_cache s" "page_cache (unlock m s) = page_cache s" "page_cache (kdo a s) = page_cache s"
  "page_cache (upd_me b s) = page_cache s"
  by (simp_all add: upd_page_def count_def set_link_def set_queue_def unlock_def kdo_def upd_me_def)

lemma settled_refl [simp]: "settled V s s"
  by (simp add: settled_def)

lemma settled_trans [trans]: "settled V s s' \<Longrightarrow> settled V s' s'' \<Longrightarrow> settled V s s''"
  by (simp add: settled_def)

text \<open>A victim is not written back only if it is clean and has a reserve.\<close>

lemma protect_data:
  assumes K: "data_laws K V"
  shows "wpE (protect_victim K v s) (\<lambda>r. heap (snd r) = (heap s)(v := (heap s v)\<lparr>migrating := True\<rparr>) \<and> lists (snd r) = lists s \<and>
     cur (snd r) = cur s \<and> page_cache (snd r) = page_cache s \<and> tls (snd r) = tls s \<and> same V (kst s) (kst (snd r)) \<and>
     (\<not> fst r \<longrightarrow> has_reserve (heap s v) \<and> mem V (kst s) (va (heap s v)) = base V (kst s) (va (heap s v)))) any_error"
proof -
  let ?a = "va (heap s v)"
  have w: "same V (kst s) (snd (k_uffd_writeprotect K ?a n True (kst s)))" (is "same V _ (?k n)") for n by (rule data_lawsD(5) [OF K])
  have "same V (kst s) (snd (k_uffd_get_flag K ?a f g (?k n)))" for n f g
    by (rule same_trans [OF w data_lawsD(7) [OF K]])
  moreover have "mem V (kst s) ?a = base V (kst s) ?a"
    if "fst (k_uffd_get_flag K ?a PT_ACCESSED_FLAG PT_DIRTY_FLAG (?k n)) = Some (r1, r2)" "(r1 OR r2) AND PT_DIRTY_FLAG = 0" for n r1 r2
    using data_clean [OF K that] w [of n] by (simp add: same_def)
  ultimately show ?thesis
    by (auto simp: protect_victim_def extmem_wp_page_def pt_get_bits_def wp_simps Let_def split: option.splits prod.splits)
qed

lemma migrate_down_data:
  assumes K: "data_laws K V" and r: "queued V (kst s) (Io_ring (cur s)) = []" and b: "pt (heap s v) = BASEP"
  shows "wpE (lrudisk_migrate_down K v off nw wb s) (\<lambda>s'. heap s' = (heap s)(v := (placed off False (heap s v))\<lparr>migrating := True, swapped_out := True\<rparr>) \<and>
     lists s' = lists s \<and> settled V s s' \<and> (\<forall>c. c \<noteq> va (heap s v) \<longrightarrow> mem V (kst s') c = mem V (kst s) c \<and> base V (kst s') c = base V (kst s) c) \<and>
     disk V (kst s') = (if wb then (disk V (kst s))(off := mem V (kst s) (va (heap s v))) else disk V (kst s))) any_error"
    (is "wpE _ ?Q _")
proof -
  let ?a = "va (heap s v)" and ?m = "upd_page v (\<lambda>h. h\<lparr>migrating := True\<rparr>)"
  let ?B = "\<lambda>u s'. heap s' = heap u \<and> lists s' = lists s \<and> settled V s s' \<and> mem V (kst s') = mem V (kst s) \<and> base V (kst s') = base V (kst s) \<and>
    disk V (kst s') = (if wb then (disk V (kst s))(off := mem V (kst s) ?a) else disk V (kst s))"
  have d: "wpE (extmem_migrate_downdisk K v off False wb u) ?Q any_error"
    if u: "same V (kst s) (kst u)" "settled V s u" "heap u = heap (?m s)" "lists u = lists s" for u
  proof -
    have w: "wpE (if wb then ioring_write_store K fd off ?a PAGE_SIZE (?m u) else Inr (?m u)) (?B (?m u)) any_error" for fd
    proof (cases wb)
      case True
      have "wpE (ioring_write_store K fd off ?a PAGE_SIZE (?m u)) (?B (?m u)) any_error"
        by (rule wpE_mono [OF write_store_data [OF K]]) (use True u r in \<open>auto simp: same_def settled_def wrote_def elim!: io_onlyE\<close>)
      then show ?thesis using True by simp
    qed (use u in \<open>auto simp: wp_simps same_def settled_def\<close>)
    have fin: "wpE (bindE (kcall (k_madvise_dontneed K (va (heap x v)) PAGE_SIZE) x) (\<lambda>s.
        let s = count f s; s = upd_page v (placed off False) s; s = count g s in
        bindE (lock Handler_lock s) (\<lambda>s. bindE (assertE (\<not> swapped_out (heap s v))) (\<lambda>_.
        let s = upd_page v (\<lambda>h. h\<lparr>swapped_out := True\<rparr>) s in
        bindE (assertE (migrating (heap s v))) (\<lambda>_. Inr (unlock Handler_lock s)))))) ?Q any_error" if "?B (?m u) x" for x f g
    proof -
      have h: "va (heap x v) = ?a" using that u(3) by simp
      show ?thesis using that u(3) data_madvise [OF K, of ?a "kst x"]
        unfolding h by (simp add: wp_simps Let_def settled_def) (cases "heap s v", simp)
    qed
    have p: "pt_to_pagesize (pt (heap (?m u) v)) = PAGE_SIZE" "va (heap (?m u) v) = ?a" using b u(3) by simp_all
    show ?thesis unfolding extmem_migrate_downdisk_def Let_def [where s = "?m u"] Let_def [where s = "pt_to_pagesize _"]
        Let_def [where s = "virtual_offset _"] p wpE_bindE [of "assertE _"] wpE_assertE
      by (intro conjI impI TrueI, subst wpE_bindE, rule wpE_mono [OF w]) (use fin in simp_all)
  qed
  have m: "same V (kst s) (snd (k_uffd_writeprotect K a n p (kst s)))" for a n p by (rule data_lawsD(5) [OF K])
  have "wpE (extmem_wp_page K v True (?m s)) (\<lambda>s'. wpE (extmem_migrate_downdisk K v off False wb s') ?Q any_error) any_error"
    unfolding extmem_wp_page_def Let_def wpE_bindE wpE_assertE wpE_kcall
    by (intro conjI impI d TrueI) (use m in \<open>auto simp: settled_def same_def\<close>)
  moreover have "wpE (extmem_migrate_downdisk K v off False wb (?m s)) ?Q any_error" by (rule d) (simp_all add: settled_def)
  ultimately show ?thesis by (simp add: lrudisk_migrate_down_def Let_def wp_simps)
qed

text \<open>The queue operations touch nothing but links and mutexes.\<close>

definition parts :: "'k ext \<Rightarrow> (page_ptr \<Rightarrow> user_page) \<times> 'k \<times> (tid \<Rightarrow> thread_local) \<times> tid \<times> u64" where
  "parts s = (heap s, kst s, tls s, cur s, page_cache s)"

lemma parts_upd [simp]:
  "parts (set_link p f s) = parts s" "parts (set_queue l g s) = parts s" "parts (unlock m s) = parts s"
  "parts (s\<lparr>held := h\<rparr>) = parts s" "parts (if b then s1 else s2) = (if b then parts s1 else parts s2)"
  "parts (case n of None \<Rightarrow> s1 | Some x \<Rightarrow> k x) = (case n of None \<Rightarrow> parts s1 | Some x \<Rightarrow> parts (k x))"
  by (simp_all add: parts_def set_link_def set_queue_def unlock_def split: option.split)

lemma case_same [simp]: "(case n of None \<Rightarrow> x | Some y \<Rightarrow> x) = x"
  by (cases n) simp_all

lemma enqueue_parts: "wpE (enqueue_fifo l p s) (\<lambda>s'. parts s' = parts s) any_error"
  by (simp add: enqueue_fifo_def wp_simps Let_def cong: option.case_cong)

lemma dequeue_parts: "wpE (dequeue_fifo l s) (\<lambda>r. fst r = last_p (queue (lists s) l) \<and> parts (snd r) = parts s) any_error"
  by (simp add: dequeue_fifo_def take_last_def wp_simps Let_def cong: option.case_cong)

lemma unlink_parts: "wpE (unlink_page l p s) (\<lambda>s'. parts s' = parts s) any_error"
  by (simp add: unlink_page_def wp_simps Let_def cong: option.case_cong)

lemma tryremove_parts: "wpE (page_list_tryremove_page ol p s) (\<lambda>r. parts (snd r) = parts s) any_error"
  by (cases ol) (simp_all add: page_list_tryremove_page_def wp_simps, intro impI wpE_mono [OF unlink_parts], simp_all)

lemma take_reserve_parts: "wpE (take_reserve v s) (\<lambda>r. reserve (heap s v) = Some (fst r) \<and> parts (snd r) = parts s) any_error"
  by (cases "reserve (heap s v)")
    (simp_all add: take_reserve_def detach_from_def wp_simps, intro impI wpE_mono [OF tryremove_parts], simp_all add: case_prod_beta wp_simps)

lemma release_parts: "wpE (release_victim v s) (\<lambda>s'. parts s' = parts (upd_page v (\<lambda>h. h\<lparr>migrating := False, swapped_out := True\<rparr>) s)) any_error"
  by (simp add: release_victim_def wp_simps)

text \<open>
  The outcome of an eviction for the victim \<open>v\<close> and the descriptor \<open>d\<close> of its slot. The slot is written unless
  it is the reserve of a clean page.
\<close>

definition swapped :: "('k, 'd) view \<Rightarrow> 'k ext \<Rightarrow> 'k ext \<Rightarrow> page_ptr \<Rightarrow> page_ptr \<Rightarrow> bool" where
  "swapped V s s' v d \<longleftrightarrow> settled V s s' \<and> (\<forall>r. r \<noteq> v \<longrightarrow> r \<noteq> d \<longrightarrow> heap s' r = heap s r) \<and>
     \<not> in_dram (heap s' v) \<and> virtual_offset (heap s' v) = virtual_offset (heap s d) \<and>
     va (heap s' v) = va (heap s v) \<and> va (heap s' d) = va (heap s d) \<and>
     (\<forall>c. c \<noteq> va (heap s v) \<longrightarrow> mem V (kst s') c = mem V (kst s) c \<and> base V (kst s') c = base V (kst s) c) \<and>
     (disk V (kst s') = (disk V (kst s))(virtual_offset (heap s d) := mem V (kst s) (va (heap s v))) \<or>
      disk V (kst s') = disk V (kst s) \<and> has_reserve (heap s v) \<and> mem V (kst s) (va (heap s v)) = base V (kst s) (va (heap s v)))"

text \<open>Where the slot comes from.\<close>

definition slot_of :: "'k ext \<Rightarrow> page_ptr \<Rightarrow> page_ptr \<Rightarrow> bool" where
  "slot_of s v d \<longleftrightarrow> (if has_reserve (heap s v) then reserve (heap s v) = Some d
     else last_p (queue (lists s) Disk_free_list) = Some d)"

text \<open>Between the protection of the victim and the end of the migration.\<close>

definition sent :: "('k, 'd) view \<Rightarrow> 'k ext \<Rightarrow> 'k ext \<Rightarrow> page_ptr \<Rightarrow> page_ptr \<Rightarrow> bool" where
  "sent V s u v d \<longleftrightarrow> swapped V s u v d \<and> heap u d = heap s d"

lemma send_data:
  assumes K: "data_laws K V" and r: "queued V (kst s) (Io_ring (cur s)) = []" and b: "pt (heap s v) = BASEP" and vd: "v \<noteq> d"
    and s1: "heap s1 = (heap s)(v := (heap s v)\<lparr>migrating := True\<rparr>)" "cur s1 = cur s" "page_cache s1 = page_cache s" "tls s1 = tls s" "same V (kst s) (kst s1)"
      "\<not> wb \<longrightarrow> has_reserve (heap s v) \<and> mem V (kst s) (va (heap s v)) = base V (kst s) (va (heap s v))"
    and s2: "parts s2 = parts s1"
  shows "wpE (lrudisk_migrate_down K v (virtual_offset (heap s2 d)) nw wb s2) (\<lambda>s'. sent V s s' v d) any_error"
proof -
  have e: "heap s2 = heap s1" "kst s2 = kst s1" "tls s2 = tls s1" "cur s2 = cur s1" "page_cache s2 = page_cache s1" using s2 by (simp_all add: parts_def)
  show ?thesis
  proof (rule wpE_mono [OF migrate_down_data [OF K]], goal_cases)
    case (3 s')
    then show ?case using e s1 vd by (auto simp: sent_def swapped_def settled_def same_def split: if_splits)
  qed (use e s1 r b in \<open>auto simp: same_def\<close>)
qed


text \<open>Filing the two descriptors does not move data.\<close>

definition refiled :: "'k ext \<Rightarrow> 'k ext \<Rightarrow> page_ptr \<Rightarrow> page_ptr \<Rightarrow> bool" where
  "refiled u u' v d \<longleftrightarrow> kst u' = kst u \<and> cur u' = cur u \<and> page_cache u' = page_cache u \<and> tls u' = tls u \<and> (\<forall>r. r \<noteq> v \<longrightarrow> r \<noteq> d \<longrightarrow> heap u' r = heap u r) \<and>
     in_dram (heap u' v) = in_dram (heap u v) \<and> virtual_offset (heap u' v) = virtual_offset (heap u v) \<and>
     va (heap u' v) = va (heap u v) \<and> va (heap u' d) = va (heap u d)"

lemma refiled_swapped: "swapped V s u v d \<Longrightarrow> refiled u u' v d \<Longrightarrow> swapped V s u' v d"
  by (simp add: swapped_def refiled_def settled_def)

lemma refiled_trans: "refiled u u' v d \<Longrightarrow> refiled u' u'' v d \<Longrightarrow> refiled u u'' v d"
  by (simp add: refiled_def)

lemma refiled_parts: "parts u' = parts u \<Longrightarrow> refiled u u' v d"
  by (simp add: refiled_def parts_def)

lemma refiled_steps:
  assumes "v \<noteq> d"
  shows "refiled u (take_frame d off u) v d" "refiled u (clear_reserves d v u) v d" "refiled u (upd_page v (\<lambda>h. h\<lparr>migrating := False\<rparr>) u) v d"
    "refiled u (upd_page v (\<lambda>h. h\<lparr>migrating := False, swapped_out := True\<rparr>) u) v d"
  using assms by (simp_all add: refiled_def take_frame_def clear_reserves_def)

lemma enqueue_refiled: "refiled u0 u v d \<Longrightarrow> wpE (enqueue_fifo l p u) (\<lambda>u'. refiled u0 u' v d) any_error"
  by (rule wpE_mono [OF enqueue_parts]) (auto intro: refiled_trans refiled_parts)

lemma release_refiled: "refiled u0 u v d \<Longrightarrow> v \<noteq> d \<Longrightarrow> wpE (release_victim v u) (\<lambda>u'. refiled u0 u' v d) any_error"
  by (rule wpE_mono [OF release_parts]) (auto intro: refiled_trans [OF refiled_trans [OF _ refiled_steps(4)] refiled_parts])

lemma file_data:
  assumes "v \<noteq> d"
  shows "refiled u u1 v d \<Longrightarrow> wpE (bindE (enqueue_fifo Dram_free_list d u1) (\<lambda>s. bindE (enqueue_fifo Disk_active_list v s) (release_victim v)))
       (\<lambda>u'. refiled u u' v d) any_error"
    "wpE (bindE (enqueue_fifo Disk_active_list v u) (\<lambda>s. bindE (enqueue_fifo Dram_free_list d (take_frame d off s)) (release_victim v)))
       (\<lambda>u'. refiled u u' v d) any_error"
  unfolding wpE_bindE
   apply (rule wpE_mono [OF enqueue_refiled], assumption, rule wpE_mono [OF enqueue_refiled], assumption, rule release_refiled)
      apply (use assms in simp_all)
  apply (rule wpE_mono [OF enqueue_refiled [OF refiled_parts]], rule refl, rule wpE_mono [OF enqueue_refiled],
     erule refiled_trans, rule refiled_steps(1), rule assms, rule release_refiled)
     apply (use assms in simp_all)
  done


text \<open>The two evictions have the same shape: protect, get a slot, migrate, file.\<close>

lemma send_slot:
  assumes K: "data_laws K V" and r: "queued V (kst s) (Io_ring (cur s)) = []" and b: "pt (heap s v) = BASEP"
    and d: "\<And>d. slot_of s v d \<Longrightarrow> v \<noteq> d"
    and res: "\<And>d wb s2 u. slot_of s v d \<Longrightarrow> v \<noteq> d \<Longrightarrow> swapped V s u v d \<Longrightarrow> wpE (f d wb s2 u) Q any_error"
    and fresh: "\<And>d wb s2 u. slot_of s v d \<Longrightarrow> v \<noteq> d \<Longrightarrow> swapped V s u v d \<Longrightarrow> wpE (g d wb s2 u) Q any_error"
  shows "wpE (bindE (protect_victim K v s) (\<lambda>(wb, s).
     if has_reserve (heap s v) then
       bindE (take_reserve v s) (\<lambda>(d, s2).
       bindE (lrudisk_migrate_down K v (virtual_offset (heap s2 d)) False wb s2) (f d wb s2))
     else
       bindE (dequeue_fifo Disk_free_list s) (\<lambda>(d, s2). case d of None \<Rightarrow> Inl No_disk_page | Some d \<Rightarrow>
         bindE (assertE (\<not> present (heap s2 d))) (\<lambda>_.
         bindE (lrudisk_migrate_down K v (virtual_offset (heap s2 d)) nw wb s2) (g d wb s2))))) Q any_error"
  unfolding wpE_bindE [of "protect_victim K v s"] wpE_case_prod
proof (rule wpE_mono [OF protect_data [OF K]], goal_cases)
  case (1 p)
  obtain wb s1 where p: "p = (wb, s1)" by (cases p)
  note s1 = 1 [unfolded p fst_conv snd_conv]
  have send: "wpE (lrudisk_migrate_down K v (virtual_offset (heap s2 d)) n wb s2) (\<lambda>u. wpE (h d wb s2 u) Q any_error) any_error"
    if "parts s2 = parts s1" "slot_of s v d" "\<And>u. swapped V s u v d \<Longrightarrow> wpE (h d wb s2 u) Q any_error" for d s2 n h
    by (rule wpE_mono [OF send_data [OF K r b d [OF that(2)]]]) (use that s1 in \<open>auto simp: sent_def\<close>)
  have sl: "has_reserve (heap s1 v) = has_reserve (heap s v)" "reserve (heap s1 v) = reserve (heap s v)" "lists s1 = lists s"
    using s1 by simp_all
  show ?case unfolding p fst_conv snd_conv wpE_if
  proof (intro conjI impI, goal_cases)
    case 1
    show ?case unfolding wpE_bindE [of "take_reserve v s1"] wpE_case_prod
      by (rule wpE_mono [OF take_reserve_parts])
         (use 1 sl d in \<open>auto intro!: send res simp: slot_of_def wp_simps\<close>)
  next
    case 2
    show ?case unfolding wpE_bindE [of "dequeue_fifo Disk_free_list s1"] wpE_case_prod
      by (rule wpE_mono [OF dequeue_parts])
         (use 2 sl d in \<open>auto intro!: send fresh simp: slot_of_def wp_simps split: option.split\<close>)
  qed
qed simp

lemma evict_victim_data:
  assumes K: "data_laws K V" and r: "queued V (kst s) (Io_ring (cur s)) = []" and b: "pt (heap s v) = BASEP"
    and d: "\<And>d. slot_of s v d \<Longrightarrow> v \<noteq> d"
  shows "wpE (evict_victim K v s) (\<lambda>s'. \<exists>d. slot_of s v d \<and> swapped V s s' v d) any_error"
  unfolding evict_victim_def Let_def
proof (rule send_slot [OF K r b d], assumption, goal_cases)
  case (1 d wb s2 u)
  have "wpE (bindE (enqueue_fifo Dram_free_list d (clear_reserves d v (take_frame d (virtual_offset (heap s2 v)) u)))
    (\<lambda>s. bindE (enqueue_fifo Disk_active_list v s) (release_victim v))) (\<lambda>u'. refiled u u' v d) any_error"
    using 1(2)
    by (intro file_data(1)) (auto intro: refiled_trans [OF refiled_steps(1) refiled_steps(2)])
  then show ?case by (rule wpE_mono) (use 1 in \<open>auto intro: refiled_swapped\<close>)
next
  case (2 d wb s2 u)
  have "wpE (bindE (enqueue_fifo Disk_active_list v u) (\<lambda>s.
    bindE (enqueue_fifo Dram_free_list d (take_frame d (virtual_offset (heap s2 v)) s)) (release_victim v))) (\<lambda>u'. refiled u u' v d) any_error"
    by (rule file_data(2) [OF 2(2)])
  then show ?case by (rule wpE_mono) (use 2 in \<open>auto intro: refiled_swapped\<close>)
qed


section \<open>Contents are kept\<close>

definition distinct_vas :: "'k ext \<Rightarrow> bool" where
  "distinct_vas s \<longleftrightarrow> (\<forall>p q. p < npool s \<longrightarrow> q < npool s \<longrightarrow> va (heap s p) = va (heap s q) \<longrightarrow> va (heap s p) \<noteq> 0 \<longrightarrow> p = q)"

text \<open>
  The page from which first faults copy is at \<open>zeros V\<close>, where there is neither a page of the application nor a buffer of the
  running thread; then it stays as it is.
\<close>

definition spare :: "('k, 'd) view \<Rightarrow> 'k ext \<Rightarrow> bool" where
  "spare V s \<longleftrightarrow> page_cache s = zeros V \<and> (\<forall>q < npool s. va (heap s q) \<noteq> zeros V) \<and> buffer_space (me s) \<noteq> zeros V \<and>
     (\<forall>i < 32. prefetch_buffer (me s) + of_nat i * PAGE_SIZE \<noteq> zeros V)"

definition zero_kept :: "('k, 'd) view \<Rightarrow> 'k ext \<Rightarrow> 'k ext \<Rightarrow> bool" where
  "zero_kept V s s' \<longleftrightarrow> spare V s' = spare V s \<and> (spare V s \<longrightarrow> mem V (kst s') (zeros V) = mem V (kst s) (zeros V))"

lemma zero_kept_refl [simp]: "zero_kept V s s"
  by (simp add: zero_kept_def)

lemma zero_kept_trans [trans]: "zero_kept V s s' \<Longrightarrow> zero_kept V s' s'' \<Longrightarrow> zero_kept V s s''"
  by (simp add: zero_kept_def)

lemma zero_keptI:
  assumes "cur s' = cur s" "same_buffers s s'" "npool s' = npool s" "\<And>p. va (heap s' p) = va (heap s p)"
    "spare V s \<Longrightarrow> mem V (kst s') (zeros V) = mem V (kst s) (zeros V)"
  shows "zero_kept V s s'"
  using assms by (simp add: zero_kept_def spare_def)

definition keeps :: "('k, 'd) view \<Rightarrow> 'k ext \<Rightarrow> 'k ext \<Rightarrow> bool" where
  "keeps V s s' \<longleftrightarrow> settled V s s' \<and> npool s' = npool s \<and> (\<forall>p. va (heap s' p) = va (heap s p)) \<and>
     (synced V s \<longrightarrow> synced V s' \<and> kept V s s') \<and> zero_kept V s s'"

text \<open>The same without what concerns rings and buffers.\<close>

definition intact :: "('k, 'd) view \<Rightarrow> 'k ext \<Rightarrow> 'k ext \<Rightarrow> bool" where
  "intact V s s' \<longleftrightarrow> npool s' = npool s \<and> (\<forall>p. va (heap s' p) = va (heap s p)) \<and>
     (synced V s \<longrightarrow> synced V s' \<and> kept V s s') \<and> zero_kept V s s'"

lemma keeps_intact: "keeps V s s' \<longleftrightarrow> settled V s s' \<and> intact V s s'"
  by (simp add: keeps_def intact_def)

lemma intact_trans [trans]: "intact V s s' \<Longrightarrow> intact V s' s'' \<Longrightarrow> intact V s s''"
  by (auto simp: intact_def kept_def intro: zero_kept_trans)

lemma keeps_refl [simp]: "keeps V s s"
  by (simp add: keeps_def kept_def)

lemma keeps_trans [trans]: "keeps V s s' \<Longrightarrow> keeps V s' s'' \<Longrightarrow> keeps V s s''"
  by (auto simp: keeps_def kept_def intro: settled_trans zero_kept_trans)

text \<open>Steps that do not move data: scans, queue operations, counters.\<close>

definition whereabouts :: "user_page \<Rightarrow> bool \<times> u64 \<times> u64 \<times> bool \<times> page_ptr option" where
  "whereabouts h = (in_dram h, virtual_offset h, va h, has_reserve h, reserve h)"

definition quiet :: "('k, 'd) view \<Rightarrow> 'k ext \<Rightarrow> 'k ext \<Rightarrow> bool" where
  "quiet V s s' \<longleftrightarrow> same V (kst s) (kst s') \<and> settled V s s' \<and> (\<forall>p. whereabouts (heap s' p) = whereabouts (heap s p))"

lemma quiet_refl [simp]: "quiet V s s"
  by (simp add: quiet_def)

lemma quiet_trans [trans]: "quiet V s s' \<Longrightarrow> quiet V s' s'' \<Longrightarrow> quiet V s s''"
  by (auto simp: quiet_def intro: same_trans settled_trans)

lemma quiet_keeps:
  assumes "quiet V s s'" "npool s' = npool s"
  shows "keeps V s s'"
proof -
  have h: "in_dram (heap s' p) = in_dram (heap s p)" "virtual_offset (heap s' p) = virtual_offset (heap s p)"
    "va (heap s' p) = va (heap s p)" "has_reserve (heap s' p) = has_reserve (heap s p)" "reserve (heap s' p) = reserve (heap s p)" for p
    using assms(1) by (simp_all add: quiet_def whereabouts_def)
  moreover have "zero_kept V s s'" by (rule zero_keptI) (use assms h in \<open>simp_all add: quiet_def settled_def same_def\<close>)
  ultimately show ?thesis using assms by (simp add: keeps_def kept_def synced_def content_def quiet_def same_def)
qed

lemma index_distinct:
  assumes "index_inv s"
  shows "distinct_vas s"
  using assms index.tracked_unique [of s] by (auto simp: distinct_vas_def index_inv_def)

lemma lists_ok_last: "lists_ok fs \<Longrightarrow> last_p (queue fs l) = last_opt (seq fs l)"
  by (simp add: lists_ok_def lists_rep_def fifo_rep_def)

text \<open>The slot of a victim: on disk, without address, linked to no other page.\<close>

lemma slot_place:
  assumes inv: "pool_inv (insert v F) s" and v: "resident_page s v" and d: "slot_of s v d"
  shows "d < npool s" "v \<noteq> d" "\<not> in_dram (heap s d)" "va (heap s d) = 0"
    "backed s d p \<Longrightarrow> p = v"
proof -
  have "\<exists>l. page_list s d = Some l \<and> (l = Disk_free_list \<or> l = Disk_reserve_list \<and> reserve (heap s d) = Some v)"
  proof (cases "has_reserve (heap s v)")
    case True
    then show ?thesis using v d by (auto simp: slot_of_def resident_page_def backed_def Let_def)
  next
    case False
    have ok: "lists_ok (lists s)" using pool_invD(1) [OF inv] by (simp add: queues_free_def)
    from False d have "last_p (queue (lists s) Disk_free_list) = Some d" by (simp add: slot_of_def)
    then have "d \<in> set (seq (lists s) Disk_free_list)" using lists_ok_last [OF ok] by (auto simp: last_opt_def split: if_splits)
    then have "page_list s d = Some Disk_free_list" using lists_ok_mem [OF ok] by simp
    then show ?thesis by simp
  qed
  then obtain l where l: "page_list s d = Some l" "l = Disk_free_list \<or> l = Disk_reserve_list \<and> reserve (heap s d) = Some v" by blast
  note f = pool_inv_listed [OF inv l(1)]
  show "d < npool s" "v \<noteq> d" using f by auto
  show "\<not> in_dram (heap s d)" "va (heap s d) = 0" using f(3) l(2) by (auto simp: fits_def Let_def)
  show "backed s d p \<Longrightarrow> p = v" using l by (auto simp: backed_def)
qed

lemma places_differ:
  assumes "pool_inv F s" "p < npool s" "q < npool s" "p \<noteq> q" "in_dram (heap s p) = in_dram (heap s q)"
  shows "virtual_offset (heap s p) \<noteq> virtual_offset (heap s q)"
  using pool_invD(9) [OF assms(1)] assms(2-5) by (auto simp: bij_betw_def inj_on_def frame_def)

lemma swapped_keeps:
  assumes inv: "pool_inv (insert v F) s" and dv: "distinct_vas s" and v: "v \<notin> F" "resident_page s v" and d: "slot_of s v d"
    and F: "\<forall>p \<in> F. in_dram (heap s p) \<longrightarrow> va (heap s p) = 0" and sw: "swapped V s s' v d" and n: "npool s' = npool s"
  shows "keeps V s s'"
proof -
  note pl = slot_place [OF inv v(2) d]
  have vn: "v < npool s" using pool_invD(6) [OF inv] by simp
  have va: "va (heap s' p) = va (heap s p)" for p using sw by (cases "p = v \<or> p = d") (auto simp: swapped_def)
  have hp: "heap s' p = heap s p" if "p \<noteq> v" "p \<noteq> d" for p using sw that by (simp add: swapped_def)
  have mem: "mem V (kst s') (va (heap s p)) = mem V (kst s) (va (heap s p))" "base V (kst s') (va (heap s p)) = base V (kst s) (va (heap s p))"
    if "p < npool s" "p \<noteq> v" "va (heap s p) \<noteq> 0" for p
    using dv [unfolded distinct_vas_def, rule_format, of p v] that vn sw [unfolded swapped_def] by metis+
  have disk: "disk V (kst s') (virtual_offset (heap s p)) = disk V (kst s) (virtual_offset (heap s p))"
    if "p < npool s" "p \<noteq> d" "\<not> in_dram (heap s p)" for p
    using places_differ [OF inv that(1) pl(1) that(2)] sw that(3) pl(3) by (auto simp: swapped_def)
  have own: "content V s' v = content V s v" if "synced V s"
  proof -
    have vr: "in_dram (heap s v)" "va (heap s v) \<noteq> 0" using v(2) by (simp_all add: resident_page_def Let_def)
    have "disk V (kst s) (virtual_offset (heap s d)) = base V (kst s) (va (heap s v))" if "has_reserve (heap s v)"
      using \<open>synced V s\<close> that d vn vr unfolding synced_def slot_of_def by simp
    then show ?thesis using sw vr by (auto simp: content_def swapped_def)
  qed
  have "kept V s s'" if "synced V s"
    unfolding kept_def
  proof (intro allI impI)
    fix p assume p: "p < npool s" "va (heap s p) \<noteq> 0"
    show "content V s' p = content V s p"
    proof (cases "p = v")
      case False
      then have "p \<noteq> d" using p(2) pl(4) by auto
      with False show ?thesis using hp mem p disk by (simp add: content_def)
    qed (use own that in simp)
  qed
  moreover have "synced V s'" if "synced V s"
    unfolding synced_def
  proof (intro allI impI)
    fix p e
    assume p: "p < npool s'" "in_dram (heap s' p)" "va (heap s' p) \<noteq> 0" "has_reserve (heap s' p)" "reserve (heap s' p) = Some e"
    have pv: "p \<noteq> v" "p \<noteq> d" using p sw pl(4) by (auto simp: swapped_def)
    note h = hp [OF pv]
    have pF: "p \<notin> insert v F" using F p pv h by auto
    then obtain l where "page_list s p = Some l" "fits s l p" using pool_invD(10) [OF inv] p(1) n by (auto simp: filed_def)
    then have b: "backed s e p" using p h by (cases l) (auto simp: fits_def resident_page_def Let_def)
    then have e: "e \<noteq> d" "e \<noteq> v" "e < npool s" "\<not> in_dram (heap s e)"
      using pl(5) pv pool_inv_listed [OF inv, of e Disk_reserve_list] by (auto simp: backed_def fits_def Let_def)
    show "disk V (kst s') (virtual_offset (heap s' e)) = base V (kst s') (va (heap s' p))"
      using that p n h hp [OF e(2,1)] disk [OF e(3,1,4)] mem(2) [of p] pv(1) by (simp add: synced_def)
  qed
  moreover have "zero_kept V s s'"
  proof (rule zero_keptI)
    show "mem V (kst s') (zeros V) = mem V (kst s) (zeros V)" if "spare V s"
    proof -
      have "zeros V \<noteq> va (heap s v)" using that vn by (auto simp: spare_def)
      then show ?thesis using sw by (simp add: swapped_def)
    qed
  qed (use sw n va in \<open>simp_all add: swapped_def settled_def\<close>)
  ultimately show ?thesis using sw n va by (simp add: keeps_def swapped_def)
qed


text \<open>A state in which no resident page is in flight, and the eviction ring of the running thread is idle.\<close>

definition calm :: "('k, 'd) view \<Rightarrow> page_ptr set \<Rightarrow> 'k ext \<Rightarrow> bool" where
  "calm V F s \<longleftrightarrow> distinct_vas s \<and> queued V (kst s) (Io_ring (cur s)) = [] \<and> (\<forall>p \<in> F. in_dram (heap s p) \<longrightarrow> va (heap s p) = 0)"

lemma calm_keeps: "calm V F s \<Longrightarrow> keeps V s s' \<Longrightarrow> pres F s s' \<Longrightarrow> calm V F s'"
  by (auto simp: calm_def keeps_def settled_def distinct_vas_def presD)

lemma calm_lists [simp]: "calm V F (s\<lparr>lists := fs\<rparr>) = calm V F s"
  by (simp add: calm_def distinct_vas_def)

lemma keeps_lists [simp]: "keeps V (s\<lparr>lists := fs\<rparr>) s' = keeps V s s'" "keeps V s (s'\<lparr>lists := fs\<rparr>) = keeps V s s'"
  by (simp_all add: keeps_def kept_def synced_def settled_def content_def zero_kept_def spare_def)

lemma evict_victim_keeps:
  assumes K: "data_laws K V" and inv: "pool_inv (insert v F) s" and v: "v \<notin> F" "resident_page s v" and c: "calm V F s"
  shows "wpE (evict_victim K v s) (\<lambda>s'. pool_inv F s' \<and> pres F s s' \<and> keeps V s s') any_error"
proof -
  have b: "pt (heap s v) = BASEP" using pool_invD(4,6) [OF inv] by simp
  have q: "queued V (kst s) (Io_ring (cur s)) = []" using c by (simp add: calm_def)
  show ?thesis
    by (rule wpE_mono [OF wpE_conj [OF evict_victim_wp [where E = any_error, OF inv v] evict_victim_data [OF K q b]]])
       (use slot_place(2) [OF inv v(2)] c v inv in \<open>auto intro!: swapped_keeps simp: calm_def dest: presD(2)\<close>)
qed

lemma evictionworker_keeps:
  assumes K: "data_laws K V" and inv: "pool_inv F s" and c: "calm V F s"
  shows "wpE (lrudisk_evictionworker K s) (\<lambda>s'. keeps V s s') any_error"
proof -
  let ?s = "upd_me (\<lambda>t. t\<lparr>internal_call := True\<rparr>) s"
  have k: "keeps V s ?s" by (rule quiet_keeps) (simp_all add: quiet_def settled_def upd_me_def npool_def)
  have i: "pool_inv F ?s" "calm V F ?s" using inv c by (simp_all add: calm_def upd_me_def distinct_vas_def)
  show ?thesis unfolding lrudisk_evictionworker_def wpE_Let wpE_bindE wpE_case_prod
  proof (rule pool_inv_deq_wp [OF i(1)], goal_cases)
    case (3 fs xs v)
    have "wpE (evict_victim K v (?s\<lparr>lists := fs\<rparr>)) (\<lambda>s'. pool_inv F s' \<and> pres F (?s\<lparr>lists := fs\<rparr>) s' \<and> keeps V (?s\<lparr>lists := fs\<rparr>) s') any_error"
      by (rule evict_victim_keeps [OF K]) (use 3 i in \<open>auto simp: fits_resident\<close>)
    then show ?case by (auto elim!: wpE_mono intro: keeps_trans [OF k])
  qed (use k in \<open>auto simp: wp_simps\<close>)
qed

end
