(* ===== verification/Contents_Swapin.thy ===== *)
theory Contents_Swapin
  imports Contents
begin

text \<open>
  The contents of pages through an allocation and a swap-in.
\<close>

section \<open>Scans\<close>

lemma quiet_parts: "parts u = parts s \<Longrightarrow> quiet V s u"
  by (simp add: quiet_def parts_def settled_def)

lemma quiet_upd [simp]:
  "quiet V s (upd_page p (\<lambda>h. h\<lparr>naccesses := f h\<rparr>) u) = quiet V s u" "quiet V s (u\<lparr>shrinkage_running := b\<rparr>) = quiet V s u"
  "quiet V s (u\<lparr>kswapd_running := b\<rparr>) = quiet V s u" "quiet V s (u\<lparr>kswapd_at := a\<rparr>) = quiet V s u"
  "quiet V s (unlock m u) = quiet V s u" "quiet V s (u\<lparr>held := hl\<rparr>) = quiet V s u"
  by (auto simp: quiet_def settled_def whereabouts_def)

lemma enqueue_quiet: "quiet V s u \<Longrightarrow> wpE (enqueue_fifo l p u) (\<lambda>u'. quiet V s u') any_error"
  by (rule wpE_mono [OF enqueue_parts]) (auto intro: quiet_trans quiet_parts)

lemma dequeue_quiet: "quiet V s u \<Longrightarrow> wpE (dequeue_fifo l u) (\<lambda>r. quiet V s (snd r)) any_error"
  by (rule wpE_mono [OF dequeue_parts]) (auto intro: quiet_trans quiet_parts)

lemma quiet_kst: "quiet V s u \<Longrightarrow> same V (kst u) k \<Longrightarrow> quiet V s (u\<lparr>kst := k\<rparr>)"
  by (auto simp: quiet_def settled_def same_def)

lemma observe_quiet:
  assumes K: "data_laws K V" and u: "quiet V s u"
  shows "wpE (pt_get_bits K p u) (\<lambda>r. quiet V s (snd r)) any_error" "wpE (pt_clear_accessed_flag K p u) (\<lambda>u'. quiet V s u') any_error"
  using data_lawsD(6,7) [OF K] quiet_kst [OF u]
  by (auto simp: pt_get_bits_def pt_clear_accessed_flag_def wp_simps Let_def kdo_def split: option.splits prod.splits)

lemma shrink_active_loop_quiet:
  "quiet V s u \<Longrightarrow> wpE (shrink_active_loop nr ret tries u) (\<lambda>r. quiet V s (snd r)) any_error"
proof (induction "nr - ret" arbitrary: ret tries u rule: less_induct)
  case less
  show ?case
  proof (cases "ret < nr \<and> 0 < entries u Active_list \<and> tries < nr * 100")
    case True
    have I: "wpE (shrink_active_loop nr (Suc ret) (Suc tries) u') (\<lambda>r. quiet V s (snd r)) any_error" if "quiet V s u'" for u'
      by (rule less.hyps [OF _ that]) (use True in auto)
    show ?thesis unfolding shrink_active_loop.simps [of nr ret tries u] if_P [OF True] wpE_bindE wpE_case_prod wpE_case_option wpE_Let
      by (rule wpE_mono [OF dequeue_quiet [OF less.prems]]) (auto simp: wp_simps intro!: wpE_mono [OF enqueue_quiet] I)
  qed (use less.prems in \<open>auto simp: shrink_active_loop.simps [of nr ret tries u] wp_simps\<close>)
qed

lemma shrink_active_quiet: "quiet V s u \<Longrightarrow> wpE (shrink_active_list n u) (\<lambda>r. quiet V s (snd r)) any_error"
  by (auto simp: shrink_active_list_def wp_simps Let_def intro!: wpE_mono [OF shrink_active_loop_quiet])

lemma scan_page_quiet:
  assumes K: "data_laws K V" and u: "quiet V s u"
  shows "wpE (scan_inactive_page K p u) (\<lambda>r. quiet V s (snd r)) any_error"
  unfolding scan_inactive_page_def wpE_bindE wpE_case_prod wpE_if wpE_Let
  by (rule wpE_mono [OF observe_quiet(1) [OF K u]], intro conjI impI, rule wpE_mono [OF observe_quiet(2) [OF K]])
     (auto simp: wp_simps intro!: wpE_mono [OF enqueue_quiet])

lemma shrink_inactive_loop_quiet:
  assumes K: "data_laws K V"
  shows "quiet V s u \<Longrightarrow> wpE (shrink_inactive_loop K nr ret tries u) (\<lambda>r. quiet V s (snd r)) any_error"
proof (induction "nr * 100 - tries" arbitrary: ret tries u rule: less_induct)
  case less
  show ?case
  proof (cases "ret < nr \<and> 0 < entries u Inactive_list \<and> tries < nr * 100")
    case True
    have I: "wpE (shrink_inactive_loop K nr ret' (Suc tries) u') (\<lambda>r. quiet V s (snd r)) any_error" if "quiet V s u'" for ret' u'
      by (rule less.hyps [OF _ that]) (use True in auto)
    show ?thesis unfolding shrink_inactive_loop.simps [of K nr ret tries u] if_P [OF True] wpE_bindE wpE_case_prod wpE_case_option wpE_Let
      by (rule wpE_mono [OF dequeue_quiet [OF less.prems]]) (auto simp: wp_simps intro!: wpE_mono [OF scan_page_quiet [OF K]] I)
  qed (use less.prems in \<open>auto simp: shrink_inactive_loop.simps [of K nr ret tries u] wp_simps\<close>)
qed

lemma shrink_inactive_quiet: "data_laws K V \<Longrightarrow> quiet V s u \<Longrightarrow> wpE (shrink_inactive_list K n u) (\<lambda>r. quiet V s (snd r)) any_error"
  by (auto simp: shrink_inactive_list_def wp_simps Let_def intro!: wpE_mono [OF shrink_inactive_loop_quiet])

lemma direct_allocate_loop_quiet:
  assumes K: "data_laws K V"
  shows "quiet V s u \<Longrightarrow> wpE (direct_allocate_loop K nr ta ti sa si rc u) (\<lambda>r. quiet V s (snd r)) any_error"
proof (induction "nat (ti - si)" arbitrary: sa si rc u rule: less_induct)
  case less
  show ?case
  proof (cases "si < ti \<and> rc < nr")
    case True
    have I: "wpE (direct_allocate_loop K nr ta ti sa' (si + int SWAP_CLUSTER_COUNT) rc' u') (\<lambda>r. quiet V s (snd r)) any_error"
      if "quiet V s u'" for sa' rc' u'
      by (rule less.hyps [OF _ that]) (use True in \<open>auto simp: SWAP_CLUSTER_COUNT_def\<close>)
    show ?thesis unfolding direct_allocate_loop.simps [of K nr ta ti sa si rc u] if_P [OF True] wpE_bindE wpE_case_prod wpE_Let
      by (rule wpE_mono [OF shrink_inactive_quiet [OF K less.prems]]) (auto simp: wp_simps intro!: wpE_mono [OF shrink_active_quiet] I)
  qed (use less.prems in \<open>auto simp: direct_allocate_loop.simps [of K nr ta ti sa si rc u] wp_simps\<close>)
qed

lemma direct_allocate_quiet:
  "data_laws K V \<Longrightarrow> quiet V s u \<Longrightarrow> wpE (direct_allocate_page_asynch K nr priority u) (\<lambda>r. quiet V s (snd r)) any_error"
  unfolding direct_allocate_page_asynch_def Let_def by (rule direct_allocate_loop_quiet)

lemma wake_quiet: "wpE (wake_kswapd s) (quiet V s) any_error"
  by (simp add: wake_kswapd_def wp_simps Let_def)


section \<open>Allocation\<close>

lemma evict_for_frame_data:
  assumes K: "data_laws K V" and r: "queued V (kst s) (Io_ring (cur s)) = []" and b: "pt (heap s v) = BASEP"
    and d: "\<And>d. slot_of s v d \<Longrightarrow> v \<noteq> d"
  shows "wpE (evict_for_frame K v s) (\<lambda>r. \<exists>d. slot_of s v d \<and> swapped V s (snd r) v d) any_error"
  unfolding evict_for_frame_def Let_def
proof (rule send_slot [OF K r b d], assumption, goal_cases)
  case (1 d wb s2 u)
  have "refiled u (clear_reserves d v (take_frame d (virtual_offset (heap s2 v)) u)) v d"
    using 1(2) by (auto intro: refiled_trans [OF refiled_steps(1) refiled_steps(2)])
  from enqueue_refiled [OF this] have "wpE (enqueue_fifo Disk_active_list v (clear_reserves d v (take_frame d (virtual_offset (heap s2 v)) u)))
    (\<lambda>u'. wpE (release_victim v u') (\<lambda>u''. refiled u u'' v d) any_error) any_error"
    by (rule wpE_mono) (simp_all add: release_refiled 1(2))
  then show ?case using 1 by (auto simp: wp_simps elim!: wpE_mono intro: refiled_swapped)
next
  case (2 d wb s2 u)
  have "wpE (enqueue_fifo Disk_active_list v u) (\<lambda>u'. refiled u (upd_page v (\<lambda>h. h\<lparr>migrating := False\<rparr>) (take_frame d off u')) v d) any_error" for off
    by (rule wpE_mono [OF enqueue_parts]) (use 2(2) in \<open>auto intro: refiled_trans [OF refiled_trans [OF refiled_parts refiled_steps(1)] refiled_steps(3)]\<close>)
  note w = this [of "virtual_offset (heap s2 v)"]
  show ?case using 2 by (auto simp: wp_simps intro!: wpE_mono [OF w] intro: refiled_swapped)
qed

lemma evict_for_frame_keeps:
  assumes K: "data_laws K V" and inv: "pool_inv (insert v F) s" and v: "v \<notin> F" "resident_page s v" and c: "calm V F s"
  shows "wpE (evict_for_frame K v s) (\<lambda>r. free_frame F (snd r) (fst r) \<and> pres F s (snd r) \<and> keeps V s (snd r)) any_error"
proof -
  have b: "pt (heap s v) = BASEP" using pool_invD(4,6) [OF inv] by simp
  have q: "queued V (kst s) (Io_ring (cur s)) = []" using c by (simp add: calm_def)
  show ?thesis
    by (rule wpE_mono [OF wpE_conj [OF evict_for_frame_wp [where E = any_error, OF inv v] evict_for_frame_data [OF K q b]]])
       (use slot_place(2) [OF inv v(2)] c v inv in \<open>auto intro!: swapped_keeps simp: calm_def dest: presD(2)\<close>)
qed

text \<open>What an allocation gives: a free frame, and the contents of all pages as they were.\<close>

abbreviation gives_frame :: "('k, 'd) view \<Rightarrow> page_ptr set \<Rightarrow> 'k ext \<Rightarrow> page_ptr \<times> 'k ext \<Rightarrow> bool" where
  "gives_frame V F s r \<equiv> free_frame F (snd r) (fst r) \<and> pres F s (snd r) \<and> keeps V s (snd r)"

lemma gives_frame_then:
  assumes "wpE r (gives_frame V F s1) any_error" "pres F s s1" "keeps V s s1"
  shows "wpE r (gives_frame V F s) any_error"
  using assms(1) by (rule wpE_mono) (use assms(2,3) in \<open>auto intro: pres_trans keeps_trans\<close>)

lemma evict_queued_keeps:
  assumes K: "data_laws K V" and s: "pool_inv F s" "calm V F s" and E: "wpE (f s) (gives_frame V F s) any_error"
  shows "wpE (dequeue_fifo Eviction_list s) (\<lambda>r. wpE (case fst r of Some page \<Rightarrow> evict_for_frame K page (snd r) | None \<Rightarrow> f (snd r))
    (gives_frame V F s) any_error) any_error"
proof (rule pool_inv_deq_wp [OF s(1)], goal_cases)
  case (3 fs xs x)
  have "wpE (evict_for_frame K x (s\<lparr>lists := fs\<rparr>)) (gives_frame V F (s\<lparr>lists := fs\<rparr>)) any_error"
    by (rule evict_for_frame_keeps [OF K]) (use 3 s in \<open>auto simp: fits_resident\<close>)
  then show ?case using gives_frame_then [where V = V and F = F and ?s1.0 = "s\<lparr>lists := fs\<rparr>" and s = s] by simp
qed (use E in auto)

text \<open>The allocation of a frame, for any policy whose reclaim moves no data.\<close>

locale data_reclaimer = reclaimer reclaim for reclaim :: "nat \<Rightarrow> 'k ext \<Rightarrow> c_error + int \<times> 'k ext" +
  fixes K :: "'k kernel" and V :: "('k, 'd) view"
  assumes reclaim_data: "data_laws K V \<Longrightarrow> wpE (reclaim priority s) (\<lambda>r. quiet V s (snd r)) any_error"
begin

lemma fetch_turn_keeps:
  assumes K: "data_laws K V" and s: "pool_inv F s" "calm V F s"
    and rec: "\<And>s1. pool_inv F s1 \<Longrightarrow> calm V F s1 \<Longrightarrow> wpE (again s1) (gives_frame V F s1) any_error"
  shows "wpE (bindE (dequeue_fifo Dram_free_list s) (\<lambda>(page, s).
     case page of
       Some page \<Rightarrow> Inr (page, s)
     | None \<Rightarrow>
         if \<not> shrinkage_running s \<and> resident s > dramsize s div (PAGE_SIZE * 2) then
           bindE (reclaim priority s) (\<lambda>(_, s).
           bindE (dequeue_fifo Eviction_list s) (\<lambda>(page, s).
           case page of
             Some page \<Rightarrow> evict_for_frame K page s
           | None \<Rightarrow> again s))
         else
           bindE (dequeue_fifo Eviction_list s) (\<lambda>(page, s).
           case page of
             Some page \<Rightarrow> evict_for_frame K page s
           | None \<Rightarrow> Inl Spin))) (gives_frame V F s) any_error"
proof -
  have r: "wpE (reclaim priority s) (\<lambda>r. wpE (dequeue_fifo Eviction_list (snd r)) (\<lambda>r. wpE (case fst r of
       Some page \<Rightarrow> evict_for_frame K page (snd r) | None \<Rightarrow> again (snd r)) (gives_frame V F s) any_error) any_error) any_error"
  proof (rule wpE_mono [OF wpE_conj [OF reclaim_law [OF s(1)] reclaim_data [OF K]]], goal_cases)
    case (1 r)
    then have s1: "pool_inv F (snd r)" "pres F s (snd r)" "quiet V s (snd r)" by auto
    have k: "keeps V s (snd r)" by (rule quiet_keeps [OF s1(3) presD(2) [OF s1(2)]])
    have c: "calm V F (snd r)" by (rule calm_keeps [OF s(2) k s1(2)])
    show ?case
      by (rule wpE_mono [OF evict_queued_keeps [where f = again, OF K s1(1) c rec [OF s1(1) c]]])
        (use gives_frame_then s1(2) k in blast)+
  qed simp
  show ?thesis unfolding wpE_bindE wpE_case_prod
  proof (rule pool_inv_deq_wp [OF s(1)], goal_cases)
    case 2
    show ?case using r evict_queued_keeps [OF K s, of "\<lambda>_. Inl Spin"] by (simp add: wp_simps case_prod_beta)
  next
    case (3 fs xs x)
    then show ?case by (simp add: wp_simps free_frame_def fits_def Let_def)
  qed simp
qed

end

interpretation lru_data_reclaim: data_reclaimer "\<lambda>priority. direct_allocate_page_asynch K nr priority" K V for K nr V
  by unfold_locales (rule direct_allocate_quiet [OF _ quiet_refl])

lemma fetch_free_loop_keeps:
  assumes K: "data_laws K V"
  shows "pool_inv F s \<Longrightarrow> calm V F s \<Longrightarrow> wpE (fetch_free_loop K priority s) (gives_frame V F s) any_error"
proof (induction priority arbitrary: s)
  case (Suc priority)
  show ?case unfolding fetch_free_loop.simps by (rule lru_data_reclaim.fetch_turn_keeps [OF K Suc.prems]) (rule Suc.IH)
qed (simp add: wp_simps)

lemma wake_then:
  assumes s: "pool_inv F s" "calm V F s" and f: "\<And>u. pool_inv F u \<Longrightarrow> calm V F u \<Longrightarrow> wpE (f u) (gives_frame V F u) any_error"
  shows "wpE (bindE (wake_kswapd s) f) (gives_frame V F s) any_error"
  unfolding wpE_bindE
proof (rule wpE_mono [OF wpE_conj [OF wake_kswapd_wp [where E = any_error, OF s(1)] wake_quiet [of s V]]], goal_cases)
  case (1 u)
  then have u: "pool_inv F u" "pres F s u" "keeps V s u" using quiet_keeps [of V s u] presD(2) [of F s u] by auto
  show ?case by (rule gives_frame_then [OF f [OF u(1) calm_keeps [OF s(2) u(3,2)]] u(2,3)])
qed simp

lemma fetch_free_keeps:
  assumes K: "data_laws K V" and s: "pool_inv F s" "calm V F s"
  shows "wpE (fetch_free_asynch K s) (gives_frame V F s) any_error"
  unfolding fetch_free_asynch_def by (rule wake_then [OF s]) (rule fetch_free_loop_keeps [OF K])


section \<open>Swap-in\<close>

lemma async_start_data:
  assumes K: "data_laws K V" and b: "buffer_allocated (me s)" "pt (heap s p) = BASEP"
  shows "wpE (core_migrate_up_async_start K p s) (\<lambda>s'. io_only s s' \<and> same_buffers s s' \<and>
     reading V (Io_read_ring (cur s)) (buffer_space (me s)) (virtual_offset (heap s p)) (kst s) (kst s')) any_error"
  using b by (auto simp: core_migrate_up_async_start_def alloc_buffer_def wp_simps Let_def intro!: wpE_mono [OF start_read_data [OF K]])

text \<open>The kernel after a page was read into the buffer \<open>b\<close> and copied to its address \<open>a\<close>.\<close>

definition copied_in :: "('k, 'd) view \<Rightarrow> u64 \<Rightarrow> u64 \<Rightarrow> u64 \<Rightarrow> ring_id \<Rightarrow> 'k \<Rightarrow> 'k \<Rightarrow> bool" where
  "copied_in V b a off r k k' \<longleftrightarrow> mem V k' = (mem V k)(b := disk V k off, a := disk V k off) \<and>
     base V k' = (base V k)(a := disk V k off) \<and> disk V k' = disk V k \<and> queued V k' = (queued V k)(r := [])"

lemma async_finish_data:
  assumes K: "data_laws K V" and r: "queued V (kst s) (Io_read_ring (cur s)) = [Read_into (buffer_space (me s)) off]"
    and b: "pt (heap s p) = BASEP"
  shows "wpE (core_migrate_up_async_finish K p dram s) (\<lambda>s'. heap s' = (heap s)(p := placed dram True (heap s p)) \<and>
     cur s' = cur s \<and> page_cache s' = page_cache s \<and> tls s' = tls s \<and> copied_in V (buffer_space (me s)) (va (heap s p)) off (Io_read_ring (cur s)) (kst s) (kst s')) any_error"
proof -
  have t: "wpE (ioring_finish_read K fd o' b' sz s) (\<lambda>s'. tls s' = tls s \<and> cur s' = cur s \<and> page_cache s' = page_cache s) any_error" for fd o' b' sz
    by (simp add: ioring_finish_read_def wp_simps kdo_def)
  have f: "wpE (ioring_finish_read K fd o' b' sz s) (\<lambda>s1. wpE (kcall (k_uffd_copy K (va (heap s1 p)) (buffer_space (me s1)) PAGE_SIZE) s1)
     (\<lambda>s2. heap s2 = heap s \<and> cur s2 = cur s \<and> page_cache s2 = page_cache s \<and> tls s2 = tls s \<and>
        copied_in V (buffer_space (me s)) (va (heap s p)) off (Io_read_ring (cur s)) (kst s) (kst s2)) any_error) any_error" for fd o' b' sz
    by (rule wpE_mono [OF wpE_conj [OF finish_read_data [OF K r] t]])
       (auto simp: wp_simps copied_in_def data_copy [OF K])
  show ?thesis using b
    by (auto simp: core_migrate_up_async_finish_def wp_simps Let_def intro!: wpE_mono [OF f [unfolded wpE_kcall]])
qed

text \<open>The outcome of a swap-in of \<open>p\<close> with the frame of \<open>fp\<close>.\<close>

definition brought :: "('k, 'd) view \<Rightarrow> u64 \<Rightarrow> 'k ext \<Rightarrow> 'k ext \<Rightarrow> page_ptr \<Rightarrow> page_ptr \<Rightarrow> bool" where
  "brought V b s s' p fp \<longleftrightarrow> cur s' = cur s \<and> same_buffers s s' \<and>
     copied_in V b (va (heap s p)) (virtual_offset (heap s p)) (Io_read_ring (cur s)) (kst s) (kst s') \<and>
     (\<forall>r. r \<noteq> p \<longrightarrow> r \<noteq> fp \<longrightarrow> heap s' r = heap s r) \<and> in_dram (heap s' p) \<and> reserve (heap s' p) = Some fp \<and>
     \<not> in_dram (heap s' fp) \<and> virtual_offset (heap s' fp) = virtual_offset (heap s p) \<and>
     va (heap s' p) = va (heap s p) \<and> va (heap s' fp) = va (heap s fp)"

lemma link_reserve_parts:
  assumes "p \<noteq> fp"
  shows "wpE (link_reserve p fp off s) (\<lambda>s'. kst s' = kst s \<and> cur s' = cur s \<and> page_cache s' = page_cache s \<and> tls s' = tls s \<and>
     (\<forall>r. r \<noteq> p \<longrightarrow> r \<noteq> fp \<longrightarrow> heap s' r = heap s r) \<and> heap s' p = (heap s p)\<lparr>reserve := Some fp, has_reserve := True\<rparr> \<and>
     \<not> in_dram (heap s' fp) \<and> virtual_offset (heap s' fp) = off \<and> va (heap s' fp) = va (heap s fp)) any_error"
  unfolding link_reserve_def Let_def wpE_bindE
  by (rule wpE_mono [OF enqueue_parts], rule wpE_mono [OF enqueue_parts]) (use assms in \<open>auto simp: parts_def\<close>)

lemma brought_keeps:
  assumes inv: "pool_inv (insert fp (insert p F)) s" and ff: "in_dram (heap s fp)" "va (heap s fp) = 0" "fp \<noteq> p"
    and p: "\<not> in_dram (heap s p)" and c: "calm V (insert p F) s" and b: "\<forall>q < npool s. va (heap s q) \<noteq> b"
    and bz: "spare V s \<Longrightarrow> b \<noteq> zeros V" and br: "brought V b s s' p fp" and n: "npool s' = npool s"
  shows "intact V s s'"
proof -
  have pn: "p < npool s" "fp < npool s" using pool_invD(6) [OF inv] by auto
  have h: "heap s' q = heap s q" if "q \<noteq> p" "q \<noteq> fp" for q using br that by (simp add: brought_def)
  have va: "va (heap s' q) = va (heap s q)" for q using br by (cases "q = p \<or> q = fp") (auto simp: brought_def)
  have d: "disk V (kst s') = disk V (kst s)" using br by (simp add: brought_def copied_in_def)
  have mine: "mem V (kst s') (va (heap s p)) = disk V (kst s) (virtual_offset (heap s p))"
    "base V (kst s') (va (heap s p)) = disk V (kst s) (virtual_offset (heap s p))"
    using br by (simp_all add: brought_def copied_in_def)
  have other: "mem V (kst s') (va (heap s q)) = mem V (kst s) (va (heap s q))" "base V (kst s') (va (heap s q)) = base V (kst s) (va (heap s q))"
    if "q < npool s" "q \<noteq> p" "va (heap s q) \<noteq> 0" for q
    using br c b that pn(1) by (auto simp: brought_def copied_in_def calm_def distinct_vas_def)
  have "kept V s s'" unfolding kept_def
  proof (intro allI impI)
    fix q assume q: "q < npool s" "va (heap s q) \<noteq> 0"
    show "content V s' q = content V s q"
    proof (cases "q = p")
      case True
      then show ?thesis using br p mine(1) by (simp add: content_def brought_def)
    next
      case False
      moreover from q ff have "q \<noteq> fp" by auto
      ultimately show ?thesis using h q other(1) d by (simp add: content_def)
    qed
  qed
  moreover have "synced V s'" if "synced V s"
    unfolding synced_def
  proof (intro allI impI)
    fix q e
    assume q: "q < npool s'" "in_dram (heap s' q)" "va (heap s' q) \<noteq> 0" "has_reserve (heap s' q)" "reserve (heap s' q) = Some e"
    show "disk V (kst s') (virtual_offset (heap s' e)) = base V (kst s') (va (heap s' q))"
    proof (cases "q = p")
      case True
      then show ?thesis using br q d mine(2) by (simp add: brought_def)
    next
      case False
      moreover from q ff va have "q \<noteq> fp" by auto
      ultimately have hq: "heap s' q = heap s q" by (rule h)
      then have "q \<notin> insert p F" using c q p va by (auto simp: calm_def)
      with \<open>q \<noteq> fp\<close> obtain l where "page_list s q = Some l" "fits s l q" using pool_invD(10) [OF inv] q(1) n by (auto simp: filed_def)
      then have "backed s e q" using q hq by (cases l) (auto simp: fits_def resident_page_def Let_def)
      then have "e \<noteq> p" "e \<noteq> fp" using pool_inv_listed(2) [OF inv, of e Disk_reserve_list] by (auto simp: backed_def)
      then show ?thesis using that q n hq h [of e] d other(2) [of q] False by (simp add: synced_def)
    qed
  qed
  moreover have "zero_kept V s s'"
    by (rule zero_keptI) (use br n va bz pn(1) in \<open>auto simp: brought_def copied_in_def spare_def\<close>)
  ultimately show ?thesis using va n by (simp add: intact_def)
qed


text \<open>The thread has its buffer, which is not a page of the application, and no read is under way.\<close>

definition can_read :: "('k, 'd) view \<Rightarrow> 'k ext \<Rightarrow> bool" where
  "can_read V s \<longleftrightarrow> buffer_allocated (me s) \<and> (\<forall>q < npool s. va (heap s q) \<noteq> buffer_space (me s)) \<and>
     queued V (kst s) (Io_read_ring (cur s)) = []"

text \<open>The state between the start of the read and its end.\<close>

definition read_started :: "('k, 'd) view \<Rightarrow> 'k ext \<Rightarrow> 'k ext \<Rightarrow> page_ptr \<Rightarrow> bool" where
  "read_started V s u p \<longleftrightarrow> heap u = heap s \<and> cur u = cur s \<and> npool u = npool s \<and> same_buffers s u \<and>
     reading V (Io_read_ring (cur s)) (buffer_space (me s)) (virtual_offset (heap s p)) (kst s) (kst u)"

lemma read_started_intact: "read_started V s u p \<Longrightarrow> intact V s u"
  by (auto simp: read_started_def reading_def intact_def synced_def kept_def content_def intro!: zero_keptI)

lemma read_started_calm:
  assumes "read_started V s u p" "calm V F s" "\<not> in_dram (heap s p)"
  shows "calm V (insert p F) u"
  using assms by (auto simp: read_started_def reading_def calm_def distinct_vas_def)

lemma finish_swapin_data:
  assumes K: "data_laws K V" and rs: "read_started V s u p" "can_read V s" and f: "gives_frame V (insert p F) u (fp, u2)"
    and p: "pt (heap s p) = BASEP"
  shows "wpE (core_migrate_up_async_finish K p (virtual_offset (heap u2 fp)) u2) (\<lambda>s3. wpE (link_reserve p fp (virtual_offset (heap s p)) s3)
     (\<lambda>s'. brought V (buffer_space (me s)) u2 s' p fp) any_error) any_error"
proof -
  have h: "heap u2 p = heap s p" using f rs(1) presD(4) [of "insert p F" u u2 p] by (simp add: read_started_def)
  have k: "cur u2 = cur s" "buffer_space (me u2) = buffer_space (me s)"
    "queued V (kst u2) (Io_read_ring (cur u2)) = [Read_into (buffer_space (me u2)) (virtual_offset (heap s p))]"
    using f rs by (simp_all add: keeps_def settled_def read_started_def reading_def can_read_def)
  have pf: "p \<noteq> fp" using f by (auto simp: free_frame_def)
  show ?thesis
    by (rule wpE_mono [OF async_finish_data [OF K k(3)]])
       (use p h k pf in \<open>auto simp: brought_def intro!: wpE_mono [OF link_reserve_parts]\<close>)
qed

lemma brought_settled:
  assumes "read_started V s u p" "can_read V s" "keeps V u u2" "brought V b u2 s' p fp"
  shows "settled V s s'"
  using assms by (simp add: settled_def read_started_def reading_def can_read_def keeps_def brought_def copied_in_def fun_upd_idem)

text \<open>The swap-in of a detached page, for any policy whose allocation keeps the contents.\<close>

locale data_source = frame_source fetch for fetch :: "'k ext \<Rightarrow> c_error + page_ptr \<times> 'k ext" +
  fixes K :: "'k kernel" and V :: "('k, 'd) view"
  assumes fetch_data: "data_laws K V \<Longrightarrow> pool_inv F s \<Longrightarrow> calm V F s \<Longrightarrow> wpE (fetch s) (gives_frame V F s) any_error"
begin

lemma detached_data:
  assumes K: "data_laws K V" and inc: "incoming F s p" and off: "off = virtual_offset (heap s p)"
    and c: "calm V F s" and r: "can_read V s"
  shows "wpE (bindE (core_migrate_up_async_start K p s) (\<lambda>s.
     bindE (fetch s) (\<lambda>(freepage, s).
     bindE (assertE (in_dram (heap s freepage))) (\<lambda>_.
     let offset = virtual_offset (heap s freepage) in
     bindE (core_migrate_up_async_finish K p offset s) (\<lambda>s.
     link_reserve p freepage off s)))))
    (\<lambda>s'. \<exists>u u2 fp. read_started V s u p \<and> gives_frame V (insert p F) u (fp, u2) \<and> brought V (buffer_space (me s)) u2 s' p fp) any_error"
proof -
  note pl = incoming_place [OF inc]
  have b: "buffer_allocated (me s)" using r by (simp add: can_read_def)
  show ?thesis unfolding wpE_bindE [of "core_migrate_up_async_start K p s"]
  proof (rule wpE_mono [OF async_start_data [OF K b pl(2)]], goal_cases)
    case (1 u)
    then obtain k t where u: "u = s\<lparr>kst := k, tls := t\<rparr>" by (elim conjE io_onlyE)
    have rs: "read_started V s u p" using 1 u by (simp add: read_started_def)
    have i: "pool_inv (insert p F) u" using inc u by (simp add: incoming_def)
    have cu: "calm V (insert p F) u" by (rule read_started_calm [OF rs c]) (use pl in simp)
    show ?case unfolding wpE_bindE [of "fetch u"] wpE_case_prod
    proof (rule wpE_mono [OF fetch_data [OF K i cu]], goal_cases)
      case (1 x)
      then have g: "gives_frame V (insert p F) u (fst x, snd x)" by simp
      have e: "wpE w (\<lambda>s'. \<exists>u u2 fp. read_started V s u p \<and> gives_frame V (insert p F) u (fp, u2) \<and>
          brought V (buffer_space (me s)) u2 s' p fp) any_error"
        if "wpE w (\<lambda>s'. brought V (buffer_space (me s)) (snd x) s' p (fst x)) any_error" for w
        by (rule wpE_mono [OF that]) (use rs g in blast)+
      show ?case using pl(2)
        by (simp add: wp_simps Let_def off) (intro impI wpE_mono [OF finish_swapin_data [OF K rs r g]] e [simplified]; simp)
    qed simp
  qed simp
qed

lemma detached_keeps:
  assumes K: "data_laws K V" and inc: "incoming F s p" and off: "off = virtual_offset (heap s p)"
    and c: "calm V F s" and r: "can_read V s" and a: "can_alloc F s"
  shows "wpE (bindE (core_migrate_up_async_start K p s) (\<lambda>s.
     bindE (fetch s) (\<lambda>(freepage, s).
     bindE (assertE (in_dram (heap s freepage))) (\<lambda>_.
     let offset = virtual_offset (heap s freepage) in
     bindE (core_migrate_up_async_finish K p offset s) (\<lambda>s.
     link_reserve p freepage off s))))) (keeps V s) any_error"
proof (rule wpE_mono [OF wpE_conj [OF swapin_detached [OF inc pres_refl a off] detached_data [OF K inc off c r]]], goal_cases)
  case (1 s')
  have pd: "\<not> in_dram (heap s p)" using incoming_place(1) [OF inc] by simp
  from 1 obtain u u2 fp where rs: "read_started V s u p" and g: "free_frame (insert p F) u2 fp" "pres (insert p F) u u2" "keeps V u u2"
    and br: "brought V (buffer_space (me s)) u2 s' p fp" and n: "npool s' = npool s"
    using presD(2) [of F s "settle p s'"] by auto
  have cu: "calm V (insert p F) u" by (rule read_started_calm [OF rs c pd])
  have n2: "npool s' = npool u2" "npool u2 = npool s" using n rs presD(2) [OF g(2)] by (simp_all add: read_started_def)
  have k: "va (heap u2 q) = va (heap s q)" "heap u2 p = heap s p" for q
    using g(2,3) rs presD(4) [OF g(2), of p] by (simp_all add: keeps_def read_started_def)
  have bu: "buffer_space (me u2) = buffer_space (me s)" using g(3) rs by (simp add: keeps_def settled_def read_started_def)
  have "intact V u2 s'"
    by (rule brought_keeps [OF _ _ _ _ _ calm_keeps [OF cu g(3,2)] _ _ br n2(1)])
       (use g(1) k pd r n2(2) bu in \<open>auto simp: free_frame_def can_read_def spare_def\<close>)
  then have "intact V s s'" using read_started_intact [OF rs] g(3) intact_trans by (metis keeps_intact)
  then show ?case using brought_settled [OF rs r g(3) br] by (simp add: keeps_intact)
qed simp

end

interpretation lru_data_frames: data_source "fetch_free_asynch K" K V for K V
  by unfold_locales (rule fetch_free_keeps)

lemma can_read_lists [simp]: "can_read V (s\<lparr>lists := fs\<rparr>) = can_read V s"
  by (simp add: can_read_def)

lemma swapin_keeps:
  assumes K: "data_laws K V" and inv: "pool_inv F (unmark p s)" and p: "page_list s p = Some Disk_active_list"
    and c: "calm V F s" and r: "can_read V s" and a: "can_alloc F s"
  shows "wpE (lrudisk_swapin_external_async K p s) (keeps V s) any_error"
  unfolding lrudisk_swapin_external_async_def wpE_Let wpE_bindE [of "detach_from _ _ _"]
proof (rule marked_detach_from_wp [OF inv p], goal_cases)
  case (1 fs)
  show ?case by (rule wpE_mono [OF lru_data_frames.detached_keeps [OF K 1]]) (use c r a in simp_all)
qed

end
