(* ===== verification/Contents_Requests.thy ===== *)
theory Contents_Requests
  imports Contents
begin

text \<open>
  Batches of requests. The vector worker starts all writes of a batch, and the prefetcher all its reads, before
  waiting for any; the completions may arrive in any order. Waiting for as many completions as there are requests
  leaves all of them done, because they go to different places.
\<close>

text \<open>The place that a request changes, and requests in one direction to different places.\<close>

fun destination :: "request \<Rightarrow> u64" where
  "destination (Read_into b off) = b"
| "destination (Write_from b off) = off"

definition one_way :: "bool \<Rightarrow> request list \<Rightarrow> bool" where
  "one_way w qs \<longleftrightarrow> distinct (map destination qs) \<and> (\<forall>q \<in> set qs. is_write q = w)"

fun arrived :: "('k, 'd) view \<Rightarrow> 'k \<Rightarrow> 'k \<Rightarrow> request \<Rightarrow> bool" where
  "arrived V k k' (Read_into b off) \<longleftrightarrow> mem V k' b = disk V k off"
| "arrived V k k' (Write_from b off) \<longleftrightarrow> disk V k' off = mem V k b"

definition all_done :: "('k, 'd) view \<Rightarrow> bool \<Rightarrow> ring_id \<Rightarrow> request set \<Rightarrow> 'k \<Rightarrow> 'k \<Rightarrow> bool" where
  "all_done V w r Q k k' \<longleftrightarrow> base V k' = base V k \<and> queued V k' = (queued V k)(r := []) \<and> (\<forall>q \<in> Q. arrived V k k' q) \<and>
     (\<forall>a. w \<or> a \<notin> destination ` Q \<longrightarrow> mem V k' a = mem V k a) \<and>
     (\<forall>a. \<not> w \<or> a \<notin> destination ` Q \<longrightarrow> disk V k' a = disk V k a)"

lemma arrived_same: "same V k1 k2 \<Longrightarrow> arrived V k2 k' q = arrived V k1 k' q"
  by (cases q) (simp_all add: same_def)

lemma all_done_Nil: "queued V k r = [] \<Longrightarrow> all_done V w r {} k k"
  by (simp add: all_done_def fun_upd_idem)

lemma one_way_remove:
  assumes "one_way w qs" "p \<in> set qs"
  shows "one_way w (remove1 p qs)" "set (remove1 p qs) = set qs - {p}" "destination p \<notin> destination ` (set qs - {p})"
proof -
  have d: "distinct qs" "inj_on destination (set qs)" using assms(1) by (simp_all add: one_way_def distinct_map)
  then show s: "set (remove1 p qs) = set qs - {p}" by simp
  show "destination p \<notin> destination ` (set qs - {p})" using d(2) assms(2) by (auto dest: inj_onD)
  show "one_way w (remove1 p qs)" using assms(1) d by (auto simp: one_way_def distinct_map intro: inj_on_diff)
qed

lemma all_done_step:
  assumes w: "\<forall>q \<in> insert p Q. is_write q = w" "destination p \<notin> destination ` Q"
    and p: "completes V p k k1" "queued V k1 = (queued V k)(r := rs)" and a: "all_done V w r Q k1 k'"
  shows "all_done V w r (insert p Q) k k'"
proof -
  have "arrived V k k' q" if "q \<in> Q" for q
    using a that p(1) w(1) by (cases p; cases q) (auto simp: all_done_def completes_def)
  moreover have "arrived V k k' p" using a w p(1) by (cases p) (auto simp: all_done_def completes_def)
  ultimately show ?thesis using a p w(1) by (cases p) (auto simp: all_done_def completes_def)
qed

text \<open>
  A loop \<open>W n\<close> that waits for \<open>n\<close> completions on the ring \<open>r\<close>, in terms of what it guarantees.
\<close>

lemma wait_all:
  fixes W :: "nat \<Rightarrow> 'k ext \<Rightarrow> ('k ext \<Rightarrow> bool) \<Rightarrow> bool"
  assumes K: "data_laws K V"
    and W0: "\<And>s Q. Q s \<Longrightarrow> W 0 s Q" and mono: "\<And>n s Q Q'. W n s Q \<Longrightarrow> (\<And>x. Q x \<Longrightarrow> Q' x) \<Longrightarrow> W n s Q'"
    and WS: "\<And>n s Q. cur s = t \<Longrightarrow> (fst (u_wait_cqe K r (kst s)) \<Longrightarrow>
      W n (s\<lparr>kst := u_cqe_seen K r (snd (u_wait_cqe K r (kst s)))\<rparr>) Q) \<Longrightarrow> W (Suc n) s Q"
  shows "cur s = t \<Longrightarrow> queued V (kst s) r = qs \<Longrightarrow> one_way w qs \<Longrightarrow>
    W (length qs) s (\<lambda>s'. \<exists>k. s' = s\<lparr>kst := k\<rparr> \<and> all_done V w r (set qs) (kst s) k)"
proof (induction "length qs" arbitrary: qs s)
  case 0
  then have q: "qs = []" by simp
  have "all_done V w r (set qs) (kst s) (kst s)" unfolding q using 0(3) q by (simp add: all_done_Nil)
  then show ?case unfolding q list.size by (intro W0 exI [of _ "kst s"]) simp
next
  case (Suc n)
  let ?k = "snd (u_wait_cqe K r (kst s))"
  have "W (Suc n) s (\<lambda>s'. \<exists>k. s' = s\<lparr>kst := k\<rparr> \<and> all_done V w r (set qs) (kst s) k)"
  proof (rule WS [OF Suc.prems(1)])
    assume ok: "fst (u_wait_cqe K r (kst s))"
    have "qs \<noteq> []" using Suc.hyps(2) by auto
    then obtain p where p: "p \<in> set qs" "completes V p (kst s) ?k" "queued V ?k = (queued V (kst s))(r := remove1 p qs)"
      by (rule_tac data_wait [OF K, of "kst s" r]) (use Suc.prems(2) ok in auto)
    note rm = one_way_remove [OF Suc.prems(3) p(1)]
    have "insert p (set (remove1 p qs)) = set qs" using rm(2) p(1) by auto
    then have dn: "all_done V w r (set qs) (kst s) k" if "all_done V w r (set (remove1 p qs)) ?k k" for k
      using all_done_step [OF _ _ p(2,3) that] Suc.prems(3) rm(2,3) p(1) by (simp add: one_way_def)
    let ?u = "s\<lparr>kst := u_cqe_seen K r ?k\<rparr>"
    have sm: "same V ?k (kst ?u)" using data_lawsD(4) [OF K, of ?k r] by simp
    have n: "length (remove1 p qs) = n" using p(1) Suc.hyps(2) by (simp add: length_remove1)
    have "W (length (remove1 p qs)) ?u (\<lambda>s'. \<exists>k. s' = ?u\<lparr>kst := k\<rparr> \<and> all_done V w r (set (remove1 p qs)) (kst ?u) k)"
      by (rule Suc.hyps(1)) (use n p(3) sm Suc.prems rm(1) in \<open>auto simp: same_def\<close>)
    then have "W n ?u (\<lambda>s'. \<exists>k. s' = s\<lparr>kst := k\<rparr> \<and> all_done V w r (set (remove1 p qs)) ?k k)"
      unfolding n by (rule mono) (use sm arrived_same [OF sm] in \<open>auto simp: all_done_def same_def\<close>)
    then show "W n ?u (\<lambda>s'. \<exists>k. s' = s\<lparr>kst := k\<rparr> \<and> all_done V w r (set qs) (kst s) k)"
      by (rule mono) (use dn in blast)
  qed
  then show ?case using Suc.hyps(2) by simp
qed

end
