(* ===== verification/Contents_Core.thy ===== *)
theory Contents_Core
  imports Contents_Swapin Contents_Requests Core_Handlers
begin

text \<open>
  The contents of pages through the fault handlers and the prefetcher of \<open>core.c\<close>, over any policy whose own
  operations keep them.
\<close>

section \<open>A batch of reads\<close>

text \<open>The reads that the prefetcher starts for the pages \<open>ps\<close>, into consecutive pages of its buffer.\<close>

fun batch_reads :: "(page_ptr \<Rightarrow> user_page) \<Rightarrow> page_ptr list \<Rightarrow> u64 \<Rightarrow> request list" where
  "batch_reads h [] buf = []"
| "batch_reads h (p # ps) buf = Read_into buf (virtual_offset (h p)) # batch_reads h ps (buf + PAGE_SIZE)"

definition reads_queued :: "('k, 'd) view \<Rightarrow> 'k ext \<Rightarrow> 'k ext \<Rightarrow> request list \<Rightarrow> bool" where
  "reads_queued V s s' qs \<longleftrightarrow> io_only s s' \<and> same_buffers s s' \<and>
     mem V (kst s') = mem V (kst s) \<and> base V (kst s') = base V (kst s) \<and> disk V (kst s') = disk V (kst s) \<and>
     queued V (kst s') = (queued V (kst s))(Io_read_ring (cur s) := queued V (kst s) (Io_read_ring (cur s)) @ qs)"

lemma reads_queued_Nil [simp]: "reads_queued V s s []"
  by (simp add: reads_queued_def)

lemma reads_queued_trans:
  assumes "reads_queued V s s' qs" "reads_queued V s' s'' rs"
  shows "reads_queued V s s'' (qs @ rs)"
proof -
  have "cur s' = cur s" using assms(1) by (auto simp: reads_queued_def elim!: io_onlyE)
  then show ?thesis using assms io_only_trans [of s s' s''] by (simp add: reads_queued_def)
qed

lemma prepare_read_data:
  assumes K: "data_laws K V"
  shows "wpE (ioring_prepare_read K fd off b PAGE_SIZE s) (\<lambda>s'. reads_queued V s s' [Read_into b off]) any_error"
proof -
  have "wpE (ioring_prepare_read K fd off b PAGE_SIZE s) (\<lambda>s'. same_buffers s s' \<and>
     mem V (kst s') = mem V (kst s) \<and> base V (kst s') = base V (kst s) \<and> disk V (kst s') = disk V (kst s) \<and>
     queued V (kst s') = (queued V (kst s))(Io_read_ring (cur s) := queued V (kst s) (Io_read_ring (cur s)) @ [Read_into b off])) any_error"
    using data_lawsD(1,2) [OF K] data_prep_read [OF K]
    by (simp add: ioring_prepare_read_def thread_init_read_iouring_def wp_simps kdo_def upd_me_def same_def)
  from wpE_conj [OF ioring_io(4) this] show ?thesis by (rule wpE_mono) (auto simp: reads_queued_def)
qed

lemma prefetch_prepare_data:
  assumes K: "data_laws K V"
  shows "wpE (prefetch_prepare K ps buf s) (\<lambda>s'. reads_queued V s s' (batch_reads (heap s) ps buf)) any_error"
proof (induction ps arbitrary: buf s)
  case (Cons p ps)
  show ?case unfolding prefetch_prepare.simps wpE_bindE
  proof (rule wpE_mono [OF prepare_read_data [OF K]], goal_cases)
    case (1 u)
    then have "heap u = heap s" by (auto simp: reads_queued_def elim!: io_onlyE)
    then show ?case by (intro wpE_mono [OF Cons.IH]) (use reads_queued_trans [OF 1] in auto)
  qed simp
qed (simp add: wp_simps)

text \<open>Waiting for as many completions as there are reads fills every page of the buffer.\<close>

lemma prefetch_finish_data:
  assumes K: "data_laws K V" and q: "queued V (kst s) (Io_read_ring (cur s)) = qs" "one_way False qs" "length ps = length qs"
  shows "wpE (prefetch_finish K ps buf s) (\<lambda>s'. \<exists>k. s' = s\<lparr>kst := k\<rparr> \<and> all_done V False (Io_read_ring (cur s)) (set qs) (kst s) k) any_error"
proof -
  have "\<forall>ps buf. length ps = length qs \<longrightarrow> wpE (prefetch_finish K ps buf s)
      (\<lambda>s'. \<exists>k. s' = s\<lparr>kst := k\<rparr> \<and> all_done V False (Io_read_ring (cur s)) (set qs) (kst s) k) any_error"
  proof (rule wait_all [where W = "\<lambda>n s Q. \<forall>ps buf. length ps = n \<longrightarrow> wpE (prefetch_finish K ps buf s) Q any_error", OF K _ _ _ refl q(1,2)], goal_cases)
    case (3 n u Q)
    show ?case
    proof (intro allI impI)
      fix ps buf assume "length (ps :: page_ptr list) = Suc n"
      then obtain p ps' where "ps = p # ps'" "length ps' = n" by (cases ps) auto
      then show "wpE (prefetch_finish K ps buf u) Q any_error" using 3 by (simp add: ioring_finish_read_def wp_simps kdo_def)
    qed
  next
    case (2 n u Q Q')
    then show ?case using wpE_mono [of _ Q any_error Q' any_error] by blast
  qed (auto simp: wp_simps)
  with q(3) show ?thesis by blast
qed

lemma batch_reads_nth:
  "length (batch_reads h ps buf) = length ps"
  "i < length ps \<Longrightarrow> batch_reads h ps buf ! i = Read_into (buf + of_nat i * PAGE_SIZE) (virtual_offset (h (ps ! i)))"
proof (induction ps arbitrary: buf i)
  case (Cons p ps)
  { case 1 then show ?case using Cons.IH(1) by simp }
  { case 2 then show ?case using Cons.IH(2) by (cases i) (simp_all add: algebra_simps) }
qed simp_all

text \<open>The pages of the buffer are different.\<close>

lemma buffer_pages_inj: "i < 32 \<Longrightarrow> j < 32 \<Longrightarrow> (of_nat i * PAGE_SIZE :: u64) = of_nat j * PAGE_SIZE \<Longrightarrow> i = j"
proof -
  assume ij: "i < 32" "j < 32" and e: "(of_nat i * PAGE_SIZE :: u64) = of_nat j * PAGE_SIZE"
  have "unat (of_nat n * PAGE_SIZE :: u64) = n * 4096" if "n < 32" for n :: nat
    using that by (simp add: unat_word_ariths unat_of_nat)
  then show "i = j" using e ij by (metis mult_cancel2 zero_neq_numeral)
qed

lemma batch_reads_one_way:
  assumes "length ps \<le> 32"
  shows "one_way False (batch_reads h ps buf)"
proof -
  have "distinct (map destination (batch_reads h ps buf))"
    unfolding distinct_conv_nth
  proof (intro allI impI)
    fix i j assume "i < length (map destination (batch_reads h ps buf))" "j < length (map destination (batch_reads h ps buf))" "i \<noteq> j"
    then show "map destination (batch_reads h ps buf) ! i \<noteq> map destination (batch_reads h ps buf) ! j"
      using assms buffer_pages_inj [of i j] by (auto simp: batch_reads_nth)
  qed
  moreover have "\<not> is_write q" if "q \<in> set (batch_reads h ps buf)" for q
    using that by (auto simp: in_set_conv_nth batch_reads_nth)
  ultimately show ?thesis by (simp add: one_way_def)
qed


section \<open>What the core relies on\<close>

text \<open>
  The operations of a policy and the contents of pages. All but the acknowledgement of a prefetched page keep
  them; that one links the page to the disk slot it came from.
\<close>

definition acked :: "('k, 'd) view \<Rightarrow> 'k ext \<Rightarrow> 'k ext \<Rightarrow> page_ptr \<Rightarrow> page_ptr \<Rightarrow> bool" where
  "acked V s s' p fp \<longleftrightarrow> same V (kst s) (kst s') \<and> settled V s s' \<and> (\<forall>r. r \<noteq> p \<longrightarrow> r \<noteq> fp \<longrightarrow> heap s' r = heap s r) \<and>
     reserve (heap s' p) = Some fp \<and> \<not> in_dram (heap s' fp) \<and> virtual_offset (heap s' fp) = virtual_offset (heap s p) \<and>
     va (heap s' p) = va (heap s p) \<and> va (heap s' fp) = va (heap s fp)"

locale data_policy = fault_policy P for P :: "'k policy" +
  fixes K :: "'k kernel" and V :: "('k, 'd) view"
  assumes pagefault_data: "data_laws K V \<Longrightarrow> pool_inv F s \<Longrightarrow> calm V F s \<Longrightarrow> wpE (pagefault P s) (\<lambda>r. keeps V s (snd r)) any_error"
    and add_data: "data_laws K V \<Longrightarrow> wpE (policy_add_page P p s) (\<lambda>s'. quiet V s s' \<and> npool s' = npool s) any_error"
    and put_data: "data_laws K V \<Longrightarrow> wpE (policy_put_freepage P p s) (\<lambda>s'. quiet V s s' \<and> npool s' = npool s) any_error"
    and swapin_data: "data_laws K V \<Longrightarrow> pool_inv F (unmark p s) \<Longrightarrow> page_list s p = Some Disk_active_list \<Longrightarrow> calm V F s \<Longrightarrow>
      can_read V s \<Longrightarrow> can_alloc F s \<Longrightarrow> wpE (page_swapin_external_async P p s) (keeps V s) any_error"
    and detach_data: "data_laws K V \<Longrightarrow> wpE (policy_detach_page P p s) (quiet V s) any_error"
    and ack_data: "data_laws K V \<Longrightarrow> p \<noteq> fp \<Longrightarrow> wpE (policy_ack_swapped_in P p fp s) (\<lambda>s'. acked V s s' p fp) any_error"
    and ack_vma_data: "quiet V s (policy_ack_vma P a len priority s)"

section \<open>The prefetcher\<close>

lemma quiet_marks [simp]:
  "quiet V s (mark p u) = quiet V s u" "quiet V s (settle p u) = quiet V s u" "quiet V s (count f u) = quiet V s u"
  "quiet V s (count_wait u) = quiet V s u" "quiet V s (unmark p u) = quiet V s u"
  by (auto simp: quiet_def settled_def whereabouts_def count_wait_def)

lemma find_quiet: "wpE (find_page a s) (\<lambda>r. quiet V s (snd r)) any_error"
  by (simp add: find_page_def wp_simps Let_def)

lemma calm_insert: "calm V F s \<Longrightarrow> (in_dram (heap s p) \<Longrightarrow> va (heap s p) = 0) \<Longrightarrow> calm V (insert p F) s"
  by (simp add: calm_def)

lemma calm_mono: "calm V F s \<Longrightarrow> F' \<subseteq> F \<Longrightarrow> calm V F' s"
  by (auto simp: calm_def)

context data_policy
begin

lemma collect_quiet:
  assumes K: "data_laws K V"
  shows "quiet V s u \<Longrightarrow> wpE (prefetch_collect P n b u) (\<lambda>r. quiet V s (snd r)) any_error"
proof (induction n arbitrary: b u)
  case (Suc n)
  have d: "wpE (policy_detach_page P p w) (\<lambda>x. wpE (prefetch_collect P n b' x) (\<lambda>r. quiet V s (snd r)) any_error) any_error" if "quiet V s w" for p w b'
    by (rule wpE_mono [OF detach_data [OF K]]) (use that Suc.IH quiet_trans in blast)+
  show ?case unfolding prefetch_collect.simps Let_def wpE_bindE
    by (rule wpE_mono [OF find_quiet [where s = u and V = V]])
       (use Suc.prems d quiet_trans [OF Suc.prems] in \<open>auto simp: wp_simps case_prod_beta split: option.split\<close>)
qed (simp add: wp_simps)

lemma frames_keeps:
  assumes K: "data_laws K V"
  shows "pool_inv F s \<Longrightarrow> \<not> shrinkage_running s \<Longrightarrow> 2 * (frames_held F s + n) < nframes s + 2 \<Longrightarrow> calm V F s \<Longrightarrow>
    wpE (prefetch_frames P n s) (\<lambda>r. keeps V s (snd r)) any_error"
proof (induction n arbitrary: s F)
  case (Suc n)
  have ca: "can_alloc F s" using Suc.prems by (simp add: can_alloc_def)
  show ?case unfolding prefetch_frames.simps wpE_bindE wpE_case_prod
  proof (rule wpE_mono [OF wpE_conj [OF pagefault_law [OF Suc.prems(1) ca] pagefault_data [OF K Suc.prems(1,4)]]], goal_cases)
    case (1 r)
    then have f: "pool_inv (insert (fst r) F) (snd r)" "vacant (snd r) (fst r)" and pr: "pres F s (snd r)" and k: "keeps V s (snd r)"
      by (auto simp: vacant_free)
    have b: "2 * (frames_held (insert (fst r) F) (snd r) + n) < nframes (snd r) + 2"
      using frames_held_insert [OF Suc.prems(1) pr, of "fst r"] Suc.prems(3) pres_size [OF pr] by simp
    have c: "calm V (insert (fst r) F) (snd r)"
      by (rule calm_insert [OF calm_keeps [OF Suc.prems(4) k pr]]) (use f(2) in \<open>simp add: vacant_def\<close>)
    show ?case
      by (rule wpE_mono [OF Suc.IH [OF f(1) pres_scan [OF pr Suc.prems(2)] b c]]) (use keeps_trans [OF k] in \<open>auto simp: wp_simps\<close>)
  qed simp
qed (simp add: wp_simps)

lemma map_one_data:
  assumes K: "data_laws K V" and pf: "p \<noteq> fp" and m: "mem V (kst s) buf = disk V (kst s) (virtual_offset (heap s p))"
    and r: "queued V (kst s) (Io_read_ring (cur s)) = []"
  shows "wpE (prefetch_map_one K P p fp buf s) (\<lambda>s'. brought V buf s s' p fp) any_error"
proof -
  let ?k = "snd (k_uffd_copy K (va (heap s p)) buf PAGE_SIZE (kst s))"
  have c: "copied_in V buf (va (heap s p)) (virtual_offset (heap s p)) (Io_read_ring (cur s)) (kst s) k'"
    if "fst (k_uffd_copy K (va (heap s p)) buf PAGE_SIZE (kst s))" "same V ?k k'" for k'
    using data_copy [OF K that(1)] that(2) m r by (simp add: copied_in_def same_def fun_upd_idem)
  show ?thesis unfolding prefetch_map_one_def wpE_bindE wpE_kcall
    by (intro conjI impI TrueI wpE_mono [OF ack_data [OF K pf]])
       (auto simp: wp_simps Let_def acked_def brought_def settled_def pf [symmetric] pf intro: c)
qed

end

text \<open>
  The buffer of the prefetcher from the page \<open>buf\<close> on: it holds the pages \<open>ps\<close>, and neither a page of the application nor
  the one that first faults copy is there.
\<close>

definition buffered :: "('k, 'd) view \<Rightarrow> 'k ext \<Rightarrow> page_ptr list \<Rightarrow> u64 \<Rightarrow> bool" where
  "buffered V s ps buf \<longleftrightarrow> queued V (kst s) (Io_read_ring (cur s)) = [] \<and> (\<forall>i < length ps.
     mem V (kst s) (buf + of_nat i * PAGE_SIZE) = disk V (kst s) (virtual_offset (heap s (ps ! i))) \<and>
     (\<forall>q < npool s. va (heap s q) \<noteq> buf + of_nat i * PAGE_SIZE) \<and> (spare V s \<longrightarrow> buf + of_nat i * PAGE_SIZE \<noteq> zeros V))"

lemma buffered_next:
  assumes b: "buffered V s (p # ps) buf" and br: "brought V buf s s' p fp" and p: "p < npool s" "p \<notin> set ps" "fp \<notin> set ps"
    and n: "npool s' = npool s" and va: "\<And>q. va (heap s' q) = va (heap s q)"
  shows "buffered V s' ps (buf + PAGE_SIZE)"
  unfolding buffered_def
proof (intro conjI allI impI)
  show "queued V (kst s') (Io_read_ring (cur s')) = []" using b br by (simp add: buffered_def brought_def copied_in_def)
next
  fix i assume i: "i < length ps"
  let ?b = "buf + PAGE_SIZE + of_nat i * PAGE_SIZE"
  have e: "buf + of_nat (Suc i) * PAGE_SIZE = ?b" by (simp add: algebra_simps)
  have m: "mem V (kst s) ?b = disk V (kst s) (virtual_offset (heap s (ps ! i)))" "\<forall>q < npool s. va (heap s q) \<noteq> ?b"
    "mem V (kst s) buf = disk V (kst s) (virtual_offset (heap s p))"
    using b i unfolding buffered_def e [symmetric] by force+
  have "ps ! i \<noteq> p" "ps ! i \<noteq> fp" using p nth_mem [OF i] by auto
  then have h: "heap s' (ps ! i) = heap s (ps ! i)" using br by (simp add: brought_def)
  show "mem V (kst s') ?b = disk V (kst s') (virtual_offset (heap s' (ps ! i)))"
    using m(1,3) m(2) [rule_format, OF p(1)] br unfolding h by (simp add: brought_def copied_in_def fun_upd_idem)
  show "?b \<noteq> zeros V" if "spare V s'"
  proof -
    have "spare V s' \<longleftrightarrow> spare V s" using br n va by (auto simp: brought_def spare_def)
    then show ?thesis using that b i unfolding buffered_def e [symmetric] by force
  qed
  fix q assume "q < npool s'"
  then show "va (heap s' q) \<noteq> ?b" using m(2) va n by simp
qed

context data_policy
begin

lemma map_one_keeps:
  assumes K: "data_laws K V" and inv: "pool_inv (insert p (insert fp F)) s" "p \<notin> F" "fp \<notin> F" "p \<noteq> fp" "inbound s p" "vacant s fp"
    and c: "calm V F s" and b: "buffered V s (p # ps) buf"
  shows "wpE (prefetch_map_one K P p fp buf s) (\<lambda>s'. pool_inv F s' \<and> pres F s s' \<and> brought V buf s s' p fp \<and> keeps V s s') any_error"
proof -
  have m: "mem V (kst s) buf = disk V (kst s) (virtual_offset (heap s p))" "queued V (kst s) (Io_read_ring (cur s)) = []"
    "\<forall>q < npool s. va (heap s q) \<noteq> buf" and bz: "spare V s \<Longrightarrow> buf \<noteq> zeros V"
    using b unfolding buffered_def by force+
  have pd: "\<not> in_dram (heap s p)" using inv(5) by (simp add: inbound_def on_disk_def)
  have c': "calm V (insert p F) s" by (rule calm_insert [OF c]) (use pd in simp)
  show ?thesis
  proof (rule wpE_mono [OF wpE_conj [OF map_one_wp [OF inv] map_one_data [OF K inv(4) m(1,2)]]], goal_cases)
    case (1 s')
    then have pr: "pres F s s'" and br: "brought V buf s s' p fp" by auto
    have "settled V s s'" using br m(2) by (simp add: settled_def brought_def copied_in_def fun_upd_idem)
    moreover have "intact V s s'"
      by (rule brought_keeps [OF _ _ _ _ pd c' m(3) bz br presD(2) [OF pr]])
         (use inv in \<open>simp_all add: insert_commute vacant_def\<close>)
    ultimately show ?case using 1 by (simp add: keeps_intact)
  qed simp
qed

lemma map_keeps:
  assumes K: "data_laws K V" and len: "length ps = length fps"
  shows "pool_inv (set ps \<union> set fps) s \<Longrightarrow> distinct ps \<Longrightarrow> distinct fps \<Longrightarrow> set ps \<inter> set fps = {} \<Longrightarrow> \<forall>p \<in> set ps. inbound s p \<Longrightarrow>
    \<forall>p \<in> set fps. vacant s p \<Longrightarrow> calm V (set ps \<union> set fps) s \<Longrightarrow> buffered V s ps buf \<Longrightarrow>
    wpE (prefetch_map K P (zip ps fps) buf s) (\<lambda>s'. keeps V s s') any_error"
  using len
proof (induction ps fps arbitrary: s buf rule: list_induct2)
  case (Cons p ps fp fps)
  let ?F = "set ps \<union> set fps"
  have "wpE (prefetch_map_one K P p fp buf s) (\<lambda>s'. pool_inv ?F s' \<and> pres ?F s s' \<and> brought V buf s s' p fp \<and> keeps V s s') any_error"
    by (rule map_one_keeps [OF K]) (use Cons.prems in \<open>auto simp: insert_commute elim: calm_mono\<close>)
  then have "wpE (prefetch_map_one K P p fp buf s)
     (\<lambda>s'. wpE (prefetch_map K P (zip ps fps) (buf + PAGE_SIZE) s') (\<lambda>s'. keeps V s s') any_error) any_error"
  proof (rule wpE_mono, goal_cases)
    case (1 s')
    then have pr: "pres ?F s s'" and k: "keeps V s s'" and br: "brought V buf s s' p fp" by simp_all
    have c: "calm V ?F s'" by (rule calm_keeps [OF calm_mono [OF Cons.prems(7)] k pr]) auto
    have "p < npool s" using pool_invD(6) [OF Cons.prems(1)] by simp
    then have b: "buffered V s' ps (buf + PAGE_SIZE)"
      by (rule buffered_next [OF Cons.prems(8) br]) (use Cons.prems presD(2,3) [OF pr] in auto)
    show ?case
      by (rule wpE_mono [OF Cons.IH [OF _ _ _ _ _ _ c b]])
         (use 1 Cons.prems in \<open>auto intro: inbound_pres [OF _ pr] vacant_pres [OF _ pr] keeps_trans [OF k]\<close>)
  qed simp
  then show ?case by (simp add: wp_simps)
qed (simp add: wp_simps)

end

text \<open>The thread has the prefetcher's buffer, no page of the application is there, and no read is under way.\<close>

definition can_prefetch :: "('k, 'd) view \<Rightarrow> 'k ext \<Rightarrow> bool" where
  "can_prefetch V s \<longleftrightarrow> prefetch_buffer_allocated (me s) \<and> queued V (kst s) (Io_read_ring (cur s)) = [] \<and>
     (\<forall>q < npool s. \<forall>i < 32. va (heap s q) \<noteq> prefetch_buffer (me s) + of_nat i * PAGE_SIZE)"

text \<open>Between the start of the reads and their end.\<close>

definition prefetching :: "('k, 'd) view \<Rightarrow> 'k ext \<Rightarrow> page_ptr list \<Rightarrow> u64 \<Rightarrow> 'k ext \<Rightarrow> bool" where
  "prefetching V s ps buf s' \<longleftrightarrow> cur s' = cur s \<and> same_buffers s s' \<and> intact V s s' \<and> buf = prefetch_buffer (me s) \<and>
     queued V (kst s') = (queued V (kst s))(Io_read_ring (cur s) := batch_reads (heap s') ps buf)"

lemma batch_reads_cong: "(\<And>p. p \<in> set ps \<Longrightarrow> virtual_offset (h p) = virtual_offset (h' p)) \<Longrightarrow> batch_reads h ps buf = batch_reads h' ps buf"
  by (induction ps arbitrary: buf) auto

lemma reads_prefetching:
  assumes r: "reads_queued V s1 s2 (batch_reads (heap s1) ps buf)" and s1: "keeps V s s1" and c: "can_prefetch V s" "buf = prefetch_buffer (me s)"
  shows "prefetching V s ps buf s2"
proof -
  have s2: "heap s2 = heap s1" "npool s2 = npool s1" "cur s2 = cur s1" using r by (auto simp: reads_queued_def elim!: io_onlyE)
  have "intact V s1 s2" using r s2 by (auto simp: intact_def synced_def kept_def content_def reads_queued_def intro!: zero_keptI)
  then have "intact V s s2" using s1 intact_trans by (auto simp: keeps_intact)
  moreover have "cur s1 = cur s" "same_buffers s s1" "queued V (kst s1) = queued V (kst s)" using s1 by (simp_all add: keeps_def settled_def)
  ultimately show ?thesis using r s2 c by (simp add: prefetching_def reads_queued_def can_prefetch_def)
qed

lemma prefetching_keeps:
  assumes p: "prefetching V s ps buf s2" and k: "keeps V s2 s3" "pres (set ps) s2 s3"
  shows "prefetching V s ps buf s3"
proof -
  have "batch_reads (heap s3) ps buf = batch_reads (heap s2) ps buf" by (rule batch_reads_cong) (use presD(4) [OF k(2)] in simp)
  then show ?thesis using p k(1) intact_trans [of V s s2 s3] by (simp add: prefetching_def keeps_intact settled_def)
qed

lemma prefetching_done:
  assumes p: "prefetching V s ps buf s3" and c: "can_prefetch V s" "length ps \<le> 32"
    and d: "all_done V False (Io_read_ring (cur s3)) (set (batch_reads (heap s3) ps buf)) (kst s3) k"
  shows "buffered V (s3\<lparr>kst := k\<rparr>) ps buf" "keeps V s (s3\<lparr>kst := k\<rparr>)"
proof -
  have n: "npool s3 = npool s" "cur s3 = cur s" and va: "va (heap s3 q) = va (heap s q)" for q
    using p by (simp_all add: prefetching_def intact_def)
  have q: "disk V k = disk V (kst s3)" "base V k = base V (kst s3)" "queued V k = queued V (kst s)"
    using d p c(1) n(2) by (simp_all add: all_done_def prefetching_def can_prefetch_def fun_upd_idem ext)
  have b: "va (heap s3 q) \<noteq> buf + of_nat i * PAGE_SIZE" if "q < npool s3" "i < 32" for q i
    using c(1) p that n va by (simp add: can_prefetch_def prefetching_def)
  have z: "buf + of_nat i * PAGE_SIZE \<noteq> zeros V" if "spare V s3" "i < 32" for i
    using p that by (simp add: spare_def prefetching_def)
  have dest: "\<exists>i < 32. a = buf + of_nat i * PAGE_SIZE" if a: "a \<in> destination ` set (batch_reads (heap s3) ps buf)" for a
  proof -
    obtain x where x: "x \<in> set (batch_reads (heap s3) ps buf)" "a = destination x" using a by blast
    from x(1) obtain i where "i < length ps" "batch_reads (heap s3) ps buf ! i = x" unfolding in_set_conv_nth batch_reads_nth(1) by blast
    then show ?thesis using c(2) x(2) by (intro exI [of _ i]) (auto simp: batch_reads_nth(2))
  qed
  have "arrived V (kst s3) k (Read_into (buf + of_nat i * PAGE_SIZE) (virtual_offset (heap s3 (ps ! i))))" if "i < length ps" for i
    using d that nth_mem [of i "batch_reads (heap s3) ps buf"] unfolding all_done_def batch_reads_nth(1) batch_reads_nth(2) [OF that] by blast
  moreover have "spare V (s3\<lparr>kst := k\<rparr>) = spare V s3" by (simp add: spare_def)
  ultimately show "buffered V (s3\<lparr>kst := k\<rparr>) ps buf" using q n b c z by (simp add: buffered_def can_prefetch_def)
  have m: "mem V k (va (heap s3 q)) = mem V (kst s3) (va (heap s3 q))" if "q < npool s3" for q
    using d b [OF that] dest [of "va (heap s3 q)"] by (auto simp: all_done_def)
  moreover have "zero_kept V s3 (s3\<lparr>kst := k\<rparr>)"
  proof (rule zero_keptI)
    assume "spare V s3"
    then have "zeros V \<notin> destination ` set (batch_reads (heap s3) ps buf)" using z dest [of "zeros V"] by metis
    then show "mem V (kst (s3\<lparr>kst := k\<rparr>)) (zeros V) = mem V (kst s3) (zeros V)" using d by (simp add: all_done_def)
  qed simp_all
  ultimately have "intact V s3 (s3\<lparr>kst := k\<rparr>)" using q by (simp add: intact_def synced_def kept_def content_def)
  then show "keeps V s (s3\<lparr>kst := k\<rparr>)"
    using p q n intact_trans by (auto simp: keeps_intact settled_def prefetching_def)
qed


lemma submit_reads_data:
  assumes K: "data_laws K V" and u: "reads_queued V s u qs"
  shows "wpE (ioring_submit_all_reads K u) (\<lambda>s2. reads_queued V s s2 qs) any_error"
proof -
  let ?k = "snd (u_submit K (Io_read_ring (cur u)) (kst u))"
  have "same V (kst u) ?k" by (rule data_lawsD(3) [OF K])
  moreover have "io_only u (u\<lparr>kst := ?k\<rparr>)" by (simp add: io_only_def)
  ultimately have "reads_queued V s (u\<lparr>kst := ?k\<rparr>) qs" using u by (auto simp: reads_queued_def same_def intro: io_only_trans)
  then show ?thesis by (simp add: ioring_submit_all_reads_def wp_simps)
qed

context data_policy
begin

text \<open>From the point at which the reads are under way.\<close>

lemma prefetch_rest_keeps:
  assumes K: "data_laws K V" and s: "63 \<le> nframes s" and c: "calm V {} s" "can_prefetch V s"
    and ps: "pool_inv (set ps) s2" "distinct ps" "\<forall>p \<in> set ps. inbound s2 p" "length ps \<le> 32"
    and s2: "nframes s2 = nframes s" "\<not> shrinkage_running s2" and pf: "prefetching V s ps (prefetch_buffer (me s)) s2"
  shows "wpE (prefetch_frames P (length ps) s2) (\<lambda>r. wpE (prefetch_finish K ps (prefetch_buffer (me (snd r))) (snd r))
       (\<lambda>s4. wpE (prefetch_map K P (zip ps (fst r)) (prefetch_buffer (me s4)) s4) (\<lambda>s'. keeps V s s') any_error) any_error) any_error"
proof -
  let ?buf = "prefetch_buffer (me s)"
  have bound: "2 * (frames_held (set ps) s2 + length ps) < nframes s2 + 2"
    using frames_held_inbound [OF ps(3)] ps(4) s s2 by simp
  have c2: "calm V (set ps) s2"
    using c(1) pf ps(3) by (simp add: calm_def prefetching_def intact_def distinct_vas_def inbound_def on_disk_def)
  show ?thesis
  proof (rule wpE_mono [OF wpE_conj [OF frames_wp [OF ps(1) s2(2) bound] frames_keeps [OF K ps(1) s2(2) bound c2]]], goal_cases)
    case (1 r)
    obtain fps s3 where r: "r = (fps, s3)" by (cases r)
    have f: "pool_inv (set ps \<union> set fps) s3" "distinct fps" "set ps \<inter> set fps = {}" "\<forall>p \<in> set fps. vacant s3 p"
      "length ps = length fps" and p3: "pres (set ps) s2 s3" and k3: "keeps V s2 s3" using 1 by (auto simp: r)
    have pf3: "prefetching V s ps ?buf s3" by (rule prefetching_keeps [OF pf k3 p3])
    have inb3: "\<forall>p \<in> set ps. inbound s3 p" using ps(3) inbound_pres [OF _ p3] by blast
    have c3: "calm V (set ps \<union> set fps) s3"
      using calm_keeps [OF c2 k3 p3] f(4) by (auto simp: calm_def vacant_def)
    have b3: "prefetch_buffer (me s3) = ?buf" "queued V (kst s3) (Io_read_ring (cur s3)) = batch_reads (heap s3) ps ?buf"
      using pf3 by (simp_all add: prefetching_def)
    have len: "length ps = length (batch_reads (heap s3) ps ?buf)" by (simp add: batch_reads_nth)
    show ?case unfolding r fst_conv snd_conv b3(1)
    proof (rule wpE_mono [OF prefetch_finish_data [OF K b3(2) batch_reads_one_way [OF ps(4)] len]], goal_cases)
      case (1 s4)
      then obtain k where k: "s4 = s3\<lparr>kst := k\<rparr>" "all_done V False (Io_read_ring (cur s3)) (set (batch_reads (heap s3) ps ?buf)) (kst s3) k" by blast
      note d = prefetching_done [OF pf3 c(2) ps(4) k(2), folded k(1)]
      have u: "prefetch_buffer (me s4) = ?buf" "pool_inv (set ps \<union> set fps) s4" "\<forall>p \<in> set ps. inbound s4 p" "\<forall>p \<in> set fps. vacant s4 p"
        using b3(1) f inb3 by (simp_all add: k(1) inbound_def on_disk_def vacant_def)
      have q: "queued V (kst s4) = queued V (kst s)" using d(2) by (simp add: keeps_def settled_def)
      have c4: "calm V (set ps \<union> set fps) s4"
        using c3 c(1) pf3 unfolding calm_def q by (simp add: k(1) distinct_vas_def prefetching_def)
      show ?case unfolding u(1)
        by (rule wpE_mono [OF map_keeps [OF K f(5) u(2) ps(2) f(2,3) u(3,4) c4 d(1)]]) (use keeps_trans [OF d(2)] in auto)
    qed simp
  qed simp
qed

lemma prefetch_keeps:
  assumes K: "data_laws K V" and s: "pool_inv {} s" "index_inv s" "\<not> shrinkage_running s" "63 \<le> nframes s" and b: "b \<noteq> 0"
    and c: "calm V {} s" "can_prefetch V s"
  shows "wpE (core_try_prefetch K P b s) (\<lambda>r. keeps V s (snd r)) any_error"
  unfolding core_try_prefetch_def wpE_bindE wpE_assertE
proof (intro conjI impI wpE_mono [OF wpE_conj [OF collect_wp [OF s(1,2)] collect_quiet [OF K quiet_refl]]], goal_cases)
  case (2 r)
  obtain ps s1 where r: "r = (ps, s1)" by (cases r)
  have c1: "pool_inv (set ps) s1" "distinct ps" "\<forall>p \<in> set ps. inbound s1 p" "length ps \<le> 32" and p1: "pres {} s s1" and q1: "quiet V s s1"
    using 2 by (auto simp: r CORE_PREFETCH_RATE_def)
  have k1: "keeps V s s1" by (rule quiet_keeps [OF q1 presD(2) [OF p1]])
  have b1: "prefetch_buffer (me s1) = prefetch_buffer (me s)" "prefetch_buffer_allocated (me s1)"
    using k1 presD(1) [OF p1] c(2) by (simp_all add: keeps_def settled_def env_def tls_le_def can_prefetch_def)
  have go: "wpE (prefetch_frames P (length ps) s2) (\<lambda>r. wpE (prefetch_finish K ps (prefetch_buffer (me (snd r))) (snd r))
       (\<lambda>s4. wpE (prefetch_map K P (zip ps (fst r)) (prefetch_buffer (me s4)) s4) (\<lambda>s'. keeps V s s') any_error) any_error) any_error"
    if rq: "reads_queued V s1 s2 (batch_reads (heap s1) ps (prefetch_buffer (me s)))" for s2
  proof -
    have io: "io_only s1 s2" using rq by (simp add: reads_queued_def)
    have p2: "pres (set ps) s1 s2" "pool_inv (set ps) s2" using io_pres [OF io, of "set ps" "set ps"] c1(1) by auto
    show ?thesis
    proof (rule prefetch_rest_keeps [OF K s(4) c p2(2) c1(2) _ c1(4) _ _ reads_prefetching [OF rq k1 c(2) refl]])
      show "\<forall>p \<in> set ps. inbound s2 p" using c1(3) inbound_pres [OF _ p2(1)] by blast
      show "nframes s2 = nframes s" "\<not> shrinkage_running s2"
        using pres_size [OF p1] pres_size [OF p2(1)] pres_scan [OF p2(1) pres_scan [OF p1 s(3)]] by auto
    qed
  qed
  show ?case unfolding r prod.case wpE_bindE
    using b1 by (simp add: alloc_prefetch_buffer_def wp_simps case_prod_beta)
      (intro wpE_mono [OF prefetch_prepare_data [OF K]] wpE_mono [OF submit_reads_data [OF K]] go; simp)
qed (use b in simp_all)

end


section \<open>Major faults\<close>

text \<open>What the running thread needs for the handler: idle rings and its two buffers.\<close>

definition thread_ready :: "('k, 'd) view \<Rightarrow> 'k ext \<Rightarrow> bool" where
  "thread_ready V s \<longleftrightarrow> queued V (kst s) (Io_ring (cur s)) = [] \<and> can_read V s \<and> can_prefetch V s"

lemma thread_ready_calm: "thread_ready V s \<Longrightarrow> index_inv s \<Longrightarrow> calm V {} s"
  by (simp add: thread_ready_def calm_def index_distinct)

lemma thread_ready_keeps: "thread_ready V s \<Longrightarrow> keeps V s s' \<Longrightarrow> env s s' \<Longrightarrow> thread_ready V s'"
  by (auto simp: thread_ready_def keeps_def settled_def can_read_def can_prefetch_def env_def tls_le_def)

lemma quiet_thread [simp]:
  "quiet V s (set_internal b u) = quiet V s u"
  "quiet V s (upd_me (\<lambda>t. t\<lparr>prev_fault_2 := f t, prev_fault_1 := g t\<rparr>) u) = quiet V s u"
  by (auto simp: quiet_def settled_def set_internal_def upd_me_def)

lemma npool_thread [simp]: "npool (upd_me f s) = npool s" "npool (unlock m s) = npool s" "npool (count_wait s) = npool s"
  by (simp_all add: npool_def upd_me_def unlock_def count_wait_def)

lemma quiet_unlock [simp]: "quiet V s (unlock m u) = quiet V s u"
  by (simp add: quiet_def settled_def unlock_def)

context data_policy
begin

lemma missing_fault_keeps:
  assumes K: "data_laws K V" and s: "sys_inv {} s" "63 \<le> nframes s" and p: "p \<in> tracked s" "va (heap s p) \<noteq> 0" and r: "thread_ready V s"
  shows "wpE (handle_missing_fault K P p s) (\<lambda>s'. keeps V s s') any_error"
proof -
  let ?b = "va (heap s p)" and ?s = "set_internal True s"
  note tp = tracked_page [OF sys_invD(1,2) [OF s(1)] p]
  have h: "\<not> held s Handler_lock" by (rule pool_invD(2) [OF sys_invD(1) [OF s(1)]])
  show ?thesis
  proof (cases "swapped_out (heap s p)")
    case False
    then show ?thesis using tp h
      by (simp add: handle_missing_fault_def wp_simps busy_wait_def Let_def) (intro impI quiet_keeps, simp_all add: count_wait_def)
  next
    case True
    define w where "w = upd_me (\<lambda>t. t\<lparr>prev_fault_2 := prev_fault_1 t, prev_fault_1 := ?b\<rparr>) (mark p ?s)"
    have w: "heap w = heap (mark p s)" "lists w = lists s" "held w = held s" "dramsize w = dramsize s" "disksize w = disksize s"
      "shrinkage_running w = shrinkage_running s" by (simp_all add: w_def upd_me_def) (simp add: upd_page_def)
    have pw: "pres {} s w"
      using tp(1) by (simp add: w_def pres_def env_def upd_me_def upd_page_def set_internal_def tls_le_upd)
    have kw: "keeps V s w" by (rule quiet_keeps) (simp_all add: w_def)
    have ca: "can_alloc {} w" using w s(2) sys_invD(4) [OF s(1)] by (simp add: can_alloc_def frames_held_def nframes_def)
    have iw: "pool_inv {} (unmark p w)" using unmark_internal [OF w(1-5)] tp(2,6) sys_invD(1) [OF s(1)] by (simp add: tp(2))
    have lw: "page_list w p = Some Disk_active_list" using w(2) tp(5) True by simp
    have rw: "thread_ready V w" by (rule thread_ready_keeps [OF r kw presD(1) [OF pw]])
    have cw: "calm V {} w" by (rule thread_ready_calm [OF rw index_inv_pres [OF sys_invD(2) [OF s(1)] pw]])
    have tail: "wpE (core_try_prefetch K P ?b (count g (settle p x))) (\<lambda>r. keeps V s (snd r)) any_error"
      "keeps V s (count g (settle p x))"
      if x: "pool_inv {} (settle p x)" "pres {} s (settle p x)" "keeps V s x" for x g
    proof -
      let ?u = "count g (settle p x)"
      have u: "pool_inv {} ?u" "pres {} s ?u" using x by simp_all
      have "keeps V x ?u" by (rule quiet_keeps) simp_all
      then show k: "keeps V s ?u" by (rule keeps_trans [OF x(3)])
      have su: "sys_inv {} ?u" by (rule sys_inv_pres [OF s(1) u])
      have ru: "thread_ready V ?u" by (rule thread_ready_keeps [OF r k presD(1) [OF u(2)]])
      show "wpE (core_try_prefetch K P ?b ?u) (\<lambda>r. keeps V s (snd r)) any_error"
        by (rule wpE_mono [OF prefetch_keeps [OF K sys_invD(1,2,4) [OF su] _ p(2) thread_ready_calm [OF ru sys_invD(2) [OF su]]]])
           (use s(2) pres_size [OF u(2)] ru keeps_trans [OF k] in \<open>auto simp: thread_ready_def\<close>)
    qed
    have run: "wpE (page_swapin_external_async P p w) (\<lambda>x. va (heap x p) = ?b \<and> \<not> held x Handler_lock \<and>
        pool_inv {} (settle p x) \<and> pres {} s (settle p x) \<and> keeps V s x) any_error"
    proof (rule wpE_mono [OF wpE_conj [OF swapin_law [OF iw lw ca] swapin_data [OF K iw lw cw _ ca]]], goal_cases)
      case (2 x)
      then have "pres {} s (settle p x)" using pw pres_trans by blast
      then show ?case using 2 keeps_trans [OF kw] presD(3) [of "{}" s "settle p x" p] pool_invD(2) [of "{}" "settle p x"] by simp
    qed (use rw in \<open>auto simp: thread_ready_def\<close>)
    have fin: "keeps V s (set_internal False u)" if "keeps V s u" for u
      by (rule keeps_trans [OF that quiet_keeps]) simp_all
    have "unlock Handler_lock (mark p (?s\<lparr>held := (held s)(Handler_lock := True)\<rparr>)) = mark p ?s"
      using h by (simp add: unlock_def upd_page_def fun_upd_idem)
    then show ?thesis using True tp(2,3) h p(2)
      by (simp add: handle_missing_fault_def wp_simps page_aligned_def w_def [symmetric])
         (rule wpE_mono [OF run]; auto simp: unlock_upd_page wp_simps case_prod_beta intro!: fin tail(2) wpE_mono [OF tail(1)])
  qed
qed

end


section \<open>First faults and the signal handler\<close>

text \<open>
  A first fault maps one more page, at \<open>b\<close>; the pages that were mapped stay as they are, and the new one holds what is
  at \<open>zeros V\<close>.
\<close>

definition carries :: "('k, 'd) view \<Rightarrow> u64 \<Rightarrow> 'k ext \<Rightarrow> 'k ext \<Rightarrow> bool" where
  "carries V b s s' \<longleftrightarrow> settled V s s' \<and> npool s' = npool s \<and> (synced V s \<longrightarrow> synced V s' \<and>
     (\<forall>p < npool s. va (heap s p) \<noteq> 0 \<longrightarrow> va (heap s' p) = va (heap s p) \<and> content V s' p = content V s p) \<and>
     (spare V s \<and> b \<noteq> zeros V \<longrightarrow> spare V s' \<and> mem V (kst s') (zeros V) = mem V (kst s) (zeros V) \<and>
       (\<forall>p < npool s. va (heap s p) = 0 \<longrightarrow> va (heap s' p) \<noteq> 0 \<longrightarrow> content V s' p = mem V (kst s) (zeros V))))"

lemma keeps_carries: "keeps V s s' \<Longrightarrow> carries V b s s'"
  by (simp add: keeps_def carries_def kept_def zero_kept_def)

lemma carries_trans [trans]:
  assumes "carries V b s s'" "carries V b s' s''"
  shows "carries V b s s''"
proof -
  have "va (heap s p) = 0 \<Longrightarrow> va (heap s'' p) \<noteq> 0 \<Longrightarrow> content V s'' p = mem V (kst s) (zeros V)"
    if "synced V s" "spare V s" "b \<noteq> zeros V" "p < npool s" for p
    using assms that unfolding carries_def by metis
  then show ?thesis using assms settled_trans [of V s s' s''] by (simp add: carries_def)
qed

definition fresh_page :: "('k, 'd) view \<Rightarrow> page_ptr \<Rightarrow> u64 \<Rightarrow> 'k ext \<Rightarrow> 'k ext \<Rightarrow> bool" where
  "fresh_page V p b s s' \<longleftrightarrow> settled V s s' \<and> npool s' = npool s \<and> disk V (kst s') = disk V (kst s) \<and>
     (\<forall>a. a \<noteq> b \<longrightarrow> mem V (kst s') a = mem V (kst s) a \<and> base V (kst s') a = base V (kst s) a) \<and>
     (page_cache s = zeros V \<longrightarrow> mem V (kst s') b = mem V (kst s) (zeros V)) \<and>
     (\<forall>q. whereabouts (heap s' q) = whereabouts (if q = p then (heap s p)\<lparr>va := b\<rparr> else heap s q))"

lemma fresh_page_carries:
  assumes f: "fresh_page V p b s s'" and p: "vacant s p" and b: "\<forall>q < npool s. va (heap s q) \<noteq> b"
  shows "carries V b s s'"
proof -
  have h: "in_dram (heap s' q) = in_dram (heap s q)" "virtual_offset (heap s' q) = virtual_offset (heap s q)"
    "va (heap s' q) = (if q = p then b else va (heap s q))" "has_reserve (heap s' q) = has_reserve (heap s q)"
    "reserve (heap s' q) = reserve (heap s q)" for q
    using f [unfolded fresh_page_def] by (auto simp: whereabouts_def split: if_splits)
  have n: "npool s' = npool s" "settled V s s'" "disk V (kst s') = disk V (kst s)" using f by (simp_all add: fresh_page_def)
  have m: "mem V (kst s') (va (heap s q)) = mem V (kst s) (va (heap s q))" "base V (kst s') (va (heap s q)) = base V (kst s) (va (heap s q))"
    if "q < npool s" for q using f b that by (simp_all add: fresh_page_def)
  have "synced V s'" if "synced V s"
    unfolding synced_def
  proof (intro allI impI, goal_cases)
    case (1 q d)
    then have q: "q \<noteq> p" using p h(4) by (auto simp: vacant_def)
    have "disk V (kst s) (virtual_offset (heap s d)) = base V (kst s) (va (heap s q))"
      using that [unfolded synced_def, rule_format, of q d] 1 q h n(1) by simp
    then show ?case using 1 q h n m(2) [of q] by simp
  qed
  moreover have "va (heap s' q) = va (heap s q) \<and> content V s' q = content V s q" if "q < npool s" "va (heap s q) \<noteq> 0" for q
    using that p h n m by (auto simp: vacant_def content_def)
  moreover have "spare V s'" "mem V (kst s') (zeros V) = mem V (kst s) (zeros V)" if "spare V s" "b \<noteq> zeros V"
    using that f n h(3) by (auto simp: spare_def settled_def fresh_page_def)
  moreover have "content V s' q = mem V (kst s) (zeros V)" if "spare V s" "va (heap s q) = 0" "va (heap s' q) \<noteq> 0" for q
    using that f p h by (auto simp: spare_def fresh_page_def content_def vacant_def split: if_splits)
  ultimately show ?thesis using n by (simp add: carries_def)
qed

lemma fresh_page_quiet: "fresh_page V p b s w \<Longrightarrow> quiet V w u \<Longrightarrow> npool u = npool w \<Longrightarrow> fresh_page V p b s u"
  by (simp add: fresh_page_def quiet_def same_def settled_def)

lemma add_page_frame: "wpE (add_page p s) (\<lambda>s'. \<exists>t h. s' = s\<lparr>pages := t, held := h\<rparr>) any_error"
proof -
  have "\<exists>t' h'. unlock Pages_lock (s\<lparr>held := h, pages := t\<rparr>) = s\<lparr>pages := t', held := h'\<rparr>" for t h
    by (intro exI [of _ t] exI [of _ "h(Pages_lock := False)"]) (simp add: unlock_def)
  then show ?thesis by (simp add: add_page_def wp_simps) (simp add: wpE_def split: sum.split)
qed

lemma whereabouts_flags [simp]:
  "whereabouts (h\<lparr>migrating := m\<rparr>) = whereabouts h" "whereabouts (h\<lparr>swapped_out := m\<rparr>) = whereabouts h"
  by (simp_all add: whereabouts_def)

context data_policy
begin

lemma first_fault_carries:
  assumes K: "data_laws K V" and s: "sys_inv {} s" "0 < nframes s" and b: "b \<noteq> 0" and r: "thread_ready V s"
  shows "wpE (handle_first_fault K P b s) (carries V b s) any_error"
proof -
  let ?s = "set_internal True s"
  have s0: "sys_inv {} ?s" by (rule sys_inv_internal [OF s(1)])
  have k0: "keeps V s ?s" by (rule quiet_keeps) simp_all
  have c0: "calm V {} ?s" using thread_ready_calm [OF r sys_invD(2) [OF s(1)]] by (simp add: calm_def distinct_vas_def)
  have ca: "can_alloc {} ?s" using sys_invD [OF s0] s(2) by (simp add: can_alloc_def frames_held_def nframes_def)
  show ?thesis
    unfolding handle_first_fault_def Let_def wpE_bindE wpE_assertE
  proof (intro conjI impI b wpE_mono [OF wpE_conj [OF pagefault_law [OF sys_invD(1) [OF s0] ca] pagefault_data [OF K sys_invD(1) [OF s0] c0]]];
      (simp add: b; fail)?; (assumption)?; goal_cases)
    case (1 r)
    obtain p s1 where r: "r = (p, s1)" by (cases r)
    then have f: "vacant s1 p" and pr: "pres {} ?s s1" and k1: "keeps V s s1" and bp: "pt (heap s1 p) = BASEP"
      using 1 keeps_trans [OF k0] by (auto simp: free_frame_def vacant_def pool_inv_def)
    have i1: "index_inv s1" by (rule index_inv_pres [OF sys_invD(2) [OF s0] pr])
    have fin: "wpE (policy_add_page P p w) (\<lambda>u. carries V b s (set_internal False (count g u))) any_error"
      if w: "fresh_page V p b s1 w" and nb: "\<forall>q < npool s1. va (heap s1 q) \<noteq> b" for w g
    proof (rule wpE_mono [OF add_data [OF K]], goal_cases)
      case (1 u)
      then have "fresh_page V p b s1 (set_internal False (count g u))" by (intro fresh_page_quiet [OF w]) simp_all
      then show ?case using carries_trans [OF keeps_carries [OF k1] fresh_page_carries [OF _ f nb]] by blast
    qed simp
    let ?l = "s1\<lparr>held := (held s1)(Allocator_lock := True)\<rparr>"
    have il: "index_inv ?l" by (rule index_inv_cong [OF i1]) simp_all
    have copy: "fresh_page V p b s1 w"
      if "fst (k_uffd_copy K b (page_cache s1) PAGE_SIZE (kst s1))" "kst w = snd (k_uffd_copy K b (page_cache s1) PAGE_SIZE (kst s1))" "cur w = cur s1"
        "same_buffers s1 w" "npool w = npool s1" "heap w = (heap s1)(p := (heap s1 p)\<lparr>va := b, migrating := False, swapped_out := False\<rparr>)" for w
    proof -
      have "page_cache s1 = zeros V \<longrightarrow> mem V (kst w) b = mem V (kst s1) (zeros V)" using data_copy(1) [OF K that(1)] that(2) by auto
      then show ?thesis using data_copy [OF K that(1)] that(2-) unfolding fresh_page_def settled_def
        by (intro conjI; (assumption)?; simp)
    qed
    have new: "va (heap s1 p) = 0" "in_dram (heap s1 p)" using f by (simp_all add: vacant_def)
    show ?case
      unfolding r prod.case wpE_bindE wpE_lock
    proof (intro conjI impI index_find_wp [OF il], goal_cases)
      case (2 x)
      show ?case
      proof (cases x)
        case None
        then have nb: "\<forall>q < npool s1. va (heap s1 q) \<noteq> b" using i1 2 b by (auto simp: index_inv_def)
        show ?thesis using None b new
          by (simp add: wp_simps) (intro impI wpE_mono [OF add_page_frame];
              auto simp: wp_simps bp note_fault_def upd_me_def upd_page_def unlock_def npool_def intro!: fin [OF _ nb] copy)
      next
        case (Some q)
        let ?u = "unlock Allocator_lock ?l"
        have "carries V b s x" if "quiet V ?u x" "npool x = npool ?u" for x
        proof -
          have "quiet V s1 ?u" by simp
          from quiet_trans [OF this that(1)] have "keeps V s1 x" using that(2) by (intro quiet_keeps) simp_all
          then show ?thesis using keeps_trans [OF k1] by (intro keeps_carries) blast
        qed
        then show ?thesis using Some by (simp add: wp_simps) (rule wpE_mono [OF put_data [OF K]]; simp add: busy_wait_def wp_simps)
      qed
    qed simp
  qed
qed

lemma sig_handler_carries:
  assumes K: "data_laws K V" and s: "sys_inv {} s" "63 \<le> nframes s" and c: "code \<noteq> SIGSEGV"
    and b: "b = a AND NOT (PAGE_SIZE - 1)" "b \<noteq> 0" and r: "thread_ready V s"
  shows "wpE (uswap_sig_handler K P code a s) (carries V b s) any_error"
proof -
  let ?s = "set_internal True s"
  have s0: "sys_inv {} ?s" "63 \<le> nframes ?s" using sys_inv_internal [OF s(1)] s(2) by (simp_all add: nframes_def)
  have k0: "keeps V s ?s" by (rule quiet_keeps) simp_all
  have r0: "thread_ready V ?s" by (rule thread_ready_keeps [OF r k0]) (simp add: env_def set_internal_def tls_le_upd upd_me_def)
  have fin: "carries V b s (set_internal False u)" if "carries V b ?s u" for u
  proof -
    have "keeps V u (set_internal False u)" by (rule quiet_keeps) simp_all
    then show ?thesis using carries_trans [OF carries_trans [OF keeps_carries [OF k0] that] keeps_carries] by blast
  qed
  have "wpE (find_page b ?s) (\<lambda>r. wpE (case fst r of None \<Rightarrow> handle_first_fault K P b (snd r)
     | Some page \<Rightarrow> if swapped_out (heap (snd r) page) then handle_missing_fault K P page (snd r) else handle_wp_fault page (snd r))
     (carries V b ?s) any_error) any_error"
  proof (rule index_find_wp [OF sys_invD(2) [OF s0(1)]], goal_cases)
    case (1 r)
    show ?case
    proof (cases r)
      case None
      moreover have "0 < nframes ?s" using s0(2) by simp
      ultimately show ?thesis using first_fault_carries [OF K s0(1) _ b(2) r0] by simp
    next
      case (Some p)
      then have p: "p \<in> tracked ?s" "va (heap ?s p) = b" using 1 [of p] by simp_all
      have "wpE (handle_missing_fault K P p ?s) (carries V b ?s) any_error"
        by (rule wpE_mono [OF missing_fault_keeps [OF K s0 p(1) _ r0]]) (use p(2) b(2) keeps_carries in auto)
      moreover have "carries V b ?s (count_wait ?s)" by (intro keeps_carries quiet_keeps) simp_all
      ultimately show ?thesis using Some by (simp add: handle_wp_fault_run [OF s0(1) p(1)] wp_simps)
    qed
  qed
  then show ?thesis using c unfolding uswap_sig_handler_def Let_def b(1) [symmetric]
    by (simp add: wpE_bindE wpE_assertE wpE_Inr case_prod_beta) (erule wpE_mono; auto elim!: wpE_mono intro: fin)
qed

end

end
