(* ===== verification/Contents_Vector.thy ===== *)
theory Contents_Vector
  imports Contents_Swapin Contents_Requests Disklinux_Vector
begin

text \<open>
  The contents of pages through the vector worker. It starts all writes of a batch before it waits for any, and the
  completions may arrive in any order; the pages are dropped from memory only when all of them have arrived.
\<close>

section \<open>A batch of writes\<close>

text \<open>The writes that a batch needs, in the order in which they are prepared.\<close>

fun batch_writes :: "(page_ptr \<Rightarrow> user_page) \<Rightarrow> eviction list \<Rightarrow> request list" where
  "batch_writes h [] = []"
| "batch_writes h ((v, d, wb) # xs) =
     (if wb then Write_from (va (h v)) (virtual_offset (h d)) # batch_writes h xs else batch_writes h xs)"

lemma prepare_write_data:
  assumes K: "data_laws K V"
  shows "wpE (ioring_prepare_write K fd off b PAGE_SIZE s) (\<lambda>s'. io_only s s' \<and> same_buffers s s' \<and>
     mem V (kst s') = mem V (kst s) \<and> base V (kst s') = base V (kst s) \<and> disk V (kst s') = disk V (kst s) \<and>
     queued V (kst s') = (queued V (kst s))(Io_ring (cur s) := queued V (kst s) (Io_ring (cur s)) @ [Write_from b off])) any_error"
proof -
  have "wpE (ioring_prepare_write K fd off b PAGE_SIZE s) (\<lambda>s'. same_buffers s s' \<and>
     mem V (kst s') = mem V (kst s) \<and> base V (kst s') = base V (kst s) \<and> disk V (kst s') = disk V (kst s) \<and>
     queued V (kst s') = (queued V (kst s))(Io_ring (cur s) := queued V (kst s) (Io_ring (cur s)) @ [Write_from b off])) any_error"
    using data_lawsD(1,2) [OF K] data_prep_write [OF K]
    by (simp add: ioring_prepare_write_def thread_init_iouring_def wp_simps kdo_def upd_me_def same_def)
  from wpE_conj [OF ioring_io(5) this] show ?thesis by (rule wpE_mono) auto
qed

definition writes_queued :: "('k, 'd) view \<Rightarrow> 'k ext \<Rightarrow> 'k ext \<Rightarrow> request list \<Rightarrow> bool" where
  "writes_queued V s s' qs \<longleftrightarrow> io_only s s' \<and> same_buffers s s' \<and>
     mem V (kst s') = mem V (kst s) \<and> base V (kst s') = base V (kst s) \<and> disk V (kst s') = disk V (kst s) \<and>
     queued V (kst s') = (queued V (kst s))(Io_ring (cur s) := queued V (kst s) (Io_ring (cur s)) @ qs)"

lemma writes_queued_Nil [simp]: "writes_queued V s s []"
  by (simp add: writes_queued_def)

lemma writes_queued_trans:
  assumes "writes_queued V s s' qs" "writes_queued V s' s'' rs"
  shows "writes_queued V s s'' (qs @ rs)"
proof -
  have "cur s' = cur s" using assms(1) by (auto simp: writes_queued_def elim!: io_onlyE)
  then show ?thesis using assms io_only_trans [of s s' s''] by (simp add: writes_queued_def)
qed

lemma prepare_writes_data:
  assumes K: "data_laws K V"
  shows "wpE (prepare_writes K xs s) (\<lambda>r. fst r = length (batch_writes (heap s) xs) \<and> writes_queued V s (snd r) (batch_writes (heap s) xs)) any_error"
proof (induction xs arbitrary: s)
  case (Cons x xs)
  obtain v d wb where x: "x = (v, d, wb)" by (cases x)
  show ?case
  proof (cases wb)
    case True
    have "wpE (ioring_prepare_write K fd (virtual_offset (heap s d)) (va (heap s v)) PAGE_SIZE s)
       (\<lambda>u. wpE (prepare_writes K xs u) (\<lambda>r. Suc (fst r) = length (batch_writes (heap s) (x # xs)) \<and>
          writes_queued V s (snd r) (batch_writes (heap s) (x # xs))) any_error) any_error" for fd
    proof (rule wpE_mono [OF prepare_write_data [OF K]], goal_cases)
      case (1 u)
      then have u: "writes_queued V s u [Write_from (va (heap s v)) (virtual_offset (heap s d))]" "heap u = heap s"
        by (auto simp: writes_queued_def elim!: io_onlyE)
      show ?case
        by (rule wpE_mono [OF Cons.IH]) (use True x u writes_queued_trans [OF u(1)] in auto)
    qed simp
    then show ?thesis using True x by (simp add: wp_simps case_prod_beta)
  qed (use x Cons.IH [of s] in \<open>simp add: wp_simps\<close>)
qed (simp add: wp_simps)

text \<open>Waiting for as many completions as there are writes leaves every slot written.\<close>

lemma finish_writes_data:
  assumes K: "data_laws K V" and q: "queued V (kst s) (Io_ring (cur s)) = qs" "one_way True qs"
  shows "wpE (finish_writes K (length qs) s) (\<lambda>s'. \<exists>k. s' = s\<lparr>kst := k\<rparr> \<and> all_done V True (Io_ring (cur s)) (set qs) (kst s) k) any_error"
proof (rule wait_all [where W = "\<lambda>n s Q. wpE (finish_writes K n s) Q any_error", OF K _ _ _ refl q], goal_cases)
  case (3 n u Q)
  then show ?case by (simp add: ioring_finish_write_def wp_simps kdo_def)
qed (auto simp: wp_simps elim: wpE_mono)

lemma drop_mappings_data:
  assumes K: "data_laws K V"
  shows "wpE (drop_mappings K xs s) (\<lambda>s'. \<exists>k. s' = s\<lparr>kst := k\<rparr> \<and> disk V k = disk V (kst s) \<and> queued V k = queued V (kst s) \<and>
     (\<forall>c. c \<notin> (\<lambda>v. va (heap s v)) ` set (victims xs) \<longrightarrow> mem V k c = mem V (kst s) c \<and> base V k c = base V (kst s) c)) any_error"
proof (induction xs arbitrary: s)
  case (Cons x xs)
  obtain v d wb where x: "x = (v, d, wb)" by (cases x)
  let ?k = "snd (k_madvise_dontneed K (va (heap s v)) PAGE_SIZE (kst s))"
  have "wpE (drop_mappings K xs (s\<lparr>kst := ?k\<rparr>)) (\<lambda>s'. \<exists>k. s' = s\<lparr>kst := k\<rparr> \<and> disk V k = disk V (kst s) \<and> queued V k = queued V (kst s) \<and>
     (\<forall>c. c \<notin> (\<lambda>v. va (heap s v)) ` set (victims (x # xs)) \<longrightarrow> mem V k c = mem V (kst s) c \<and> base V k c = base V (kst s) c)) any_error"
    if "fst (k_madvise_dontneed K (va (heap s v)) PAGE_SIZE (kst s))"
    by (rule wpE_mono [OF Cons.IH]) (use data_madvise [OF K that] x in auto)
  then show ?case unfolding x by (simp add: wp_simps)
next
  case Nil
  show ?case by (auto simp: wp_simps intro!: exI [of _ "kst s"])
qed


section \<open>Migration and filing of a batch\<close>

text \<open>The rest of the migration and the filing are not calls of the kernel.\<close>

definition internal :: "'k ext \<Rightarrow> 'k ext \<Rightarrow> bool" where
  "internal s s' \<longleftrightarrow> kst s' = kst s \<and> cur s' = cur s \<and> page_cache s' = page_cache s \<and> tls s' = tls s"

lemma internal_trans [trans]: "internal s s' \<Longrightarrow> internal s' s'' \<Longrightarrow> internal s s''"
  by (simp add: internal_def)

lemma internal_parts: "parts s' = parts s \<Longrightarrow> internal s s'"
  by (simp add: internal_def parts_def)

lemma move_to_disk_internal: "internal s (move_to_disk xs s)"
proof (induction xs arbitrary: s)
  case (Cons x xs)
  obtain v d wb where x: "x = (v, d, wb)" by (cases x)
  show ?case unfolding x move_to_disk.simps Let_def
    by (rule internal_trans [OF _ Cons.IH]) (simp add: internal_def)
qed (simp add: internal_def)

lemma mark_swapped_out_internal: "wpE (mark_swapped_out xs s) (internal s) any_error"
proof (induction xs arbitrary: s)
  case (Cons x xs)
  obtain v d wb where x: "x = (v, d, wb)" by (cases x)
  show ?case unfolding x
    by (simp add: wp_simps Let_def) (intro impI wpE_mono [OF Cons.IH], simp_all add: internal_def)
qed (simp add: wp_simps internal_def)

lemma file_victim_internal: "wpE (file_victim v d off s) (internal s) any_error"
proof -
  have e: "wpE (enqueue_fifo l p u) (internal s) any_error" if "internal s u" for l p u
    by (rule wpE_mono [OF enqueue_parts]) (use that in \<open>auto intro: internal_trans internal_parts\<close>)
  have r: "wpE (release_victim v u) (internal s) any_error" if "internal s u" for u
    by (rule wpE_mono [OF release_parts]) (use that in \<open>auto simp: internal_def parts_def\<close>)
  have c: "internal s (take_frame d off u)" "internal s (clear_reserves d v (take_frame d off u))" if "internal s u" for u
    using that by (simp_all add: internal_def take_frame_def clear_reserves_def)
  have s: "internal s s" by (simp add: internal_def)
  show ?thesis unfolding file_victim_def wpE_if wpE_Let wpE_bindE wpE_assertE
    by (intro conjI impI TrueI wpE_mono [OF e [OF c(2) [OF s]]] wpE_mono [OF e [OF s]]; (rule wpE_mono [OF e])?; (rule r)?; simp add: c)
qed

lemma file_victims_internal: "wpE (file_victims xs s) (internal s) any_error"
proof (induction xs arbitrary: s)
  case (Cons x xs)
  obtain v d off where x: "x = (v, d, off)" by (cases x)
  show ?case unfolding x file_victims.simps wpE_bindE
    by (rule wpE_mono [OF file_victim_internal], rule wpE_mono [OF Cons.IH]) (auto intro: internal_trans)
qed (simp add: wp_simps internal_def)

text \<open>What the kernel did for a batch: the slots hold the pages, the pages are dropped.\<close>

definition sent_batch :: "('k, 'd) view \<Rightarrow> 'k ext \<Rightarrow> 'k ext \<Rightarrow> eviction list \<Rightarrow> bool" where
  "sent_batch V s s' xs \<longleftrightarrow> settled V s s' \<and>
     (\<forall>q \<in> set (batch_writes (heap s) xs). arrived V (kst s) (kst s') q) \<and>
     (\<forall>off. off \<notin> destination ` set (batch_writes (heap s) xs) \<longrightarrow> disk V (kst s') off = disk V (kst s) off) \<and>
     (\<forall>c. c \<notin> (\<lambda>v. va (heap s v)) ` set (victims xs) \<longrightarrow> mem V (kst s') c = mem V (kst s) c \<and> base V (kst s') c = base V (kst s) c)"

lemma arrived_write: "is_write q \<Longrightarrow> arrived V k1 k1' q \<Longrightarrow> mem V k = mem V k1 \<Longrightarrow> disk V k' = disk V k1' \<Longrightarrow> arrived V k k' q"
  by (cases q) simp_all

lemma batch_is_write: "\<forall>q \<in> set (batch_writes h xs). is_write q"
  by (induction h xs rule: batch_writes.induct) auto

lemma downdisk_vector_data:
  assumes K: "data_laws K V" and r: "queued V (kst s) (Io_ring (cur s)) = []"
    and d: "distinct (map destination (batch_writes (heap s) xs))"
  shows "wpE (extmem_migrate_downdisk_vector K xs s) (\<lambda>s'. sent_batch V s s' xs) any_error"
  unfolding extmem_migrate_downdisk_vector_def wpE_bindE [of "prepare_writes K xs s"] wpE_case_prod
proof (rule wpE_mono [OF prepare_writes_data [OF K]], goal_cases)
  case (1 x)
  let ?qs = "batch_writes (heap s) xs"
  obtain n u where x: "x = (n, u)" by (cases x)
  then have n: "n = length ?qs" and wq: "writes_queued V s u ?qs" using 1 by simp_all
  then obtain ku tu where u: "u = s\<lparr>kst := ku, tls := tu\<rparr>" by (auto simp: writes_queued_def elim!: io_onlyE)
  have q: "queued V ku (Io_ring (cur s)) = ?qs" "queued V ku = (queued V (kst s))(Io_ring (cur s) := ?qs)"
    "mem V ku = mem V (kst s)" "base V ku = base V (kst s)" "disk V ku = disk V (kst s)"
    and sb: "same_buffers s (s\<lparr>tls := tu\<rparr>)"
    using wq r by (simp_all add: writes_queued_def u)
  have tail: "wpE (bindE (drop_mappings K xs w) (\<lambda>s. let s = move_to_disk xs s in bindE (lock Handler_lock s) (\<lambda>s.
      bindE (mark_swapped_out xs s) (\<lambda>s. Inr (unlock Handler_lock s))))) (\<lambda>s'. sent_batch V s s' xs) any_error"
    if w: "w = u\<lparr>kst := kw\<rparr>" "all_done V True (Io_ring (cur s)) (set ?qs) ku' kw" "same V ku ku'" for w kw ku'
    unfolding wpE_bindE [of "drop_mappings K xs w"]
  proof (rule wpE_mono [OF drop_mappings_data [OF K]], goal_cases)
    case (1 y)
    then obtain ky where y: "y = w\<lparr>kst := ky\<rparr>" "disk V ky = disk V kw" "queued V ky = queued V kw"
      "\<forall>c. c \<notin> (\<lambda>v. va (heap s v)) ` set (victims xs) \<longrightarrow> mem V ky c = mem V kw c \<and> base V ky c = base V kw c"
      using w(1) u by auto
    have sent: "sent_batch V s z xs" if "internal y z" for z
    proof -
      have "kst z = ky" "mem V (kst s) = mem V ku'" using that y(1) w(3) q(3) by (simp_all add: internal_def same_def)
      then have "\<forall>x \<in> set ?qs. arrived V (kst s) (kst z) x"
        using arrived_write [of _ V ku' kw "kst s" ky] y(2) w(2) batch_is_write [of "heap s" xs] by (simp add: all_done_def)
      then show ?thesis
        using that y w q r sb by (auto simp: sent_batch_def internal_def settled_def all_done_def same_def u fun_upd_idem)
    qed
    have "internal y ((move_to_disk xs y)\<lparr>held := hl\<rparr>)" for hl using move_to_disk_internal [of y xs] by (simp add: internal_def)
    note mv = this
    show ?case
      by (simp add: wp_simps Let_def)
         (intro impI wpE_mono [OF mark_swapped_out_internal], rule sent, rule internal_trans [OF internal_trans [OF mv]], assumption, simp_all add: internal_def)
  qed simp
  have fin: "wpE (finish_writes K n (u\<lparr>kst := k\<rparr>)) (\<lambda>w. wpE (bindE (drop_mappings K xs w) (\<lambda>s. let s = move_to_disk xs s in bindE (lock Handler_lock s) (\<lambda>s.
      bindE (mark_swapped_out xs s) (\<lambda>s. Inr (unlock Handler_lock s))))) (\<lambda>s'. sent_batch V s s' xs) any_error) any_error"
    if "same V ku k" for k
  proof -
    have "wpE (finish_writes K (length ?qs) (u\<lparr>kst := k\<rparr>)) (\<lambda>s'. \<exists>k'. s' = u\<lparr>kst := k, kst := k'\<rparr> \<and>
        all_done V True (Io_ring (cur (u\<lparr>kst := k\<rparr>))) (set ?qs) (kst (u\<lparr>kst := k\<rparr>)) k') any_error"
      by (rule finish_writes_data [OF K]) (use that q d batch_is_write [of "heap s" xs] in \<open>simp_all add: same_def u one_way_def\<close>)
    then show ?thesis unfolding n by (rule wpE_mono) (use tail that u in auto)
  qed
  show ?case using data_lawsD(3) [OF K, of ku "Io_ring (cur s)"] fin
    by (simp add: x ioring_submit_all_writes_def wpE_bindE wpE_kcall u)
qed simp


section \<open>Contents are kept\<close>

lemma batch_writes_mem: "q \<in> set (batch_writes h xs) \<longleftrightarrow> (\<exists>v d. (v, d, True) \<in> set xs \<and> q = Write_from (va (h v)) (virtual_offset (h d)))"
  by (induction h xs rule: batch_writes.induct) auto

lemma batch_writes_distinct:
  "distinct (targets xs) \<Longrightarrow> inj_on (\<lambda>d. virtual_offset (h d)) (set (targets xs)) \<Longrightarrow> distinct (map destination (batch_writes h xs))"
proof (induction h xs rule: batch_writes.induct)
  case (2 h v d wb xs)
  then have "virtual_offset (h d) \<notin> destination ` set (batch_writes h xs)"
    by (force simp: batch_writes_mem image_iff)
  with 2 show ?case by (auto simp: inj_on_def)
qed simp

text \<open>A page of the batch that is not written is clean and has a reserve.\<close>

definition clean_unless :: "('k, 'd) view \<Rightarrow> 'k ext \<Rightarrow> page_ptr list \<Rightarrow> bool list \<Rightarrow> bool" where
  "clean_unless V s vs wbs \<longleftrightarrow> (\<forall>(v, wb) \<in> set (zip vs wbs). \<not> wb \<longrightarrow>
     has_reserve (heap s v) \<and> mem V (kst s) (va (heap s v)) = base V (kst s) (va (heap s v)))"

lemma batch_slot:
  assumes b: "batch_ready F s vs ds wbs" and i: "i < length vs"
  shows "vs ! i < npool s" "ds ! i < npool s" "slot_for (heap s) (vs ! i) (ds ! i)" "(vs ! i, ds ! i, wbs ! i) \<in> set (zip vs (zip ds wbs))"
    "exchange (zip vs ds) (heap s) (vs ! i) = vic (heap s) (vs ! i) (ds ! i)"
    "exchange (zip vs ds) (heap s) (ds ! i) = fre (heap s) (vs ! i) (ds ! i)"
proof -
  note l = batch_readyD(2,3) [OF b]
  show "vs ! i < npool s" "ds ! i < npool s" using pool_invD(6) [OF batch_readyD(1) [OF b]] i l by auto
  show "slot_for (heap s) (vs ! i) (ds ! i)" using batch_readyD(8) [OF b] i by (simp add: list_all2_conv_all_nth)
  show "(vs ! i, ds ! i, wbs ! i) \<in> set (zip vs (zip ds wbs))" using i l by (force simp: set_zip)
  have "(vs ! i, ds ! i) \<in> set (zip vs ds)" using i l by (force simp: set_zip)
  moreover have "distinct (members (zip vs ds))" using batch_readyD(4-6) [OF b] l by auto
  ultimately show "exchange (zip vs ds) (heap s) (vs ! i) = vic (heap s) (vs ! i) (ds ! i)"
    "exchange (zip vs ds) (heap s) (ds ! i) = fre (heap s) (vs ! i) (ds ! i)" by (simp_all add: exchange_pair)
qed

lemma slot_offsets:
  assumes b: "batch_ready F s vs ds wbs" and i: "i < length vs"
    and p: "p < npool s" "\<not> in_dram (heap s p)" "virtual_offset (heap s p) = virtual_offset (heap s (ds ! i))"
  shows "p = ds ! i"
  using places_differ [OF batch_readyD(1) [OF b] p(1) batch_slot(2) [OF b i]] batch_slot(3) [OF b i] p by (auto simp: slot_for_def)

text \<open>The slot of a page of the batch in the end.\<close>

lemma batch_disk:
  assumes b: "batch_ready F s vs ds wbs" and sb: "sent_batch V s s' (zip vs (zip ds wbs))"
  shows "i < length vs \<Longrightarrow> disk V (kst s') (virtual_offset (heap s (ds ! i))) =
      (if wbs ! i then mem V (kst s) (va (heap s (vs ! i))) else disk V (kst s) (virtual_offset (heap s (ds ! i))))"
    "p < npool s \<Longrightarrow> \<not> in_dram (heap s p) \<Longrightarrow> p \<notin> set ds \<Longrightarrow>
      disk V (kst s') (virtual_offset (heap s p)) = disk V (kst s) (virtual_offset (heap s p))"
proof -
  let ?q = "batch_writes (heap s) (zip vs (zip ds wbs))"
  note l = batch_readyD(2,3) [OF b]
  have mem: "\<exists>j < length vs. wbs ! j \<and> q = Write_from (va (heap s (vs ! j))) (virtual_offset (heap s (ds ! j)))" if "q \<in> set ?q" for q
    using that l by (auto simp: batch_writes_mem set_zip)
  show "disk V (kst s') (virtual_offset (heap s p)) = disk V (kst s) (virtual_offset (heap s p))"
    if p: "p < npool s" "\<not> in_dram (heap s p)" "p \<notin> set ds"
  proof -
    have "virtual_offset (heap s p) \<notin> destination ` set ?q"
      using mem slot_offsets [OF b _ p(1,2)] p(3) l by force
    then show ?thesis using sb by (simp add: sent_batch_def)
  qed
  assume i: "i < length vs"
  let ?o = "virtual_offset (heap s (ds ! i))"
  show "disk V (kst s') ?o = (if wbs ! i then mem V (kst s) (va (heap s (vs ! i))) else disk V (kst s) ?o)"
  proof (cases "wbs ! i")
    case True
    then have "Write_from (va (heap s (vs ! i))) ?o \<in> set ?q" using batch_slot(4) [OF b i] by (force simp: batch_writes_mem)
    then have "arrived V (kst s) (kst s') (Write_from (va (heap s (vs ! i))) ?o)" using sb unfolding sent_batch_def by blast
    with True show ?thesis by simp
  next
    case False
    have "?o \<notin> destination ` set ?q"
    proof
      assume "?o \<in> destination ` set ?q"
      then obtain j where j: "j < length vs" "wbs ! j" "?o = virtual_offset (heap s (ds ! j))" using mem by force
      then have "ds ! i = ds ! j" using slot_offsets [OF b j(1) batch_slot(2) [OF b i]] batch_slot(3) [OF b i] by (simp add: slot_for_def)
      then have "i = j" using batch_readyD(5) [OF b] i j(1) l by (simp add: nth_eq_iff_index_eq)
      with j(2) False show False by simp
    qed
    then show ?thesis using sb False by (simp add: sent_batch_def)
  qed
qed


lemma batch_heap:
  assumes b: "batch_ready F s vs ds wbs" and h: "heap s' = exchange (zip vs ds) (heap s)"
  shows "va (heap s' p) = va (heap s p)" "p \<notin> set vs \<Longrightarrow> p \<notin> set ds \<Longrightarrow> heap s' p = heap s p"
proof -
  note l = batch_readyD(2,3) [OF b]
  show o: "heap s' p = heap s p" if "p \<notin> set vs" "p \<notin> set ds" for p
    using that l exchange_other [of p "zip vs ds" "heap s"] by (simp add: h)
  show "va (heap s' p) = va (heap s p)"
  proof (cases "p \<in> set vs \<or> p \<in> set ds")
    case True
    then obtain i where "i < length vs" "p = vs ! i \<or> p = ds ! i" using l by (auto simp: in_set_conv_nth)
    then show ?thesis using batch_slot(5,6) [OF b] by (auto simp: h vic_def fre_def Let_def)
  qed (use o in simp)
qed

lemma batch_keeps:
  assumes b: "batch_ready F s vs ds wbs" and c: "calm V F s" and cl: "clean_unless V s vs wbs"
    and sb: "sent_batch V s s' (zip vs (zip ds wbs))" and h: "heap s' = exchange (zip vs ds) (heap s)" and n: "npool s' = npool s"
  shows "keeps V s s'"
proof -
  let ?xs = "zip vs (zip ds wbs)"
  note inv = batch_readyD(1) [OF b] and l = batch_readyD(2,3) [OF b] and hp = batch_heap [OF b h] and dk = batch_disk [OF b sb]
  have vic: "victims ?xs = vs" using l by simp
  have vn: "v < npool s" if "v \<in> set vs" for v using pool_invD(6) [OF inv] that by simp
  have mem: "mem V (kst s') (va (heap s p)) = mem V (kst s) (va (heap s p))" "base V (kst s') (va (heap s p)) = base V (kst s) (va (heap s p))"
    if "p < npool s" "p \<notin> set vs" "va (heap s p) \<noteq> 0" for p
  proof -
    have "va (heap s p) \<noteq> va (heap s v)" if "v \<in> set vs" for v
      using c \<open>p < npool s\<close> \<open>p \<notin> set vs\<close> \<open>va (heap s p) \<noteq> 0\<close> vn [OF that] that unfolding calm_def distinct_vas_def by metis
    then have "va (heap s p) \<notin> (\<lambda>v. va (heap s v)) ` set vs" by blast
    then show "mem V (kst s') (va (heap s p)) = mem V (kst s) (va (heap s p))" "base V (kst s') (va (heap s p)) = base V (kst s) (va (heap s p))"
      using sb vic by (simp_all add: sent_batch_def)
  qed
  have ds0: "va (heap s d) = 0" if "d \<in> set ds" for d
    using that batch_slot(3) [OF b] l by (auto simp: in_set_conv_nth slot_for_def)
  have own: "content V s' (vs ! i) = content V s (vs ! i)" if i: "i < length vs" and sy: "synced V s" for i
  proof -
    have v: "in_dram (heap s (vs ! i))" "va (heap s (vs ! i)) \<noteq> 0" using batch_readyD(9) [OF b nth_mem [OF i]] by auto
    have "disk V (kst s) (virtual_offset (heap s (ds ! i))) = mem V (kst s) (va (heap s (vs ! i)))" if "\<not> wbs ! i"
    proof -
      have "(vs ! i, wbs ! i) \<in> set (zip vs wbs)" using i l by (force simp: set_zip)
      then have "has_reserve (heap s (vs ! i))" "mem V (kst s) (va (heap s (vs ! i))) = base V (kst s) (va (heap s (vs ! i)))"
        using cl that by (auto simp: clean_unless_def)
      then show ?thesis using sy v batch_slot(1,3) [OF b i] by (simp add: synced_def slot_for_def)
    qed
    then show ?thesis using dk(1) [OF i] batch_slot(5) [OF b i] v(1) by (auto simp: content_def h vic_def Let_def)
  qed
  have "kept V s s'" if "synced V s" unfolding kept_def
  proof (intro allI impI)
    fix p assume p: "p < npool s" "va (heap s p) \<noteq> 0"
    show "content V s' p = content V s p"
    proof (cases "p \<in> set vs")
      case True
      then show ?thesis using own that by (metis in_set_conv_nth)
    next
      case False
      moreover have "p \<notin> set ds" using p(2) ds0 by auto
      ultimately show ?thesis using hp(2) mem(1) dk(2) p by (simp add: content_def)
    qed
  qed
  moreover have "synced V s'" if "synced V s" unfolding synced_def
  proof (intro allI impI)
    fix p e
    assume p: "p < npool s'" "in_dram (heap s' p)" "va (heap s' p) \<noteq> 0" "has_reserve (heap s' p)" "reserve (heap s' p) = Some e"
    have pv: "p \<notin> set vs" using p(2) batch_slot(5) [OF b] by (auto simp: in_set_conv_nth h vic_def Let_def split: if_splits)
    have pd: "p \<notin> set ds" using p(3) ds0 hp(1) by auto
    note hh = hp(2) [OF pv pd]
    have "p \<notin> set ds \<union> (set vs \<union> F)" using pv pd c p(2,3) hh by (auto simp: calm_def)
    then obtain ll where "page_list s p = Some ll" "fits s ll p" using pool_invD(10) [OF inv] p(1) n by (auto simp: filed_def)
    then have "backed s e p" using p hh by (cases ll) (auto simp: fits_def resident_page_def Let_def)
    then have e: "e \<notin> set vs" "e \<notin> set ds" "e < npool s" "\<not> in_dram (heap s e)"
      using pool_inv_listed [OF inv, of e Disk_reserve_list] by (auto simp: backed_def fits_def Let_def)
    show "disk V (kst s') (virtual_offset (heap s' e)) = base V (kst s') (va (heap s' p))"
      using that p n hh hp(2) [OF e(1,2)] dk(2) [OF e(3,4,2)] mem(2) [of p] pv by (simp add: synced_def)
  qed
  moreover have "zero_kept V s s'"
  proof (rule zero_keptI)
    assume "spare V s"
    then have "va (heap s v) \<noteq> zeros V" if "v \<in> set vs" for v using vn [OF that] by (simp add: spare_def)
    then have "zeros V \<notin> (\<lambda>v. va (heap s v)) ` set vs" by force
    then show "mem V (kst s') (zeros V) = mem V (kst s) (zeros V)" using sb vic by (simp add: sent_batch_def)
  qed (use sb n hp(1) in \<open>simp_all add: sent_batch_def settled_def\<close>)
  ultimately show ?thesis using sb n hp(1) by (simp add: keeps_def sent_batch_def)
qed


section \<open>The vector worker\<close>

lemma protect_victims_data:
  assumes K: "data_laws K V"
  shows "wpE (protect_victims K vs s) (\<lambda>r. quiet V s (snd r) \<and> length (fst r) = length vs \<and>
     clean_unless V s vs (map snd (fst r))) any_error"
proof (induction vs arbitrary: s)
  case (Cons v vs)
  show ?case unfolding protect_victims.simps Let_def wpE_bindE [of "protect_victim K v s"] wpE_case_prod
  proof (rule wpE_mono [OF protect_data [OF K]], goal_cases)
    case (1 r)
    obtain wb u where r: "r = (wb, u)" by (cases r)
    have u: "quiet V s u" using 1 r by (auto simp: quiet_def settled_def whereabouts_def same_def)
    then have e: "has_reserve (heap u w) = has_reserve (heap s w)" "va (heap u w) = va (heap s w)"
      "mem V (kst u) = mem V (kst s)" "base V (kst u) = base V (kst s)" for w
      by (simp_all add: quiet_def whereabouts_def same_def)
    show ?case unfolding r fst_conv snd_conv wpE_bindE wpE_case_prod
      by (rule wpE_mono [OF Cons.IH]) (use 1 r u e in \<open>auto simp: wp_simps clean_unless_def intro: quiet_trans\<close>)
  qed simp
qed (simp add: wp_simps clean_unless_def)

lemma clean_quiet: "quiet V s u \<Longrightarrow> clean_unless V s vs wbs \<Longrightarrow> clean_unless V u vs wbs"
  by (simp add: clean_unless_def quiet_def same_def whereabouts_def split_def)

lemma batch_targets:
  assumes b: "batch_ready F s vs ds wbs"
  shows "distinct (map destination (batch_writes (heap s) (zip vs (zip ds wbs))))"
proof (rule batch_writes_distinct)
  note l = batch_readyD(2,3) [OF b]
  have t: "targets (zip vs (zip ds wbs)) = ds" using l by (auto intro!: nth_equalityI)
  show "distinct (targets (zip vs (zip ds wbs)))" unfolding t by (rule batch_readyD(5) [OF b])
  show "inj_on (\<lambda>d. virtual_offset (heap s d)) (set (targets (zip vs (zip ds wbs))))" unfolding t
  proof (rule inj_onI)
    fix d e assume d: "d \<in> set ds" "e \<in> set ds" "virtual_offset (heap s d) = virtual_offset (heap s e)"
    then obtain i j where "i < length vs" "d = ds ! i" "j < length vs" "e = ds ! j" using l by (auto simp: in_set_conv_nth)
    then show "d = e" using slot_offsets [OF b, of j d] batch_slot(2,3) [OF b, of i] d(3) by (simp add: slot_for_def)
  qed
qed

lemma evict_batch_keeps:
  assumes K: "data_laws K V" and b: "batch_ready F s vs ds wbs" and c: "calm V F s" and cl: "clean_unless V s vs wbs"
  shows "wpE (bindE (extmem_migrate_downdisk_vector K (zip vs (zip ds wbs)) s)
     (file_victims (zip vs (zip ds (map (\<lambda>v. virtual_offset (heap s v)) vs))))) (\<lambda>s'. keeps V s s') any_error"
proof -
  have "wpE (bindE (extmem_migrate_downdisk_vector K (zip vs (zip ds wbs)) s)
     (file_victims (zip vs (zip ds (map (\<lambda>v. virtual_offset (heap s v)) vs))))) (\<lambda>s'. sent_batch V s s' (zip vs (zip ds wbs))) any_error"
    unfolding wpE_bindE
    by (rule wpE_mono [OF downdisk_vector_data [OF K _ batch_targets [OF b]]])
       (use c in \<open>auto simp: calm_def sent_batch_def internal_def settled_def intro!: wpE_mono [OF file_victims_internal]\<close>)
  from wpE_conj [OF this evict_batch_wp [where E = any_error, OF b TrueI]] show ?thesis
    by (rule wpE_mono) (auto intro!: batch_keeps [OF b c cl] dest: presD(2))
qed

lemma evictionworker_vector_keeps:
  assumes K: "data_laws K V" and inv: "pool_inv F s" and c: "calm V F s"
  shows "wpE (lrudisk_evictionworker_vector K s) (\<lambda>s'. keeps V s s') any_error"
proof -
  let ?s = "upd_me (\<lambda>t. t\<lparr>internal_call := True\<rparr>) s"
  have k: "keeps V s ?s" by (rule quiet_keeps) (simp_all add: quiet_def settled_def upd_me_def npool_def)
  have i: "pool_inv F ?s" "calm V F ?s" using inv c by (simp_all add: calm_def upd_me_def distinct_vas_def)
  show ?thesis unfolding lrudisk_evictionworker_vector_def wpE_Let
  proof (rule vector_turn_wp [OF i(1)], goal_cases)
    case (4 vs fs wbs ka ds fs')
    let ?u = "?s\<lparr>lists := fs, heap := protected (set vs) (heap ?s), kst := ka\<rparr>"
    show ?case unfolding Let_def
    proof (intro impI, goal_cases)
      case 1
      from protect_victims_data [OF K, of vs "?s\<lparr>lists := fs\<rparr>"] 1(1) have d: "quiet V ?s ?u"
        "length wbs = length vs" "clean_unless V ?s vs wbs"
        using batch_readyD(2) [OF 1(2)] by (auto simp: wpE_Inr quiet_def settled_def clean_unless_def)
      have q: "quiet V ?s (?u\<lparr>lists := fs'\<rparr>)" using d(1) by (simp add: quiet_def settled_def)
      have kp: "keeps V ?s (?u\<lparr>lists := fs'\<rparr>)" by (rule quiet_keeps [OF q presD(2) [OF 1(3)]])
      show ?case using wpE_mono [OF evict_batch_keeps [OF K 1(2) calm_keeps [OF i(2) kp 1(3)] clean_quiet [OF q d(3)]]]
          keeps_trans [OF keeps_trans [OF k kp]] by simp
    qed
  qed (use k in simp_all)
qed

end
