(* ===== verification/Contents_Policy.thy ===== *)
theory Contents_Policy
  imports Contents_Core Contents_Vector System PageRank_Safe
begin

text \<open>
  The policies keep the contents of pages: the default policy gives the handlers what they rely on, and its
  background threads change the contents of no page either.
\<close>

section \<open>The default policy\<close>

lemma frame_marked_keeps:
  assumes "wpE x (gives_frame V F s) any_error"
  shows "wpE (bindE x (\<lambda>(page, s). Inr (page, mark page s))) (\<lambda>r. keeps V s (snd r)) any_error"
proof -
  have "keeps V s (mark p u)" if "keeps V s u" for p u by (rule keeps_trans [OF that quiet_keeps]) simp_all
  then show ?thesis unfolding wpE_bindE wpE_case_prod by (intro wpE_mono [OF assms]) (auto simp: wp_simps)
qed

lemma pagefault_keeps:
  assumes K: "data_laws K V" and s: "pool_inv F s" "calm V F s"
  shows "wpE (lrudisk_pagefault K s) (\<lambda>r. keeps V s (snd r)) any_error"
  unfolding lrudisk_pagefault_def by (rule frame_marked_keeps [OF fetch_free_keeps [OF K s]])

lemma enqueue_page_quiet: "wpE (enqueue_fifo l p s) (\<lambda>s'. quiet V s s' \<and> npool s' = npool s) any_error"
proof -
  have n: "npool (set_link q f u) = npool u" "npool (set_queue l g u) = npool u" for q f g and u :: "'a ext"
    by (simp_all add: npool_def set_link_def set_queue_def)
  have "wpE (enqueue_fifo l p s) (\<lambda>s'. npool s' = npool s) any_error"
    by (simp add: enqueue_fifo_def wp_simps Let_def n cong: option.case_cong)
  from wpE_conj [OF enqueue_quiet [OF quiet_refl] this] show ?thesis by simp
qed

lemma detach_quiet: "wpE (detach_from l p s) (quiet V s) any_error"
  by (simp add: detach_from_def wp_simps) (intro impI wpE_mono [OF tryremove_parts]; auto simp: case_prod_beta wp_simps intro: quiet_parts)

lemma ack_acked:
  assumes "p \<noteq> fp"
  shows "wpE (lrudisk_ack_swapin p fp s) (\<lambda>s'. acked V s s' p fp) any_error"
  using assms unfolding lrudisk_ack_swapin_def Let_def wpE_bindE wpE_assertE
  by (intro conjI impI TrueI wpE_mono [OF enqueue_parts]) (auto simp: parts_def acked_def settled_def)

text \<open>The operations in which the two policies agree or move no data.\<close>

lemma policy_data:
  "wpE (lrudisk_track_page p s) (\<lambda>s'. quiet V s s' \<and> npool s' = npool s) any_error"
  "wpE (lrudisk_put_page_free p s) (\<lambda>s'. quiet V s s' \<and> npool s' = npool s) any_error"
  "wpE (lrudisk_detach_page p s) (quiet V s) any_error"
  "p \<noteq> fp \<Longrightarrow> wpE (lrudisk_ack_swapin p fp s) (\<lambda>s'. acked V s s' p fp) any_error"
  using enqueue_quiet [where s = s and u = s and V = V] detach_quiet ack_acked
  by (simp_all add: lrudisk_track_page_def lrudisk_put_page_free_def lrudisk_detach_page_def wpE_bindE wpE_assertE enqueue_page_quiet)

lemma ack_vma_quiet: "quiet V s (lrudisk_ack_vma a len priority s)" "quiet V s (pr_ack_vma a len priority s)"
  by (simp_all add: lrudisk_ack_vma_def pr_ack_vma_def quiet_def settled_def)

interpretation disklinux_data: data_policy "lru_swap K" K V for K V
proof (unfold_locales, unfold lru_swap_def policy.simps, goal_cases)
  case (1 F s)
  then show ?case by (rule pagefault_keeps)
next
  case (4 F p s)
  then show ?case by (rule swapin_keeps)
qed (rule ack_vma_quiet policy_data; assumption?)+


section \<open>The PageRank policy\<close>

lemma scan_window_quiet: "quiet V s u \<Longrightarrow> wpE (scan_window_page p u) (\<lambda>r. quiet V s (snd r)) any_error"
  by (auto simp: scan_window_page_def wp_simps intro!: wpE_mono [OF enqueue_quiet])

lemma shrink_window_loop_quiet:
  "quiet V s u \<Longrightarrow> wpE (shrink_window_loop nr ret tries u) (\<lambda>r. quiet V s (snd r)) any_error"
proof (induction "nr * 100 - tries" arbitrary: ret tries u rule: less_induct)
  case less
  show ?case
  proof (cases "ret < nr \<and> 0 < entries u Inactive_list \<and> tries < nr * 100")
    case True
    have I: "wpE (shrink_window_loop nr ret' (Suc tries) u') (\<lambda>r. quiet V s (snd r)) any_error" if "quiet V s u'" for ret' u'
      by (rule less.hyps [OF _ that]) (use True in auto)
    show ?thesis unfolding shrink_window_loop.simps [of nr ret tries u] if_P [OF True] wpE_bindE wpE_case_prod wpE_case_option wpE_Let
      by (rule wpE_mono [OF dequeue_quiet [OF less.prems]]) (auto simp: wp_simps intro!: wpE_mono [OF scan_window_quiet] I)
  qed (use less.prems in \<open>auto simp: shrink_window_loop.simps [of nr ret tries u] wp_simps\<close>)
qed

lemma pr_shrink_inactive_quiet: "data_laws K V \<Longrightarrow> quiet V s u \<Longrightarrow> wpE (pr_shrink_inactive_list K n u) (\<lambda>r. quiet V s (snd r)) any_error"
  by (auto simp: pr_shrink_inactive_list_def wp_simps Let_def intro!: wpE_mono [OF shrink_inactive_loop_quiet] wpE_mono [OF shrink_window_loop_quiet])

lemma pr_direct_allocate_loop_quiet:
  assumes K: "data_laws K V"
  shows "quiet V s u \<Longrightarrow> wpE (pr_direct_allocate_loop K nr ti si rc u) (\<lambda>r. quiet V s (snd r)) any_error"
proof (induction "nat (ti - si)" arbitrary: si rc u rule: less_induct)
  case less
  show ?case
  proof (cases "si < ti \<and> rc < nr")
    case True
    have I: "wpE (pr_direct_allocate_loop K nr ti (si + int SWAP_CLUSTER_COUNT) rc' u') (\<lambda>r. quiet V s (snd r)) any_error"
      if "quiet V s u'" for rc' u'
      by (rule less.hyps [OF _ that]) (use True in \<open>auto simp: SWAP_CLUSTER_COUNT_def\<close>)
    show ?thesis unfolding pr_direct_allocate_loop.simps [of K nr ti si rc u] if_P [OF True] wpE_bindE wpE_case_prod wpE_Let
      by (rule wpE_mono [OF pr_shrink_inactive_quiet [OF K less.prems]]) (auto simp: wp_simps intro!: I)
  qed (use less.prems in \<open>auto simp: pr_direct_allocate_loop.simps [of K nr ti si rc u] wp_simps\<close>)
qed

interpretation pr_data_reclaim: data_reclaimer "\<lambda>priority. pr_direct_allocate_page_asynch K nr priority" K V for K nr V
  by unfold_locales (simp add: pr_direct_allocate_page_asynch_def pr_direct_allocate_loop_quiet)

lemma pr_fetch_free_loop_keeps:
  assumes K: "data_laws K V"
  shows "pool_inv F s \<Longrightarrow> calm V F s \<Longrightarrow> wpE (pr_fetch_free_loop K priority s) (gives_frame V F s) any_error"
proof (induction priority arbitrary: s)
  case (Suc priority)
  show ?case unfolding pr_fetch_free_loop.simps by (rule pr_data_reclaim.fetch_turn_keeps [OF K Suc.prems]) (rule Suc.IH)
qed (simp add: wp_simps)

lemma pr_fetch_free_keeps:
  assumes K: "data_laws K V" and s: "pool_inv F s" "calm V F s"
  shows "wpE (pr_fetch_free_asynch K s) (gives_frame V F s) any_error"
  unfolding pr_fetch_free_asynch_def by (rule wake_then [OF s]) (rule pr_fetch_free_loop_keeps [OF K])

interpretation pr_data_frames: data_source "pr_fetch_free_asynch K" K V for K V
  by unfold_locales (rule pr_fetch_free_keeps)

lemma npool_safe [simp]: "npool (s\<lparr>safe_to_free := a\<rparr>) = npool s"
  by (simp add: npool_def)

lemma safe_to_free_data [simp]: "calm V F (s\<lparr>safe_to_free := a\<rparr>) = calm V F s" "can_read V (s\<lparr>safe_to_free := a\<rparr>) = can_read V s"
  "keeps V (s\<lparr>safe_to_free := a\<rparr>) s' = keeps V s s'"
  by (simp_all add: calm_def distinct_vas_def can_read_def keeps_def kept_def synced_def settled_def content_def zero_kept_def spare_def)

lemma pr_swapin_keeps:
  assumes K: "data_laws K V" and inv: "pool_inv F (unmark p s)" and p: "page_list s p = Some Disk_active_list"
    and c: "calm V F s" and r: "can_read V s" and a: "can_alloc F s"
  shows "wpE (pr_swapin_external_async K p s) (keeps V s) any_error"
  unfolding pr_swapin_external_async_def wpE_Let wpE_bindE [of "detach_from _ _ _"]
proof (rule marked_detach_from_wp [OF inv p], goal_cases)
  case (1 fs)
  then have i: "incoming F (s\<lparr>lists := fs, safe_to_free := va (heap (s\<lparr>lists := fs\<rparr>) p)\<rparr>) p" by (simp add: incoming_def on_disk_def)
  show ?case by (rule wpE_mono [OF pr_data_frames.detached_keeps [OF K i]]) (use c r a in simp_all)
qed

lemma pr_pagefault_keeps:
  assumes K: "data_laws K V" and s: "pool_inv F s" "calm V F s"
  shows "wpE (pr_pagefault K s) (\<lambda>r. keeps V s (snd r)) any_error"
  unfolding pr_pagefault_def by (rule frame_marked_keeps [OF pr_fetch_free_keeps [OF K s]])

interpretation pagerank_data: data_policy "pr_swap K" K V for K V
proof (unfold_locales, unfold pr_swap_def policy.simps pr_same, goal_cases)
  case (1 F s)
  then show ?case by (rule pr_pagefault_keeps)
next
  case (4 F p s)
  then show ?case by (rule pr_swapin_keeps)
qed (rule ack_vma_quiet policy_data; assumption?)+

section \<open>Background threads\<close>

lemma kswapd_quiet:
  assumes K: "data_laws K V"
  shows "wpE (lrudisk_synchkswapd K s) (quiet V s) any_error"
proof -
  have "wpE (kswapd_reclaim K u) (quiet V s) any_error" if "quiet V s u" for u
    using that by (auto simp: kswapd_reclaim_def wp_simps Let_def intro!: wpE_mono [OF direct_allocate_quiet [OF K]])
  then show ?thesis by (auto simp: lrudisk_synchkswapd_def wp_simps split: kswapd_pc.split)
qed

lemma pr_kswapd_quiet:
  assumes K: "data_laws K V"
  shows "wpE (pr_synchkswapd K s) (quiet V s) any_error"
proof -
  have "wpE (pr_kswapd_reclaim K u) (quiet V s) any_error" if "quiet V s u" for u
    using that by (auto simp: pr_kswapd_reclaim_def pr_direct_allocate_page_asynch_def wp_simps Let_def
        intro!: wpE_mono [OF pr_direct_allocate_loop_quiet [OF K]])
  then show ?thesis by (auto simp: pr_synchkswapd_def wp_simps split: kswapd_pc.split)
qed

end
