(* ===== verification/Contents_System.thy ===== *)
theory Contents_System
  imports Contents_Policy PageRank_System Liveness
begin

text \<open>
  The contents of pages along runs: sequences of faults, of turns of the background threads and of switches
  between threads.
\<close>

section \<open>States between operations\<close>

text \<open>The memory that the threads \<open>T\<close> read into; with the page from which first faults copy it is the library's own.\<close>

definition buffer_pages :: "tid set \<Rightarrow> 'k ext \<Rightarrow> u64 set" where
  "buffer_pages T s = {buffer_space (tls s t) | t. t \<in> T} \<union> {prefetch_buffer (tls s t) + of_nat i * PAGE_SIZE | t i. t \<in> T \<and> i < 32}"

definition library_pages :: "tid set \<Rightarrow> 'k ext \<Rightarrow> u64 set" where
  "library_pages T s = insert (page_cache s) (buffer_pages T s)"

text \<open>
  The buffers are allocated and the library's memory holds no page of the application, no request is under way, and the slots
  kept for resident pages are in step with what was copied into memory.
\<close>

definition tidy :: "('k, 'd) view \<Rightarrow> tid set \<Rightarrow> 'k ext \<Rightarrow> bool" where
  "tidy V T s \<longleftrightarrow> good s \<and> synced V s \<and> cur s \<in> T \<and> (\<forall>r. queued V (kst s) r = []) \<and>
     (\<forall>t \<in> T. buffer_allocated (tls s t) \<and> prefetch_buffer_allocated (tls s t)) \<and>
     page_cache s = zeros V \<and> zeros V \<notin> buffer_pages T s \<and> 0 \<notin> library_pages T s \<and> mapped s \<inter> library_pages T s = {}"

text \<open>Every page of the application holds what it held before; a page that is new holds what first faults copy.\<close>

definition unchanged :: "('k, 'd) view \<Rightarrow> 'k ext \<Rightarrow> 'k ext \<Rightarrow> bool" where
  "unchanged V s s' \<longleftrightarrow> npool s' = npool s \<and>
     (\<forall>p < npool s. va (heap s p) \<noteq> 0 \<longrightarrow> va (heap s' p) = va (heap s p) \<and> content V s' p = content V s p) \<and>
     mem V (kst s') (zeros V) = mem V (kst s) (zeros V) \<and>
     (\<forall>p < npool s. va (heap s p) = 0 \<longrightarrow> va (heap s' p) \<noteq> 0 \<longrightarrow> content V s' p = mem V (kst s) (zeros V))"

lemma unchanged_refl [simp]: "unchanged V s s"
  by (simp add: unchanged_def)

lemma unchanged_trans [trans]:
  assumes "unchanged V s s'" "unchanged V s' s''"
  shows "unchanged V s s''"
proof -
  have "va (heap s p) = 0 \<Longrightarrow> va (heap s'' p) \<noteq> 0 \<Longrightarrow> content V s'' p = mem V (kst s) (zeros V)" if "p < npool s" for p
    using assms that unfolding unchanged_def by metis
  then show ?thesis using assms by (simp add: unchanged_def)
qed

lemma index_va: "index_inv s \<Longrightarrow> q < npool s \<Longrightarrow> va (heap s q) = 0 \<or> va (heap s q) \<in> mapped s"
  by (auto simp: index_inv_def mapped_def)

lemma tidy_ready:
  assumes "tidy V T s"
  shows "thread_ready V s" "spare V s"
proof -
  have v: "va (heap s q) \<notin> library_pages T s" if "q < npool s" for q
    using assms index_va [of s q] that by (auto simp: tidy_def good_def sys_inv_def)
  have p: "buffer_space (me s) \<in> buffer_pages T s" "i < 32 \<Longrightarrow> prefetch_buffer (me s) + of_nat i * PAGE_SIZE \<in> buffer_pages T s" for i
    using assms by (auto simp: tidy_def buffer_pages_def)
  have "va (heap s q) \<noteq> buffer_space (me s)" "i < 32 \<Longrightarrow> va (heap s q) \<noteq> prefetch_buffer (me s) + of_nat i * PAGE_SIZE"
    if "q < npool s" for q i using v [OF that] p unfolding library_pages_def by (metis insertI2)+
  then show "thread_ready V s" using assms by (simp add: thread_ready_def can_read_def can_prefetch_def tidy_def)
  have z: "page_cache s = zeros V" "zeros V \<notin> buffer_pages T s" using assms by (simp_all add: tidy_def)
  moreover have "va (heap s q) \<noteq> zeros V" if "q < npool s" for q using v [OF that] z by (simp add: library_pages_def)
  ultimately show "spare V s" using p unfolding spare_def by metis
qed

text \<open>What a step establishes.\<close>

abbreviation tidy_step :: "('k, 'd) view \<Rightarrow> tid set \<Rightarrow> 'k ext \<Rightarrow> 'k ext \<Rightarrow> bool" where
  "tidy_step V T s s' \<equiv> tidy V T s' \<and> unchanged V s s' \<and> library_pages T s' = library_pages T s"

lemma tidy_carries:
  assumes s: "tidy V T s" and c: "carries V b s s'" and g: "good s'" and m: "mapped s' \<subseteq> insert b (mapped s)" "b \<notin> library_pages T s"
  shows "tidy_step V T s s'"
proof -
  have e: "cur s' = cur s" "same_buffers s s'" "queued V (kst s') = queued V (kst s)" "npool s' = npool s"
    using c by (simp_all add: carries_def settled_def)
  have p: "buffer_pages T s' = buffer_pages T s" "library_pages T s' = library_pages T s"
    using e(2) by (simp_all add: buffer_pages_def library_pages_def)
  have "b \<noteq> zeros V" using s m(2) by (auto simp: tidy_def library_pages_def)
  then have "synced V s' \<and> unchanged V s s'" using c s e(4) tidy_ready(2) [OF s] by (simp add: carries_def unchanged_def tidy_def)
  then show ?thesis using s g e m unfolding tidy_def p by auto
qed

lemma tidy_keeps:
  assumes s: "tidy V T s" and k: "keeps V s s'" and i: "pool_inv {} s'" "pres {} s s'"
  shows "tidy_step V T s s'"
proof (rule tidy_carries [OF s keeps_carries [OF k, of 0]])
  show "good s'" by (rule good_pres(1) [OF _ i]) (use s in \<open>simp add: tidy_def\<close>)
  show "mapped s' \<subseteq> insert 0 (mapped s)" using mapped_pres [OF i(2)] by auto
  show "0 \<notin> library_pages T s" using s by (simp add: tidy_def)
qed

lemma tidy_calm: "tidy V T s \<Longrightarrow> calm V {} s" "tidy V T s \<Longrightarrow> pool_inv {} s"
  using thread_ready_calm [OF tidy_ready(1)] by (auto simp: tidy_def good_def sys_inv_def)

text \<open>Operations that keep the invariant and the contents.\<close>

lemma tidy_wp:
  assumes "tidy V T s" "wpE x (\<lambda>s'. pool_inv {} s' \<and> pres {} s s') E" "wpE x (\<lambda>s'. keeps V s s') any_error"
  shows "wpE x (tidy_step V T s) E"
  by (rule wpE_mono [OF wpE_conj [OF assms(2,3)]]) (use tidy_keeps [OF assms(1)] in auto)

lemma tidy_quiet_wp:
  assumes "tidy V T s" "wpE x (\<lambda>s'. pool_inv {} s' \<and> pres {} s s') E" "wpE x (quiet V s) any_error"
  shows "wpE x (tidy_step V T s) E"
  by (rule wpE_mono [OF wpE_conj [OF assms(2,3)]]) (use tidy_keeps [OF assms(1)] quiet_keeps presD(2) in blast)+

lemma tidy_switch:
  assumes s: "tidy V T s" and t: "t \<in> T"
  shows "tidy_step V T s (s\<lparr>cur := t\<rparr>)"
proof -
  let ?u = "s\<lparr>cur := t\<rparr>"
  have b: "buffer_pages T ?u = buffer_pages T s" "library_pages T ?u = library_pages T s" by (simp_all add: buffer_pages_def library_pages_def)
  have n: "npool ?u = npool s" "mapped ?u = mapped s" by (simp_all add: npool_def mapped_def)
  then have "good ?u = good s" "synced V ?u = synced V s" by (simp_all add: good_def sys_inv_cur nframes_def synced_def)
  then have "tidy V T ?u" using s t n(2) unfolding tidy_def b by simp
  then show ?thesis using b(2) n(1) by (simp add: unchanged_def content_def)
qed

context data_policy
begin

lemma fault_tidy:
  assumes K: "data_laws K V" and s: "tidy V T s" and a: "a AND NOT (PAGE_SIZE - 1) \<noteq> 0" "a AND NOT (PAGE_SIZE - 1) \<notin> library_pages T s"
  shows "wpE (uswap_sig_handler K P SIGBUS a s) (tidy_step V T s) stops"
proof -
  have g: "good s" "sys_inv {} s" "63 \<le> nframes s" "SIGBUS \<noteq> SIGSEGV" using s by (simp_all add: tidy_def good_def SIGBUS_def SIGSEGV_def)
  show ?thesis
    by (rule wpE_mono [OF wpE_conj [OF sig_handler_wp [OF g(2-4) refl a(1)] sig_handler_carries [OF K g(2-4) refl a(1) tidy_ready(1) [OF s]]]])
       (use tidy_carries [OF s _ _ _ a(2)] good_config [OF g(1)] in auto)
qed

end


section \<open>Runs\<close>

text \<open>The operations that leave the set of regions alone, by the threads \<open>T\<close>, outside the library's own pages \<open>B\<close>.\<close>

fun paging_op :: "tid set \<Rightarrow> u64 set \<Rightarrow> op \<Rightarrow> bool" where
  "paging_op T B (Fault a) \<longleftrightarrow> a AND NOT (PAGE_SIZE - 1) \<notin> insert 0 B"
| "paging_op T B (Switch t) \<longleftrightarrow> t \<in> T"
| "paging_op T B (Mmap addr len prot flags off) \<longleftrightarrow> False"
| "paging_op T B (Munmap addr len) \<longleftrightarrow> False"
| "paging_op T B op \<longleftrightarrow> True"

lemma run_tidy:
  assumes K: "data_laws K V" and s: "tidy V T s" and op: "paging_op T (library_pages T s) op"
  shows "wpE (run K op s) (tidy_step V T s) stops"
proof -
  note c = tidy_calm [OF s]
  show ?thesis
  proof (cases op)
    case (Fault a)
    then show ?thesis using disklinux_data.fault_tidy [OF K s] op by simp
  next
    case Kswapd
    then show ?thesis using tidy_quiet_wp [OF s kswapd_wp [OF c(2)] kswapd_quiet [OF K]] by simp
  next
    case Evictor
    then show ?thesis using tidy_wp [OF s evictionworker_wp [OF c(2)] evictionworker_keeps [OF K c(2,1)]] by simp
  next
    case Evictor_vector
    then show ?thesis using tidy_wp [OF s evictionworker_vector_wp [OF c(2)] evictionworker_vector_keeps [OF K c(2,1)]] by simp
  next
    case (Switch t)
    then show ?thesis using tidy_switch [OF s, of t] op by (simp add: wp_simps)
  qed (use op in auto)
qed


section \<open>The PageRank policy\<close>

lemma tidy_step_trans: "tidy_step V T s s1 \<Longrightarrow> tidy_step V T s1 s2 \<Longrightarrow> tidy_step V T s s2"
  using unchanged_trans by auto

lemma prefetch_tidy:
  assumes K: "data_laws K V" and s: "tidy V T s"
  shows "wpE (core_try_prefetch K (pr_swap K) a s) (\<lambda>r. tidy_step V T s (snd r)) any_error"
proof (cases "a = 0")
  case True
  then show ?thesis by (simp add: core_try_prefetch_def wp_simps)
next
  case False
  have i: "pool_inv {} s" "index_inv s" "\<not> shrinkage_running s" "63 \<le> nframes s" using s by (simp_all add: tidy_def good_def sys_inv_def)
  have r: "can_prefetch V s" using tidy_ready(1) [OF s] by (simp add: thread_ready_def)
  show ?thesis
    by (rule wpE_mono [OF wpE_conj [OF pagerank.prefetch_wp [OF i False] pagerank_data.prefetch_keeps [OF K i False tidy_calm(1) [OF s] r]]])
       (use tidy_keeps [OF s] in auto)
qed

lemma prefetch_block_tidy:
  assumes K: "data_laws K V"
  shows "tidy V T s \<Longrightarrow> wpE (prefetch_block K n b a s) (tidy_step V T s) any_error"
proof (induction n arbitrary: a s)
  case (Suc n)
  have "wpE (core_try_prefetch K (pr_swap K) a s)
     (\<lambda>r. tidy_step V T s (snd r) \<and> (\<forall>a'. wpE (prefetch_block K n b a' (snd r)) (tidy_step V T s) any_error)) any_error"
  proof (rule wpE_mono [OF prefetch_tidy [OF K Suc.prems]], goal_cases)
    case (1 r)
    have "wpE (prefetch_block K n b a' (snd r)) (tidy_step V T s) any_error" for a'
      by (rule wpE_mono [OF Suc.IH]) (use 1 tidy_step_trans in blast)+
    then show ?case using 1 by simp
  qed simp
  then have "wpE (core_try_prefetch K (pr_swap K) a s) (\<lambda>r. wpE (if fst r = 0 then Inr (snd r)
      else prefetch_block K n b (a + word_of_nat (fst r) * PAGE_SIZE) (snd r)) (tidy_step V T s) any_error) any_error"
    by (rule wpE_mono) (simp_all add: wpE_Inr)
  then show ?case using Suc.prems by (simp add: wpE_bindE wpE_assertE wpE_if wpE_Inr case_prod_beta)
qed (simp add: wp_simps)

lemma tidy_internal: "tidy V T s \<Longrightarrow> tidy_step V T s (upd_me (\<lambda>t. t\<lparr>internal_call := True\<rparr>) s)"
proof (rule tidy_keeps)
  assume s: "tidy V T s"
  let ?u = "upd_me (\<lambda>t. t\<lparr>internal_call := True\<rparr>) s"
  show "keeps V s ?u" by (rule quiet_keeps) (simp_all add: quiet_def settled_def upd_me_def)
  show "pool_inv {} ?u" using tidy_calm(2) [OF s] by (simp add: upd_me_def)
  show "pres {} s ?u" by (simp add: pres_def env_def upd_me_def npool_def tls_le_upd)
qed

lemma pr_prefetchworker_tidy:
  assumes K: "data_laws K V" and s: "tidy V T s"
  shows "wpE (pr_prefetchworker K b s) (\<lambda>r. tidy_step V T s (snd r)) any_error"
proof -
  let ?u = "upd_me (\<lambda>t. t\<lparr>internal_call := True\<rparr>) s"
  note u = tidy_internal [OF s]
  have "wpE (prefetch_block K n b a ?u) (tidy_step V T s) any_error" for n b a
    by (rule wpE_mono [OF prefetch_block_tidy [OF K conjunct1 [OF u]]]) (use tidy_step_trans [OF u] in auto)
  then show ?thesis using u by (simp add: pr_prefetchworker_def Let_def wpE_bindE wpE_Inr del: prefetch_block.simps)
qed

lemma pr_run_tidy:
  assumes K: "data_laws K V" and s: "tidy V T s" "page_aligned (safe_to_free s)" and op: "pr_allowed op s"
    "\<And>oo. op = Op oo \<Longrightarrow> paging_op T (library_pages T s) oo"
  shows "wpE (pr_run K op s) (tidy_step V T s) stops"
proof -
  note c = tidy_calm [OF s(1)]
  show ?thesis
  proof (cases op)
    case (Prefetcher b)
    have g: "good s" using s(1) by (simp add: tidy_def)
    have "wpE (pr_prefetchworker K b s) (\<lambda>r. tidy_step V T s (snd r)) stops"
      by (rule wpE_mono [OF wpE_conj [OF pr_prefetchworker_wp [OF g s(2)] pr_prefetchworker_tidy [OF K s(1)]]]) (use op(1) Prefetcher in auto)
    then show ?thesis using Prefetcher by (simp add: wpE_bindE wpE_Inr case_prod_beta)
  next
    case o: (Op oo)
    show ?thesis
    proof (cases oo)
      case (Fault a)
      then show ?thesis using pagerank_data.fault_tidy [OF K s(1)] op o by simp
    next
      case Kswapd
      then show ?thesis using tidy_quiet_wp [OF s(1) pr_kswapd_wp [OF c(2)] pr_kswapd_quiet [OF K]] o by simp
    next
      case Evictor
      then show ?thesis using tidy_wp [OF s(1) evictionworker_wp [OF c(2)] evictionworker_keeps [OF K c(2,1)]] o by (simp add: pr_workers_eq)
    next
      case Evictor_vector
      then show ?thesis using tidy_wp [OF s(1) evictionworker_vector_wp [OF c(2)] evictionworker_vector_keeps [OF K c(2,1)]] o by (simp add: pr_workers_eq)
    next
      case (Switch t)
      then show ?thesis using tidy_switch [OF s(1), of t] op o by (simp add: wp_simps)
    qed (use op o in auto)
  qed
qed

section \<open>What a major fault brings in\<close>

text \<open>On a machine whose calls succeed, memory holds at the fault's address what the page's slot on disk held.\<close>

lemma missing_fault_restores:
  assumes K: "data_laws K V" "reliable K" and s: "tidy V T s" and p: "p \<in> tracked s" "va (heap s p) \<noteq> 0" "swapped_out (heap s p)"
    and f: "frame_free s" "\<not> sequential_fault False (va (heap s p)) (me s)"
  shows "\<exists>s'. handle_missing_fault K (lru_swap K) p s = Inr s' \<and> in_dram (heap s' p) \<and> va (heap s' p) = va (heap s p) \<and>
    mem V (kst s') (va (heap s p)) = disk V (kst s) (virtual_offset (heap s p))"
proof -
  have i: "sys_inv {} s" "63 \<le> nframes s" "synced V s" using s by (simp_all add: tidy_def good_def)
  obtain s' where r: "handle_missing_fault K (lru_swap K) p s = Inr s'" "sys_inv {} s'" "va (heap s p) \<in> in_memory s'"
    using missing_fault_returns [OF i(1,2) p(1,2) K(2) f] by auto
  have k: "keeps V s s'"
    using disklinux_data.missing_fault_keeps [OF K(1) i(1,2) p(1,2) tidy_ready(1) [OF s]] r(1) by (simp add: wpE_Inr)
  note tp = tracked_page [OF sys_invD(1,2) [OF i(1)] p(1,2)]
  obtain q where q: "q \<in> tracked s'" "va (heap s' q) = va (heap s p)" "in_dram (heap s' q)" using r(3) by (auto simp: in_memory_def)
  have n: "npool s' = npool s" "va (heap s' p) = va (heap s p)" using k by (simp_all add: keeps_def)
  have "q = p" using index_distinct [OF sys_invD(2) [OF r(2)]] tracked_page(1) [OF sys_invD(1,2) [OF r(2)] q(1)] q(2) n tp(1) p(2)
    unfolding distinct_vas_def by simp
  moreover have "content V s' p = content V s p" using k i(3) tp(1) p(2) by (simp add: keeps_def kept_def)
  ultimately show ?thesis using r(1) n q(3) tp(6) p(3) by (auto simp: content_def)
qed

end
