(* ===== verification/Contents_Regions.thy ===== *)
theory Contents_Regions
  imports Contents_System
begin

text \<open>
  The contents of pages through \<open>mmap\<close> and \<open>munmap\<close>: populating a region maps pages of zeros, removing one leaves
  all other pages as they are.
\<close>

section \<open>Removing pages\<close>

text \<open>A page may lose its address and its reserve; apart from the addresses in \<open>R\<close> the data stays.\<close>

definition bared :: "user_page \<Rightarrow> user_page \<Rightarrow> bool" where
  "bared h h' \<longleftrightarrow> in_dram h' = in_dram h \<and> virtual_offset h' = virtual_offset h \<and> (va h' = va h \<or> va h' = 0) \<and>
     (\<forall>d. has_reserve h' \<longrightarrow> reserve h' = Some d \<longrightarrow> has_reserve h \<and> reserve h = Some d)"

lemma bared_refl [simp]: "bared h h"
  by (simp add: bared_def)

lemma bared_trans: "bared h h' \<Longrightarrow> bared h' h'' \<Longrightarrow> bared h h''"
  by (auto simp: bared_def)

lemma bared_whereabouts: "whereabouts h' = whereabouts h \<Longrightarrow> bared h h'"
  by (simp add: bared_def whereabouts_def)

definition dropped :: "('k, 'd) view \<Rightarrow> u64 set \<Rightarrow> 'k ext \<Rightarrow> 'k ext \<Rightarrow> bool" where
  "dropped V R s s' \<longleftrightarrow> settled V s s' \<and> disk V (kst s') = disk V (kst s) \<and>
     (\<forall>c. c \<notin> R \<longrightarrow> mem V (kst s') c = mem V (kst s) c \<and> base V (kst s') c = base V (kst s) c) \<and>
     (\<forall>q. bared (heap s q) (heap s' q))"

lemma dropped_refl [simp]: "dropped V R s s"
  by (simp add: dropped_def)

lemma dropped_trans [trans]: "dropped V R s s' \<Longrightarrow> dropped V R s' s'' \<Longrightarrow> dropped V R s s''"
  by (simp add: dropped_def) (blast intro: settled_trans bared_trans)

lemma quiet_dropped: "quiet V s s' \<Longrightarrow> dropped V R s s'"
  by (simp add: quiet_def dropped_def same_def bared_whereabouts)

lemma dropped_quiet: "dropped V R s u \<Longrightarrow> quiet V u u' \<Longrightarrow> dropped V R s u'"
  by (rule dropped_trans [OF _ quiet_dropped])

lemma dropped_upd:
  assumes "dropped V R s u" "bared (heap u p) (f (heap u p))"
  shows "dropped V R s (upd_page p f u)"
  by (rule dropped_trans [OF assms(1)]) (use assms(2) in \<open>simp add: dropped_def settled_def\<close>)

lemma bared_simps [simp]:
  "bared h (h\<lparr>has_reserve := False, reserve := None, present := b\<rparr>)" "bared h (h\<lparr>reserve := None, has_reserve := False\<rparr>)"
  "bared h (h\<lparr>has_reserve := False, reserve := None\<rparr>)" "bared h (h\<lparr>present := b, va := 0\<rparr>)" "bared h (h\<lparr>migrating := b\<rparr>)"
  by (simp_all add: bared_def)

lemma dropped_parts: "dropped V R s u \<Longrightarrow> parts u' = parts u \<Longrightarrow> dropped V R s u'"
  by (rule dropped_quiet [OF _ quiet_parts])

lemma remove_any_dropped: "dropped V R s u \<Longrightarrow> wpE (remove_from_any p u) (dropped V R s) any_error"
  unfolding remove_from_any_def wpE_bindE wpE_case_prod
  by (rule wpE_mono [OF tryremove_parts]) (simp_all add: wp_simps dropped_parts)

lemma enqueue_dropped: "dropped V R s u \<Longrightarrow> wpE (enqueue_fifo l p u) (dropped V R s) any_error"
  by (rule wpE_mono [OF enqueue_parts]) (simp_all add: dropped_parts)

lemma free_place_dropped:
  assumes "dropped V R s u"
  shows "wpE (free_place p u) (dropped V R s) any_error"
proof -
  have r: "wpE (remove_from_any q u) (\<lambda>v. wpE (enqueue_fifo l q (upd_page q (\<lambda>h. h\<lparr>has_reserve := False, reserve := None, present := False\<rparr>) v))
     (\<lambda>v. wpE (enqueue_fifo l' p (upd_page p (\<lambda>h. h\<lparr>has_reserve := False, reserve := None\<rparr>) v)) (dropped V R s) any_error) any_error) any_error"
    for q l l'
    by (rule wpE_mono [OF remove_any_dropped [OF assms]], rule wpE_mono [OF enqueue_dropped]) (auto intro!: dropped_upd enqueue_dropped)
  show ?thesis using assms
    by (auto simp: free_place_def drop_reserve_def wp_simps Let_def intro!: r enqueue_dropped dropped_upd split: option.split)
qed

lemma remove_page_dropped: "wpE (lrudisk_remove_page p s) (dropped V R s) any_error" "wpE (pr_remove_page p s) (dropped V R s) any_error"
  unfolding lrudisk_remove_page_def pr_remove_page_def Let_def
  by (auto simp: wp_simps intro!: dropped_upd wpE_mono [OF remove_any_dropped] wpE_mono [OF free_place_dropped] split: option.split)

lemma remove_index_frame: "wpE (remove_page p s) (\<lambda>s'. \<exists>t h. s' = s\<lparr>pages := t, held := h\<rparr>) any_error"
proof -
  have "\<exists>t' h'. unlock Pages_lock (s\<lparr>held := h, pages := t\<rparr>) = s\<lparr>pages := t', held := h'\<rparr>" for t h
    by (intro exI [of _ t] exI [of _ "h(Pages_lock := False)"]) (simp add: unlock_def)
  then show ?thesis by (simp add: remove_page_def wp_simps)
qed

text \<open>The policies that \<open>munmap\<close> works with, as far as data is concerned.\<close>

locale data_paging = data_policy P K V + paging_policy P halts for P :: "'k policy" and K V halts +
  assumes remove_data: "wpE (mmgr_remove P p s) (dropped V {} s) any_error"
begin

lemma munmap_page_dropped: "wpE (munmap_page P p s) (dropped V {} s) any_error"
proof -
  have r: "wpE (remove_page p u) (\<lambda>v. wpE (mmgr_remove P p v) (\<lambda>w. dropped V {} s (count (g w) w)) any_error) any_error"
    if "dropped V {} s u" for u g
  proof (rule wpE_mono [OF remove_index_frame], goal_cases)
    case (1 v)
    then have "quiet V u v" by (auto simp: quiet_def settled_def)
    then have "dropped V {} s v" by (rule dropped_quiet [OF that])
    then show ?case by (intro wpE_mono [OF remove_data]) (auto intro: dropped_trans dropped_quiet)
  qed simp
  have "dropped V {} s (unlock m (upd_page p (\<lambda>h. h\<lparr>migrating := True\<rparr>) (s\<lparr>held := hl\<rparr>)))" for m hl
    by (rule quiet_dropped) (simp add: quiet_def settled_def unlock_def)
  then show ?thesis by (auto simp: munmap_page_def busy_wait_def wp_simps Let_def intro!: r)
qed

lemma munmap_loop_dropped: "wpE (munmap_loop P b e s) (dropped V {} s) any_error"
proof (induction "unat e - unat b" arbitrary: b s rule: less_induct)
  case less
  show ?case
  proof (cases "b < e")
    case True
    have rec: "wpE (munmap_loop P b' e u) (dropped V {} s) any_error" if "dropped V {} s u" "b < b'" for b' u
    proof -
      have "wpE (munmap_loop P b' e u) (dropped V {} u) any_error"
        by (rule less.hyps) (use True that(2) in \<open>simp add: word_less_nat_alt\<close>)
      then show ?thesis by (rule wpE_mono) (use dropped_trans [OF that(1)] in auto)
    qed
    have m: "wpE (munmap_page P p u) (\<lambda>v. b < g v \<longrightarrow> wpE (munmap_loop P (g v) e v) (dropped V {} s) any_error) any_error"
      if "quiet V s u" for p u g
      by (rule wpE_mono [OF munmap_page_dropped]) (use dropped_trans [OF quiet_dropped [OF that]] rec in auto)
    have "wpE (find_page b s) (\<lambda>x. wpE (case fst x of Some page \<Rightarrow> bindE (munmap_page P page (snd x)) (\<lambda>s.
         Inr (b + pt_to_pagesize (pt (heap s page)), s)) | None \<Rightarrow> Inr (b + BASEPAGE_SIZE, snd x))
       (\<lambda>y. b < fst y \<longrightarrow> wpE (munmap_loop P (fst y) e (snd y)) (dropped V {} s) any_error) any_error) any_error"
    proof (rule wpE_mono [OF find_quiet [where V = V]], goal_cases)
      case (1 x)
      then show ?case using m [OF 1] rec [OF quiet_dropped [OF 1]] by (simp add: wp_simps split: option.split)
    qed simp
    then show ?thesis using True by (subst munmap_loop.simps) (simp add: wp_simps case_prod_beta)
  qed (simp add: munmap_loop.simps [of P b e s] wp_simps)
qed

end

section \<open>The kernel and regions\<close>

text \<open>
  \<open>mmap(2)\<close> without \<open>MAP_FIXED\<close> (bit 4) chooses a region that nobody uses, none of the pages \<open>B\<close> in it, and
  changes no page that is there; registering a region moves no data; \<open>munmap(2)\<close> drops the pages of its region only.
\<close>

definition region_laws :: "'k kernel \<Rightarrow> ('k, 'd) view \<Rightarrow> u64 set \<Rightarrow> bool" where
  "region_laws K V B \<longleftrightarrow>
     (\<forall>addr len prot flags off k. \<not> bit flags 4 \<longrightarrow> (let r = k_mmap K addr len prot flags off k in same V k (snd r) \<and>
        (\<forall>p. fst r = Some p \<longrightarrow> region p (p + len) \<inter> B = {}))) \<and>
     (\<forall>a len k. same V k (snd (k_uffd_register K a len k))) \<and>
     (\<forall>addr len k. let k' = snd (k_munmap K addr len k) in disk V k' = disk V k \<and> queued V k' = queued V k \<and>
        (\<forall>c. c \<notin> region addr (addr + len) \<longrightarrow> mem V k' c = mem V k c \<and> base V k' c = base V k c))"

context data_paging
begin

lemma extmem_munmap_dropped:
  assumes R: "region_laws K V B"
  shows "wpE (extmem_munmap K P addr len s) (dropped V (region addr (addr + len)) s) any_error"
proof -
  let ?R = "region addr (addr + len)"
  have fin: "dropped V ?R s (set_internal False (unlock m (u\<lparr>kst := snd (k_munmap K addr len (kst u))\<rparr>)))"
    if "dropped V {} s u" for u m
  proof -
    have "dropped V ?R s u" using that by (simp add: dropped_def)
    also have "dropped V ?R u (u\<lparr>kst := snd (k_munmap K addr len (kst u))\<rparr>)"
      using R by (simp add: region_laws_def Let_def dropped_def settled_def)
    finally show ?thesis by (rule dropped_quiet) simp
  qed
  have "dropped V {} s (set_internal True s\<lparr>held := hl\<rparr>)" for hl by (rule quiet_dropped) simp
  then have "wpE (munmap_loop P addr (addr + len) (set_internal True s\<lparr>held := hl\<rparr>))
     (\<lambda>u. fst (k_munmap K addr len (kst u)) \<longrightarrow>
        dropped V ?R s (set_internal False (unlock m (u\<lparr>kst := snd (k_munmap K addr len (kst u))\<rparr>)))) any_error" for hl m
    by (intro wpE_mono [OF munmap_loop_dropped]) (blast intro: fin dropped_trans)+
  then show ?thesis by (simp add: extmem_munmap_def wp_simps)
qed

end

text \<open>What a program sees of it: the pages of \<open>R\<close> are gone, all others stay.\<close>

definition remains :: "('k, 'd) view \<Rightarrow> u64 set \<Rightarrow> 'k ext \<Rightarrow> 'k ext \<Rightarrow> bool" where
  "remains V R s s' \<longleftrightarrow> npool s' = npool s \<and> mem V (kst s') (zeros V) = mem V (kst s) (zeros V) \<and>
     (\<forall>p < npool s. va (heap s' p) = (if va (heap s p) \<in> R then 0 else va (heap s p)) \<and>
        (va (heap s' p) \<noteq> 0 \<longrightarrow> content V s' p = content V s p))"

lemma tidy_dropped:
  assumes s: "tidy V T s" and d: "dropped V R s s'" and g: "good s'" "npool s' = npool s" "mapped s' = mapped s - R"
    and R: "R \<inter> insert 0 (library_pages T s) = {}"
  shows "tidy V T s' \<and> remains V R s s' \<and> library_pages T s' = library_pages T s"
proof -
  have e: "cur s' = cur s" "same_buffers s s'" "queued V (kst s') = queued V (kst s)" and dk: "disk V (kst s') = disk V (kst s)"
    and m: "\<And>c. c \<notin> R \<Longrightarrow> mem V (kst s') c = mem V (kst s) c \<and> base V (kst s') c = base V (kst s) c"
    and b: "\<And>q. bared (heap s q) (heap s' q)"
    using d by (simp_all add: dropped_def settled_def)
  have p: "buffer_pages T s' = buffer_pages T s" "library_pages T s' = library_pages T s"
    using e(2) by (simp_all add: buffer_pages_def library_pages_def)
  have i: "index_inv s" "index_inv s'" using s g(1) by (simp_all add: tidy_def good_def sys_inv_def)
  have va: "va (heap s' q) = (if va (heap s q) \<in> R then 0 else va (heap s q))" if q: "q < npool s" for q
  proof (cases "va (heap s q) = 0 \<or> va (heap s q) \<in> R")
    case True
    have "va (heap s' q) \<notin> R \<or> va (heap s' q) = 0" using index_va [OF i(2), of q] q g(2,3) by auto
    then show ?thesis using True b [of q] by (auto simp: bared_def)
  next
    case False
    then have "va (heap s q) \<in> mapped s'" using index_va [OF i(1) q] g(3) by simp
    then obtain r where r: "r < npool s" "va (heap s' r) = va (heap s q)" "va (heap s q) \<noteq> 0"
      using i(2) g(2) False by (auto simp: mapped_def index_inv_def)
    then have "va (heap s r) = va (heap s q)" using b [of r] by (auto simp: bared_def)
    then have "r = q" using index_distinct [OF i(1)] r q unfolding distinct_vas_def by metis
    then show ?thesis using r(2) False by simp
  qed
  have out: "va (heap s' q) = va (heap s q)" "va (heap s q) \<notin> R" if "q < npool s" "va (heap s' q) \<noteq> 0" for q
    using va [OF that(1)] that(2) by (auto split: if_splits)
  have "synced V s'" unfolding synced_def
  proof (intro allI impI)
    fix q d assume q: "q < npool s'" "in_dram (heap s' q)" "va (heap s' q) \<noteq> 0" "has_reserve (heap s' q)" "reserve (heap s' q) = Some d"
    then have o: "va (heap s' q) = va (heap s q)" "va (heap s q) \<notin> R" using out [of q] g(2) by metis+
    have "in_dram (heap s q)" "has_reserve (heap s q)" "reserve (heap s q) = Some d" using b [of q] q by (simp_all add: bared_def)
    then have "disk V (kst s) (virtual_offset (heap s d)) = base V (kst s) (va (heap s q))"
      using s q o g(2) by (simp add: tidy_def synced_def)
    moreover have "virtual_offset (heap s' d) = virtual_offset (heap s d)" using b [of d] by (simp add: bared_def)
    ultimately show "disk V (kst s') (virtual_offset (heap s' d)) = base V (kst s') (va (heap s' q))"
      using o m [OF o(2)] dk by simp
  qed
  then have "tidy V T s'" using s g(1,3) e unfolding tidy_def p by auto
  moreover have "content V s' q = content V s q" if "q < npool s" "va (heap s' q) \<noteq> 0" for q
    using out [OF that] m [of "va (heap s q)"] b [of q] dk by (simp add: content_def bared_def)
  moreover have "zeros V \<notin> R" using s R by (auto simp: tidy_def library_pages_def)
  ultimately show ?thesis using va g(2) m p(2) by (simp add: remains_def)
qed

context data_paging
begin

lemma munmap_tidy:
  assumes R: "region_laws K V B" and s: "tidy V T s" and r: "region_ok addr (addr + len)"
    "region addr (addr + len) \<inter> library_pages T s = {}" and i: "\<not> internal_call (me s)"
  shows "wpE (munmap_filter K P addr len s) (\<lambda>r. tidy V T (snd r) \<and> remains V (region addr (addr + len)) s (snd r) \<and>
     library_pages T (snd r) = library_pages T s) halts"
proof -
  let ?R = "region addr (addr + len)"
  have g: "good s" "sys_inv {} s" using s by (simp_all add: tidy_def good_def)
  have z: "0 \<notin> ?R" using r(1) by (auto simp: region_def region_ok_def)
  have "wpE (extmem_munmap K P addr len s) (\<lambda>s'. tidy V T s' \<and> remains V ?R s s' \<and> library_pages T s' = library_pages T s) halts"
  proof (rule wpE_mono [OF wpE_conj [OF extmem_munmap_wp [OF g(2) r(1)] extmem_munmap_dropped [OF R]]], goal_cases)
    case (1 s')
    then show ?case
      by (intro tidy_dropped [OF s]) (use z r(2) good_config [OF g(1)] config_size in auto)
  qed simp
  then show ?thesis using i by (simp add: munmap_filter_def wp_simps case_prod_beta)
qed

end

section \<open>Mapping a region\<close>

lemma good_kst [simp]: "good (s\<lparr>kst := k\<rparr>) = good s" "good (s\<lparr>main_mmap := p\<rparr>) = good s"
proof -
  have "pool_inv {} (s\<lparr>kst := k\<rparr>) = pool_inv {} s" "pool_inv {} (s\<lparr>main_mmap := p\<rparr>) = pool_inv {} s"
    by (rule pool_inv_cong; simp)+
  then show "good (s\<lparr>kst := k\<rparr>) = good s" "good (s\<lparr>main_mmap := p\<rparr>) = good s"
    by (simp_all add: good_def sys_inv_def index_inv_def index_ok_def npool_def nframes_def)
qed

lemma good_marks: "good s \<Longrightarrow> good (set_internal b s)" "good s \<Longrightarrow> good (count f s)"
  by (auto simp: good_def nframes_def sys_inv_internal sys_inv_count) (simp_all add: set_internal_def count_def upd_me_def)

text \<open>Steps that move no data.\<close>

lemma tidy_quiet:
  assumes s: "tidy V T s" and q: "quiet V s s'" and g: "good s'" and n: "npool s' = npool s" "mapped s' = mapped s"
  shows "tidy_step V T s s'"
  by (rule tidy_carries [OF s keeps_carries [OF quiet_keeps [OF q n(1)], of 0] g]) (use s n(2) in \<open>auto simp: tidy_def\<close>)

context data_policy
begin

lemma first_fault_tidy:
  assumes K: "data_laws K V" and s: "tidy V T s" and b: "b \<noteq> 0" "page_aligned b" "b \<notin> library_pages T s"
  shows "wpE (handle_first_fault K P b s) (tidy_step V T s) stops"
proof -
  have g: "good s" "sys_inv {} s" "0 < nframes s" using s by (simp_all add: tidy_def good_def)
  show ?thesis
    by (rule wpE_mono [OF wpE_conj [OF first_fault_wp [OF g(2,3) b(1,2)] first_fault_carries [OF K g(2,3) b(1) tidy_ready(1) [OF s]]]])
       (use tidy_carries [OF s _ _ _ b(3)] good_config [OF g(1)] in auto)
qed

lemma populate_tidy:
  assumes K: "data_laws K V"
  shows "tidy V T s \<Longrightarrow> region_ok b e \<Longrightarrow> region b e \<inter> library_pages T s = {} \<Longrightarrow> wpE (populate_loop K P b e s) (tidy_step V T s) stops"
proof (induction "unat e - unat b" arbitrary: b s rule: less_induct)
  case less
  show ?case
  proof (cases "b < e")
    case True
    note r = region_step [OF less.prems(2) True]
    have b: "b \<noteq> 0" "page_aligned b" "b \<notin> library_pages T s" using less.prems(2,3) r(3) by (auto simp: region_ok_def)
    have "wpE (handle_first_fault K P b s) (\<lambda>s'. wpE (populate_loop K P (b + PAGE_SIZE) e s') (tidy_step V T s) stops) stops"
    proof (rule wpE_mono [OF first_fault_tidy [OF K less.prems(1) b]], goal_cases)
      case (1 s')
      show ?case
      proof (rule wpE_mono [OF less.hyps], goal_cases)
        case 1
        then show ?case using True r(1) by (simp add: word_less_nat_alt)
      qed (use 1 r less.prems(3) unchanged_trans in auto)
    qed simp
    then show ?thesis using True r(1) by (subst populate_loop.simps) (simp add: wp_simps)
  qed (use less.prems in \<open>simp add: populate_loop.simps [of K P b e s] wp_simps\<close>)
qed

lemma extmem_mmap_tidy:
  assumes K: "data_laws K V" "region_laws K V (library_pages T s)" "mmap_contract K" and s: "tidy V T s"
    and f: "len \<noteq> 0" "\<not> bit flags 4"
  shows "wpE (extmem_mmap K P addr len prot flags off s) (\<lambda>r. tidy_step V T s (snd r)) stops"
proof -
  let ?len = "PAGE_ROUND_UP len"
  have g: "good s" using s by (simp add: tidy_def)
  obtain fl np where fl: "mmap_flags flags = (fl, np)" by fastforce
  have "bit fl 4 = bit flags 4" using mmap_flags_spec(1) [of 4 flags] fl by simp
  then have nf: "\<not> bit fl 4" using f(2) by simp
  let ?u = "\<lambda>p k. set_internal True s\<lparr>main_mmap := p, kst := k\<rparr>"
  have u: "tidy_step V T s (?u p k)" if "same V (kst s) k" for p k
  proof (rule tidy_quiet [OF s])
    show "quiet V s (?u p k)" using that by (simp add: quiet_def settled_def same_def set_internal_def upd_me_def)
    show "good (?u p k)" using good_marks(1) [OF g] by simp
  qed (simp_all add: npool_def mapped_def)
  have fin: "tidy_step V T s (set_internal False (policy_ack_vma P a l pr (count h x)))" if x: "tidy_step V T s x" for x a l pr h
  proof -
    let ?v = "policy_ack_vma P a l pr (count h x)"
    have gx: "good (count h x)" by (rule good_marks(2)) (use x in \<open>simp add: tidy_def\<close>)
    then have v: "pool_inv {} ?v" "pres {} (count h x) ?v" using ack_vma_law [of "{}" "count h x"] by (simp_all add: good_def sys_inv_def)
    have "good (set_internal False ?v)" by (intro good_marks good_pres(1) [OF gx v])
    moreover have "quiet V x (set_internal False ?v)" using quiet_trans [OF _ ack_vma_data] by simp
    moreover have "npool (set_internal False ?v) = npool x" "mapped (set_internal False ?v) = mapped x"
      using presD(2) [OF v(2)] mapped_pres [OF v(2)] by (simp_all add: npool_def)
    ultimately have "tidy_step V T x (set_internal False ?v)" using x by (intro tidy_quiet) simp_all
    with x show ?thesis using unchanged_trans by auto
  qed
  have reg: "wpE (kcall (k_uffd_register K p ?len) (set_internal True s\<lparr>kst := k, main_mmap := p\<rparr>)) (\<lambda>x. wpE (if np then extmem_mmap_populate K P p ?len x else Inr x)
      (tidy_step V T s) stops) stops" if m: "k_mmap K addr ?len prot fl off (kst s) = (Some p, k)" "p \<noteq> 0" for p k
  proof -
    note r = mmap_region [OF K(3) m]
    have l: "same V (kst s) k" "region p (p + ?len) \<inter> library_pages T s = {}"
      using K(2) nf m(1) unfolding region_laws_def Let_def by (metis fst_conv snd_conv)+
    let ?k = "snd (k_uffd_register K p ?len k)"
    have "same V k ?k" using K(2) by (simp add: region_laws_def)
    from same_trans [OF l(1) this] have t: "tidy_step V T s (?u p ?k)" by (rule u)
    have "wpE (populate_loop K P p (p + ?len) (?u p ?k)) (tidy_step V T s) stops"
      by (rule wpE_mono [OF populate_tidy [OF K(1) _ r(2)]]) (use t l(2) unchanged_trans in auto)
    then show ?thesis using t r(1) m(2) by (simp add: extmem_mmap_populate_def wp_simps)
  qed
  obtain q k where mm: "k_mmap K addr ?len prot fl off (kst s) = (q, k)" by fastforce
  show ?thesis
  proof (cases "q = None \<or> q = Some 0")
    case True
    then show ?thesis using g f(1) mm fl by (auto simp: extmem_mmap_def wp_simps good_def)
  next
    case False
    then obtain p where p: "q = Some p" "p \<noteq> 0" by auto
    have "wpE (bindE (kcall (k_uffd_register K p ?len) (set_internal True s\<lparr>kst := k, main_mmap := p\<rparr>)) (\<lambda>x. if np then extmem_mmap_populate K P p ?len x else Inr x))
       (\<lambda>x. tidy_step V T s (set_internal False (policy_ack_vma P p ?len 0 (count (\<lambda>c. c\<lparr>mem_mmaped := ?len\<rparr>) x)))) stops"
      unfolding wpE_bindE
    proof (rule wpE_mono [OF reg], goal_cases)
      case (3 x)
      show ?case by (rule wpE_mono [OF 3]) (rule fin, assumption+)
    qed (use mm p in simp_all)
    then show ?thesis using g f(1) mm p fl by (simp add: extmem_mmap_def wp_simps good_def)
  qed
qed

lemma mmap_tidy:
  assumes "data_laws K V" "region_laws K V (library_pages T s)" "mmap_contract K" "tidy V T s" "\<not> bit flags 4"
  shows "wpE (mmap_filter K P addr len prot flags off s) (\<lambda>r. tidy_step V T s (snd r)) stops"
proof -
  have "wpE (extmem_mmap K P addr len prot flags off s) (\<lambda>r. tidy_step V T s (snd r)) stops" if "\<not> len < 2 * 1024 * 1024 * 1024"
    by (rule extmem_mmap_tidy [OF assms(1-4) _ assms(5)]) (use that in auto)
  then show ?thesis using assms(4) by (simp add: mmap_filter_def wp_simps case_prod_beta)
qed

end

interpretation disklinux_regions: data_paging "lru_swap K" K V stops for K V
  by unfold_locales (simp add: lru_swap_def remove_page_dropped)

interpretation pagerank_regions: data_paging "pr_swap K" K V waits for K V
  by unfold_locales (simp add: pr_swap_def remove_page_dropped)

end
