(* ===== verification/Contents_Flat.thy ===== *)
theory Contents_Flat
  imports Contents_Regions
begin

text \<open>
  Paged memory against a flat one: sequences of stores and of operations of the library, \<open>mmap\<close> and \<open>munmap\<close> included.
\<close>

section \<open>The program and its memory\<close>

text \<open>The operations of the threads \<open>T\<close>, outside the library's own pages \<open>B\<close>, without \<open>MAP_FIXED\<close>.\<close>

fun program_op :: "tid set \<Rightarrow> u64 set \<Rightarrow> op \<Rightarrow> bool" where
  "program_op T B (Mmap addr len prot flags off) \<longleftrightarrow> \<not> bit flags 4"
| "program_op T B (Munmap addr len) \<longleftrightarrow> region_ok addr (addr + len) \<and> region addr (addr + len) \<inter> B = {}"
| "program_op T B op \<longleftrightarrow> paging_op T B op"

text \<open>
  The program stores whole pages; a store to a page that is not in memory makes the processor raise a fault instead, and
  may be repeated afterwards. \<open>store\<close> is what a store does to the machine, and the second component of the state is a
  flat memory that receives the same stores; new memory holds \<open>z\<close>, and the library does not see a call of its own threads.
\<close>

datatype 'd program_step = Lib op | Store u64 'd

fun flat_op :: "'d \<Rightarrow> op \<Rightarrow> 'k ext \<Rightarrow> (u64 \<Rightarrow> 'd) \<Rightarrow> u64 \<Rightarrow> 'd" where
  "flat_op z (Munmap addr len) s f = (if internal_call (me s) then f else (\<lambda>a. if a \<in> region addr (addr + len) then z else f a))"
| "flat_op z op s f = f"

fun access :: "'k kernel \<Rightarrow> (u64 \<Rightarrow> 'd \<Rightarrow> 'k \<Rightarrow> 'k) \<Rightarrow> 'd \<Rightarrow> 'd program_step \<Rightarrow> 'k ext \<times> (u64 \<Rightarrow> 'd) \<Rightarrow> c_error + 'k ext \<times> (u64 \<Rightarrow> 'd)" where
  "access K store z (Lib op) (s, f) = bindE (run K op s) (\<lambda>s'. Inr (s', flat_op z op s f))"
| "access K store z (Store a d) (s, f) =
     (if a \<in> in_memory s then Inr (s\<lparr>kst := store a d (kst s)\<rparr>, f(a := d))
      else bindE (run K (Fault a) s) (\<lambda>s. Inr (s, f)))"

fun accesses :: "'k kernel \<Rightarrow> (u64 \<Rightarrow> 'd \<Rightarrow> 'k \<Rightarrow> 'k) \<Rightarrow> 'd \<Rightarrow> 'd program_step list \<Rightarrow> 'k ext \<times> (u64 \<Rightarrow> 'd) \<Rightarrow> c_error + 'k ext \<times> (u64 \<Rightarrow> 'd)" where
  "accesses K store z [] sf = Inr sf"
| "accesses K store z (x # xs) sf = bindE (access K store z x sf) (accesses K store z xs)"

fun access_ok :: "tid set \<Rightarrow> u64 set \<Rightarrow> 'd program_step \<Rightarrow> bool" where
  "access_ok T B (Lib op) \<longleftrightarrow> program_op T B op"
| "access_ok T B (Store a d) \<longleftrightarrow> program_op T B (Fault a)"

definition store_law :: "(u64 \<Rightarrow> 'd \<Rightarrow> 'k \<Rightarrow> 'k) \<Rightarrow> ('k, 'd) view \<Rightarrow> bool" where
  "store_law store V \<longleftrightarrow> (\<forall>a d k. mem V (store a d k) = (mem V k)(a := d) \<and> disk V (store a d k) = disk V k \<and>
     base V (store a d k) = base V k \<and> queued V (store a d k) = queued V k)"

text \<open>
  The application sees the flat memory \<open>f\<close>: its pages hold what \<open>f\<close> has at their addresses, and everywhere else \<open>f\<close> has \<open>z\<close>, as
  the page has that first faults copy.
\<close>

definition agrees :: "('k, 'd) view \<Rightarrow> 'd \<Rightarrow> 'k ext \<times> (u64 \<Rightarrow> 'd) \<Rightarrow> bool" where
  "agrees V z sf \<longleftrightarrow> (let (s, f) = sf in mem V (kst s) (zeros V) = z \<and>
     (\<forall>p < npool s. va (heap s p) \<noteq> 0 \<longrightarrow> content V s p = f (va (heap s p))) \<and> (\<forall>a. a \<notin> mapped s \<longrightarrow> f a = z))"

section \<open>The steps keep the agreement\<close>

lemma unchanged_mapped:
  assumes "unchanged V s s'" "index_inv s" "index_inv s'"
  shows "mapped s \<subseteq> mapped s'"
proof
  fix a assume "a \<in> mapped s"
  then obtain p where p: "p < npool s" "va (heap s p) = a" "a \<noteq> 0" using assms(2) by (auto simp: mapped_def index_inv_def)
  then have "p < npool s'" "va (heap s' p) = a" using assms(1) by (simp_all add: unchanged_def)
  then show "a \<in> mapped s'" using index_va [OF assms(3), of p] p(3) by simp
qed

lemma agrees_unchanged:
  assumes g: "agrees V z (s, f)" and u: "unchanged V s s'" and i: "index_inv s" "index_inv s'"
  shows "agrees V z (s', f)"
proof -
  note m = unchanged_mapped [OF u i]
  have n: "npool s' = npool s" and z: "mem V (kst s') (zeros V) = mem V (kst s) (zeros V)" using u by (simp_all add: unchanged_def)
  have "content V s' p = f (va (heap s' p))" if p: "p < npool s'" "va (heap s' p) \<noteq> 0" for p
  proof (cases "va (heap s p) = 0")
    case True
    have "va (heap s' p) \<notin> mapped s"
    proof
      assume "va (heap s' p) \<in> mapped s"
      then obtain q where q: "q < npool s" "va (heap s q) = va (heap s' p)" using i(1) p(2) by (auto simp: mapped_def index_inv_def)
      then have "va (heap s' q) = va (heap s' p)" using u p(2) by (simp add: unchanged_def)
      then have "q = p" using index_distinct [OF i(2)] q(1) p n unfolding distinct_vas_def by simp
      with q(2) True p(2) show False by simp
    qed
    then have "f (va (heap s' p)) = mem V (kst s) (zeros V)" using g by (simp add: agrees_def)
    then show ?thesis using u True p n by (simp add: unchanged_def)
  next
    case False
    then show ?thesis using u g p n by (simp add: unchanged_def agrees_def)
  qed
  then show ?thesis using m g z by (auto simp: agrees_def)
qed

lemma agrees_remains:
  assumes g: "agrees V z (s, f)" and r: "remains V R s s'" and i: "index_inv s" "index_inv s'"
  shows "agrees V z (s', \<lambda>a. if a \<in> R then z else f a)"
proof -
  have n: "npool s' = npool s" and z: "mem V (kst s') (zeros V) = z" using g r by (simp_all add: agrees_def remains_def)
  have va: "va (heap s' p) = (if va (heap s p) \<in> R then 0 else va (heap s p))" if "p < npool s" for p
    using r that by (simp add: remains_def)
  have "a \<in> mapped s'" if am: "a \<in> mapped s" "a \<notin> R" for a
  proof -
    obtain p where "p < npool s" "va (heap s p) = a" "a \<noteq> 0" using am(1) i(1) by (auto simp: mapped_def index_inv_def)
    then show ?thesis using index_va [OF i(2), of p] va [of p] n am(2) by simp
  qed
  then have "f a = z" if "a \<notin> mapped s'" "a \<notin> R" for a using g that by (auto simp: agrees_def)
  moreover have "content V s' p = f (va (heap s' p)) \<and> va (heap s' p) \<notin> R" if p: "p < npool s" "va (heap s' p) \<noteq> 0" for p
  proof -
    have "va (heap s' p) = va (heap s p)" "va (heap s p) \<notin> R" using va [OF p(1)] p(2) by (auto split: if_splits)
    then show ?thesis using r g p by (simp add: remains_def agrees_def)
  qed
  ultimately show ?thesis using n z by (simp add: agrees_def)
qed

lemma tidy_index: "tidy V T s \<Longrightarrow> index_inv s"
  by (simp add: tidy_def good_def sys_inv_def)

lemma store_agrees:
  assumes st: "store_law store V" and s: "tidy V T s" and a: "a \<in> in_memory s" and g: "agrees V z (s, f)"
  shows "tidy V T (s\<lparr>kst := store a d (kst s)\<rparr>)" "agrees V z (s\<lparr>kst := store a d (kst s)\<rparr>, f(a := d))"
    "library_pages T (s\<lparr>kst := store a d (kst s)\<rparr>) = library_pages T s"
proof -
  let ?s = "s\<lparr>kst := store a d (kst s)\<rparr>"
  note l = st [unfolded store_law_def, rule_format]
  have b: "buffer_pages T ?s = buffer_pages T s" by (simp add: buffer_pages_def)
  show lp: "library_pages T ?s = library_pages T s" by (simp add: library_pages_def b)
  have ms: "mapped ?s = mapped s" by (simp add: mapped_def)
  have "good ?s" using s by (simp add: tidy_def)
  moreover have "synced V ?s" using s l by (simp add: tidy_def synced_def)
  ultimately show "tidy V T ?s" using s l ms unfolding tidy_def b lp by simp
  obtain q where q: "q \<in> tracked s" "va (heap s q) = a" "in_dram (heap s q)" "a \<noteq> 0" using a by (auto simp: in_memory_def)
  then have am: "a \<in> mapped s" by (auto simp: mapped_def)
  then have za: "a \<noteq> zeros V" using s by (auto simp: tidy_def library_pages_def)
  have i: "pool_inv {} s" "index_inv s" using s by (simp_all add: tidy_def good_def sys_inv_def)
  have "p = q" if "p < npool s" "va (heap s p) = a" for p
    using index_distinct [OF i(2)] tracked_page(1) [OF i q(1)] that q unfolding distinct_vas_def by simp
  then have "content V ?s p = (if va (heap s p) = a then d else content V s p)" if "p < npool s" for p
    using that q(3) l by (auto simp: content_def)
  then show "agrees V z (?s, f(a := d))" using g am za l ms by (auto simp: agrees_def)
qed

text \<open>A state as the program sees it: in order, and the flat memory matching.\<close>

abbreviation seen_flat :: "('k, 'd) view \<Rightarrow> 'd \<Rightarrow> tid set \<Rightarrow> u64 set \<Rightarrow> 'k ext \<times> (u64 \<Rightarrow> 'd) \<Rightarrow> bool" where
  "seen_flat V z T B r \<equiv> tidy V T (fst r) \<and> agrees V z r \<and> library_pages T (fst r) = B"

lemma lib_agrees:
  assumes K: "data_laws K V" "region_laws K V (library_pages T s)" "mmap_contract K" and s: "tidy V T s" "agrees V z (s, f)"
    and op: "program_op T (library_pages T s) op"
  shows "wpE (run K op s) (\<lambda>s'. seen_flat V z T (library_pages T s) (s', flat_op z op s f)) stops"
proof -
  have t: "seen_flat V z T (library_pages T s) (s', f)" if "tidy_step V T s s'" for s'
    using that agrees_unchanged [OF s(2) _ tidy_index [OF s(1)] tidy_index, of s' V T] by simp
  have p: ?thesis if "paging_op T (library_pages T s) op" "flat_op z op s f = f"
    by (rule wpE_mono [OF run_tidy [OF K(1) s(1) that(1)]]) (use t that(2) in auto)
  show ?thesis
  proof (cases op)
    case (Mmap addr len prot flags off)
    then have "wpE (mmap_filter K (lru_swap K) addr len prot flags off s) (\<lambda>r. tidy_step V T s (snd r)) stops"
      using op by (intro disklinux_data.mmap_tidy [OF K s(1)]) simp
    then show ?thesis unfolding Mmap run.simps wpE_bindE wpE_case_prod wpE_Inr flat_op.simps by (rule wpE_mono) (rule t)
  next
    case (Munmap addr len)
    show ?thesis
    proof (cases "internal_call (me s)")
      case True
      then show ?thesis using Munmap t [of s] s by (simp add: munmap_filter_def wp_simps)
    next
      case False
      let ?R = "region addr (addr + len)"
      have "wpE (munmap_filter K (lru_swap K) addr len s) (\<lambda>r. tidy V T (snd r) \<and> remains V ?R s (snd r) \<and>
          library_pages T (snd r) = library_pages T s) stops"
        by (rule disklinux_regions.munmap_tidy [OF K(2) s(1) _ _ False]) (use op Munmap in simp_all)
      then have "wpE (munmap_filter K (lru_swap K) addr len s)
          (\<lambda>r. seen_flat V z T (library_pages T s) (snd r, \<lambda>a. if a \<in> ?R then z else f a)) stops"
      proof (rule wpE_mono, goal_cases)
        case (1 r)
        then show ?case using agrees_remains [OF s(2) _ tidy_index [OF s(1)] tidy_index, of ?R "snd r" V T] by simp
      qed simp
      then show ?thesis using Munmap False by (simp add: wpE_bindE wpE_Inr case_prod_beta)
    qed
  qed (use op p in simp_all)
qed

text \<open>The same with the PageRank policy, whose \<open>munmap\<close> may wait.\<close>

fun pr_flat_op :: "'d \<Rightarrow> pr_op \<Rightarrow> 'k ext \<Rightarrow> (u64 \<Rightarrow> 'd) \<Rightarrow> u64 \<Rightarrow> 'd" where
  "pr_flat_op z (Op op) s f = flat_op z op s f"
| "pr_flat_op z (Prefetcher b) s f = f"

lemma pr_lib_agrees:
  assumes K: "data_laws K V" "region_laws K V (library_pages T s)" "mmap_contract K" and s: "tidy V T s" "agrees V z (s, f)"
    and op: "page_aligned (safe_to_free s)" "pr_allowed op s" "\<And>oo. op = Op oo \<Longrightarrow> program_op T (library_pages T s) oo"
  shows "wpE (pr_run K op s) (\<lambda>s'. seen_flat V z T (library_pages T s) (s', pr_flat_op z op s f)) (\<lambda>e. stops e \<or> may_wait op \<and> e = Spin)"
proof -
  have t: "seen_flat V z T (library_pages T s) (s', f)" if "tidy_step V T s s'" for s'
    using that agrees_unchanged [OF s(2) _ tidy_index [OF s(1)] tidy_index, of s' V T] by simp
  have p: ?thesis if "\<And>oo. op = Op oo \<Longrightarrow> paging_op T (library_pages T s) oo" "pr_flat_op z op s f = f"
    by (rule wpE_mono [OF pr_run_tidy [OF K(1) s(1) op(1,2) that(1)]]) (use t that(2) in auto)
  show ?thesis
  proof (cases op)
    case o: (Op oo)
    show ?thesis
    proof (cases oo)
      case (Mmap addr len prot flags off)
      then have "wpE (mmap_filter K (pr_swap K) addr len prot flags off s) (\<lambda>r. tidy_step V T s (snd r)) stops"
        using op(3) [OF o] by (intro pagerank_data.mmap_tidy [OF K s(1)]) simp
      then show ?thesis unfolding o Mmap pr_run.simps wpE_bindE wpE_case_prod wpE_Inr flat_op.simps pr_flat_op.simps
        by (rule wpE_mono) (rule t, simp_all)
    next
      case (Munmap addr len)
      show ?thesis
      proof (cases "internal_call (me s)")
        case True
        then show ?thesis using o Munmap t [of s] s by (simp add: munmap_filter_def wp_simps)
      next
        case False
        let ?R = "region addr (addr + len)"
        have "wpE (munmap_filter K (pr_swap K) addr len s) (\<lambda>r. tidy V T (snd r) \<and> remains V ?R s (snd r) \<and>
            library_pages T (snd r) = library_pages T s) waits"
          by (rule pagerank_regions.munmap_tidy [OF K(2) s(1) _ _ False]) (use op(3) [OF o] Munmap in simp_all)
        then have "wpE (munmap_filter K (pr_swap K) addr len s)
            (\<lambda>r. seen_flat V z T (library_pages T s) (snd r, \<lambda>a. if a \<in> ?R then z else f a)) waits"
        proof (rule wpE_mono, goal_cases)
          case (1 r)
          then show ?case using agrees_remains [OF s(2) _ tidy_index [OF s(1)] tidy_index, of ?R "snd r" V T] by simp
        qed simp
        then show ?thesis using o Munmap False by (simp add: wpE_bindE wpE_Inr case_prod_beta waits_def [abs_def])
      qed
    qed (use op(3) o p in simp_all)
  qed (use p in simp)
qed

lemma access_agrees:
  assumes K: "data_laws K V" "store_law store V" "region_laws K V B" "mmap_contract K" and s: "seen_flat V z T B sf" and x: "access_ok T B x"
  shows "wpE (access K store z x sf) (seen_flat V z T B) stops"
proof -
  obtain s f where sf: "sf = (s, f)" by (cases sf)
  have r: "wpE (run K op s) (\<lambda>s'. seen_flat V z T B (s', flat_op z op s f)) stops" if "program_op T B op" for op
    using lib_agrees [OF K(1) _ K(4), of T s z f op] K(3) s sf that by simp
  show ?thesis
  proof (cases x)
    case (Lib op)
    then show ?thesis using r [of op] x sf by (simp add: wpE_bindE wpE_Inr)
  next
    case (Store a d)
    then show ?thesis using r [of "Fault a"] x sf s store_agrees [OF K(2), of T s a z f d] by (simp add: wpE_if wpE_bindE wpE_Inr)
  qed
qed

lemma accesses_agree:
  assumes K: "data_laws K V" "store_law store V" "region_laws K V B" "mmap_contract K"
  shows "seen_flat V z T B sf \<Longrightarrow> \<forall>x \<in> set xs. access_ok T B x \<Longrightarrow> wpE (accesses K store z xs sf) (seen_flat V z T B) stops"
proof (induction xs arbitrary: sf)
  case (Cons x xs)
  then have "wpE (access K store z x sf) (seen_flat V z T B) stops" by (intro access_agrees [OF K]) simp_all
  then show ?case unfolding accesses.simps wpE_bindE by (rule wpE_mono) (use Cons in simp_all)
qed (simp add: wpE_Inr)

text \<open>What is in memory is what the program reads.\<close>

lemma agrees_in_memory:
  assumes "tidy V T s" "agrees V z (s, f)" "a \<in> in_memory s"
  shows "mem V (kst s) a = f a"
proof -
  obtain p where p: "p \<in> tracked s" "va (heap s p) = a" "in_dram (heap s p)" "a \<noteq> 0" using assms(3) by (auto simp: in_memory_def)
  have "p < npool s" by (rule tracked_page(1) [of "{}"]) (use assms(1) p in \<open>auto simp: tidy_def good_def sys_inv_def\<close>)
  then show ?thesis using assms(2) p by (auto simp: agrees_def content_def)
qed

end
