(* ===== verification/Contents_Reference.thy ===== *)
theory Contents_Reference
  imports Reference Contents_Flat
begin

text \<open>
  A concrete machine that has memory, a swap device and rings of requests, for the instances of the theorems on the
  contents of pages. Its wait completes the oldest request of the ring.
\<close>

section \<open>The machine\<close>

record machine =
  m_mem :: "u64 \<Rightarrow> nat"
  m_disk :: "u64 \<Rightarrow> nat"
  m_base :: "u64 \<Rightarrow> nat"
  m_queue :: "ring_id \<Rightarrow> request list"

fun m_complete :: "request \<Rightarrow> machine \<Rightarrow> machine" where
  "m_complete (Read_into b off) k = k\<lparr>m_mem := (m_mem k)(b := m_disk k off)\<rparr>"
| "m_complete (Write_from b off) k = k\<lparr>m_disk := (m_disk k)(off := m_mem k b)\<rparr>"

definition m_wait :: "ring_id \<Rightarrow> machine \<Rightarrow> bool \<times> machine" where
  "m_wait r k = (case m_queue k r of [] \<Rightarrow> (True, k)
     | q # qs \<Rightarrow> (True, (m_complete q k)\<lparr>m_queue := (m_queue k)(r := qs)\<rparr>))"

definition m_add :: "ring_id \<Rightarrow> request \<Rightarrow> machine \<Rightarrow> machine" where
  "m_add r q k = k\<lparr>m_queue := (m_queue k)(r := m_queue k r @ [q])\<rparr>"

definition machine_kernel :: "machine kernel" where
  "machine_kernel = \<lparr>
     k_mmap = (\<lambda>addr len prot flags off k. if len = 0 \<or> 0x100000000000 < len then (None, k) else (Some 0x7000000000, k)),
     k_munmap = (\<lambda>a len k. (True, k)), k_memset0 = (\<lambda>a len k. k),
     k_madvise_dontneed = (\<lambda>a len k. (True, k\<lparr>m_mem := (m_mem k)(a := 0), m_base := (m_base k)(a := 0)\<rparr>)),
     k_fopen = (\<lambda>f k. (True, k)), k_open_disk = (\<lambda>f k. (3, k)), k_sigaction = (\<lambda>k. (True, k)),
     k_pthread_create = (\<lambda>k. (True, k)), k_uffd_open = (\<lambda>k. (True, k)), k_uffd_api = (\<lambda>k. (True, k)),
     k_uffd_register = (\<lambda>a len k. (True, k)),
     k_uffd_copy = (\<lambda>a b len k. (True, k\<lparr>m_mem := (m_mem k)(a := m_mem k b), m_base := (m_base k)(a := m_mem k b)\<rparr>)),
     k_uffd_writeprotect = (\<lambda>a len b k. (True, k)),
     k_uffd_get_flag = (\<lambda>a f g k. (Some (0, if m_mem k a = m_base k a then 0 else PT_DIRTY_FLAG), k)),
     k_uffd_clear_flag = (\<lambda>a f g k. (True, k)), k_uffd_tlbflush = (\<lambda>a len k. (True, k)),
     k_pread = (\<lambda>fd d len off k. (True, k)), k_pwrite = (\<lambda>fd d len off k. (True, k)),
     u_queue_init = (\<lambda>r k. (True, k)), u_get_sqe = (\<lambda>r k. (True, k)),
     u_prep_read = (\<lambda>r fd b len off. m_add r (Read_into b off)), u_prep_write = (\<lambda>r fd b len off. m_add r (Write_from b off)),
     u_submit = (\<lambda>r k. (True, k)), u_wait_cqe = m_wait, u_cqe_seen = (\<lambda>r k. k)\<rparr>"

definition machine_view :: "(machine, nat) view" where
  "machine_view = \<lparr>mem = m_mem, disk = m_disk, base = m_base, queued = m_queue, zeros = 0x300000000\<rparr>"

lemma machine_laws: "data_laws machine_kernel machine_view"
proof -
  have w: "\<exists>q \<in> set (m_queue k r). completes machine_view q k (snd (m_wait r k)) \<and>
      m_queue (snd (m_wait r k)) = (m_queue k)(r := remove1 q (m_queue k r))" if ne: "m_queue k r \<noteq> []" for k r
  proof -
    obtain q qs where q: "m_queue k r = q # qs" using ne by (cases "m_queue k r") auto
    then show ?thesis by (intro bexI [of _ q]; cases q) (simp_all add: m_wait_def completes_def machine_view_def)
  qed
  show ?thesis unfolding data_laws_def
  proof (intro conjI allI, goal_cases)
    case (7 r k)
    then show ?case using w [of k r] by (simp add: machine_kernel_def machine_view_def Let_def)
  qed (simp_all add: machine_kernel_def machine_view_def same_def m_add_def Let_def PT_DIRTY_FLAG_def split: if_splits)
qed

lemma machine_reliable: "reliable machine_kernel"
  by (simp add: reliable_def machine_kernel_def m_wait_def split: list.split)

lemma machine_mmap: "k_mmap machine_kernel addr len prot flags off k =
   (if len = 0 \<or> 0x100000000000 < len then (None, k) else (Some 0x7000000000, k))"
  by (simp add: machine_kernel_def)

lemma machine_mmap_contract: "mmap_contract machine_kernel"
  using ref_mmap_contract unfolding mmap_contract_def ref_mmap machine_mmap by (auto split: if_splits)

text \<open>Its \<open>mmap\<close> returns regions above the pages of \<open>B\<close>.\<close>

lemma machine_regions:
  assumes "\<forall>b \<in> B. b < 0x7000000000"
  shows "region_laws machine_kernel machine_view B"
proof -
  have "region 0x7000000000 e \<inter> B = {}" for e using assms by (force simp: region_def)
  then show ?thesis unfolding region_laws_def machine_mmap
    by (simp add: machine_kernel_def machine_view_def split: if_split)
qed

definition m_store :: "u64 \<Rightarrow> nat \<Rightarrow> machine \<Rightarrow> machine" where
  "m_store a d k = k\<lparr>m_mem := (m_mem k)(a := d)\<rparr>"

lemma machine_store: "store_law m_store machine_view"
  by (simp add: store_law_def m_store_def machine_view_def)

section \<open>A state with a page on disk\<close>

text \<open>The state \<open>ref_swapped\<close> on this machine, with buffers for the threads and a page of zeros; the slot of the page holds 7.\<close>

definition paged_thread :: thread_local where
  "paged_thread = ref_thread\<lparr>buffer_space := 0x100000000, buffer_allocated := True,
     prefetch_buffer := 0x200000000, prefetch_buffer_allocated := True\<rparr>"

definition paged :: "machine ext" where
  "paged = \<lparr>heap = heap ref_swapped, nalloc = nalloc ref_swapped, lists = lists ref_swapped, pages = pages ref_swapped,
     held = held ref_swapped, tls = (\<lambda>_. paged_thread), cur = 0, stats = stats ref_swapped, dramsize = dramsize ref_swapped,
     disksize = disksize ref_swapped, diskfd = diskfd ref_swapped, is_init = is_init ref_swapped, main_mmap = main_mmap ref_swapped,
     page_cache = 0x300000000, prev_fault_global_1 = 0, prev_fault_global_2 = 0, kswapd_running = kswapd_running ref_swapped,
     shrinkage_running = shrinkage_running ref_swapped, kswapd_at = kswapd_at ref_swapped, safe_to_free = 0,
     main_vma = main_vma ref_swapped,
     kst = \<lparr>m_mem = (\<lambda>_. 0), m_disk = (\<lambda>_. 0)(0 := 7), m_base = (\<lambda>_. 0), m_queue = (\<lambda>_. [])\<rparr>\<rparr>"

lemma paged_fields:
  "heap paged = heap ref_swapped" "lists paged = lists ref_swapped" "pages paged = pages ref_swapped" "held paged = held ref_swapped"
  "npool paged = npool ref_swapped" "nframes paged = nframes ref_swapped" "is_init paged = is_init ref_swapped"
  "shrinkage_running paged = shrinkage_running ref_swapped" "tls paged = (\<lambda>_. paged_thread)" "safe_to_free paged = 0" "cur paged = 0"
  "page_cache paged = 0x300000000"
  "dramsize paged = dramsize ref_swapped" "disksize paged = disksize ref_swapped"
  "kst paged = \<lparr>m_mem = (\<lambda>_. 0), m_disk = (\<lambda>_. 0)(0 := 7), m_base = (\<lambda>_. 0), m_queue = (\<lambda>_. [])\<rparr>"
  unfolding npool_def nframes_def paged_def by simp_all

lemma paged_good: "good paged" "tracked paged = tracked ref_swapped"
proof -
  have "pool_inv {} paged = pool_inv {} ref_swapped" by (rule pool_inv_cong) (simp_all only: paged_fields)
  moreover have "index_inv paged"
    by (rule index_inv_cong [OF sys_invD(2) [OF ref_swapped(1)]]) (simp_all only: paged_fields)
  ultimately show "good paged" using ref_swapped(1-3) by (simp add: good_def sys_inv_def paged_fields)
qed (simp add: paged_fields)

lemma paged_away: "\<not> in_dram (heap ref_swapped 63)"
  using tracked_page(6) [OF sys_invD(1,2) [OF ref_swapped(1)] ref_swapped(4)] ref_swapped(5,6) by simp

lemma paged_buffers: "{0, 0x300000000, 0x7000000000, 0x7000001000} \<inter> buffer_pages {0} paged = {}"
proof -
  have "unat (0x200000000 + of_nat i * PAGE_SIZE :: u64) = 0x200000000 + i * 4096" if "i < 32" for i
    using that by (simp add: unat_word_ariths unat_of_nat)
  then have "0x200000000 + of_nat i * PAGE_SIZE \<notin> {0, 0x300000000, 0x7000000000, 0x7000001000 :: u64}" if "i < 32" for i
    using that by (auto simp: unat_arith_simps)
  then show ?thesis by (auto simp: buffer_pages_def paged_fields paged_thread_def)
qed

lemma paged_library: "{0, 0x7000000000, 0x7000001000} \<inter> library_pages {0} paged = {}"
  using paged_buffers by (auto simp: library_pages_def paged_fields)

lemma paged_regions: "region_laws machine_kernel machine_view (library_pages {0} paged)"
proof (rule machine_regions)
  have "0x200000000 + of_nat i * PAGE_SIZE < (0x7000000000 :: u64)" if "i < 32" for i
  proof -
    have "unat (0x200000000 + of_nat i * PAGE_SIZE :: u64) = 0x200000000 + i * 4096"
      using that by (simp add: unat_word_ariths unat_of_nat)
    then show ?thesis using that by (simp add: word_less_nat_alt)
  qed
  then show "\<forall>b \<in> library_pages {0} paged. b < 0x7000000000"
    by (auto simp: library_pages_def buffer_pages_def paged_fields paged_thread_def)
qed

lemma paged_only: "p < npool paged \<Longrightarrow> va (heap paged p) \<noteq> 0 \<Longrightarrow> p = 63"
  using ref_swapped(9,10) by (simp add: paged_fields)

lemma paged_mapped: "mapped paged = {0x7000000000}"
proof -
  have "p = 63" if "p \<in> tracked ref_swapped" "va (heap ref_swapped p) \<noteq> 0" for p
    using tracked_page(1) [OF sys_invD(1,2) [OF ref_swapped(1)] that] that(2) ref_swapped(10) by (simp add: ref_swapped(9))
  then show ?thesis using ref_swapped(4,5) by (force simp: mapped_def paged_good(2) paged_fields)
qed

lemma paged_tidy: "tidy machine_view {0} paged"
proof -
  have "synced machine_view paged"
    using ref_swapped(10) paged_away unfolding synced_def paged_fields ref_swapped(9) by blast
  then show ?thesis using paged_good(1) paged_buffers paged_library paged_mapped unfolding tidy_def
    by (auto simp: paged_fields paged_thread_def machine_view_def)
qed

text \<open>What the program sees of it: 7 in its page, zeros everywhere else.\<close>

lemma paged_agrees: "agrees machine_view 0 (paged, (\<lambda>_. 0)(0x7000000000 := 7))"
proof -
  let ?f = "(\<lambda>_. 0)(0x7000000000 := 7)"
  have c: "content machine_view paged 63 = 7" "va (heap paged 63) = 0x7000000000"
    using paged_away by (simp_all add: content_def paged_fields machine_view_def ref_swapped(5,11))
  have "content machine_view paged p = ?f (va (heap paged p))" if "p < npool paged" "va (heap paged p) \<noteq> 0" for p
    unfolding paged_only [OF that] c by simp
  moreover have "?f a = mem machine_view (kst paged) (zeros machine_view)" if "a \<notin> {0x7000000000}" for a
    using that by (simp add: paged_fields machine_view_def)
  moreover have "mem machine_view (kst paged) (zeros machine_view) = 0" by (simp add: paged_fields machine_view_def)
  ultimately show ?thesis unfolding agrees_def Let_def prod.case paged_mapped by (simp only: simp_thms) blast
qed

lemma paged:
  "63 \<in> tracked paged" "va (heap paged 63) = 0x7000000000" "swapped_out (heap paged 63)" "frame_free paged"
  "\<not> sequential_fault False 0x7000000000 (me paged)" "63 < npool paged" "page_aligned (safe_to_free paged)"
  "content machine_view paged 63 = 7" "disk machine_view (kst paged) (virtual_offset (heap paged 63)) = 7"
proof -
  show "frame_free paged" using ref_swapped_free by (simp add: frame_free_def paged_fields)
  show "content machine_view paged 63 = 7" "disk machine_view (kst paged) (virtual_offset (heap paged 63)) = 7"
    using paged_away by (simp_all add: content_def paged_fields machine_view_def ref_swapped(11))
qed (use ref_swapped(4-6,9) in \<open>simp_all add: paged_good(2) paged_fields paged_thread_def ref_thread_def sequential_fault_def page_aligned_def\<close>)

end
