(* ===== verification/Spec2Isabelle.thy ===== *)
theory Spec2Isabelle
  imports Disklinux_Counts Disklinux_Unused Timer Polling Interleaving First_Touch PageRank_Reference Contents_Reference
begin

text \<open>
  ExtMem is a user-level memory manager. A shared library, loaded into a program, intercepts its large
  anonymous \<open>mmap\<close> calls, registers the regions with \<open>userfaultfd\<close>, handles the page faults of the regions in
  a signal handler and swaps pages between a bounded amount of DRAM and a swap device. This library of
  theories models the C code under \<open>src/src\<close> in the two configurations that the repository builds, with its
  default policy and with the PageRank policy (\<open>USWAP_IOURING\<close>, \<open>USWAP_SIGNAL\<close>, \<open>SWAPPER\<close>, \<open>TRY_PREFETCH\<close>, and \<open>LRU_SWAP\<close>
  with \<open>VECTOR_EVICTION\<close> or \<open>PAGE_RANK\<close>), and proves it correct.

  \<^bold>\<open>Parts and theories\<close>

  \<^item> \<open>Prelude\<close>: outcomes of a C function (a returned value, or one of the ways to stop: failed assertion,
    null pointer, mutex locked twice, endless loop, failed system call, memory or swap space exhausted),
    their sequencing \<open>bindE\<close> and the weakest precondition \<open>wpE\<close>, words and pages.
  \<^item> \<open>Machine\<close>: the state, from \<open>core.h\<close>, \<open>fifo.h\<close>, \<open>uthash.h\<close> and the globals of \<open>core.c\<close>,
    \<open>policies/disklinux.c\<close> and \<open>policies/pageRank.c\<close>: the heap of descriptors \<open>struct user_page\<close>, the links and heads of the queues,
    the hash index, the mutexes, the thread-local variables, the counters. The kernel and liburing are not
    part of the sources: they are the record \<open>kernel\<close> of functions over an arbitrary kernel state \<open>kst\<close>, a
    parameter of every definition that calls them.
  \<^item> \<open>Fifo\<close> (\<open>fifo.c\<close>): the doubly linked queues, pointer by pointer, and the locale \<open>page_queues\<close> of what
    they promise, interpreted on the model: each queue refines a list.
  \<^item> \<open>Page_Table\<close> (\<open>uthash.h\<close> and \<open>add_page\<close>, \<open>remove_page\<close>, \<open>find_page\<close> of \<open>core.c\<close>): the hash table with
    its chains, bucket expansion, the Jenkins hash and the consistency check; locale \<open>page_index\<close>, interpreted on the model.
  \<^item> \<open>Storage\<close> (\<open>storage_iouring.c\<close>, \<open>storagemanager.c\<close>), \<open>Observability\<close> (\<open>observability.c\<close>),
    \<open>Core_Migrate\<close> (the migrations of \<open>core.c\<close>, single and vector).
  \<^item> \<open>Core_Faults\<close>: write-protection, major and first faults, the prefetcher, the signal handler, prefaulting.
    \<open>Core_Map\<close>: \<open>mmap\<close>, \<open>munmap\<close>, start-up. Both take the paging policy as a record \<open>policy\<close>, one field for
    each macro of \<open>core.h\<close>.
  \<^item> \<open>Pool\<close>: the invariant of the descriptors, \<open>pool_inv F\<close>: every frame and slot belongs to exactly one
    descriptor, every descriptor outside \<open>F\<close> (those that an operation has in its hands) is in exactly one
    queue, and its fields fit that queue.
  \<^item> \<open>Policy\<close>: the contract of the core with a policy, the locale \<open>fault_policy\<close> for faults, prefetching and
    \<open>mmap\<close> and its extension \<open>paging_policy\<close> for \<open>munmap\<close>; and the contracts between the parts of a policy, \<open>reclaimer\<close>
    and \<open>frame_source\<close>.
  \<^item> \<open>Disklinux\<close> (\<open>policies/disklinux.c\<close>): the two-queue clock of the default policy, \<open>kswapd\<close>, the scalar and
    the vector eviction workers, allocation with direct reclaim, swap-in, removal, start-up. Its lemmas are in
    \<open>Disklinux_Scan\<close>, \<open>Disklinux_Evict\<close>, \<open>Disklinux_Vector\<close>, \<open>Disklinux_Alloc\<close> and \<open>Disklinux_Counts\<close> (how
    many pages each operation moves between which queues); \<open>Disklinux_Init\<close> interprets the contract. \<open>Disklinux_Unused\<close>: the
    synchronous allocators, which nothing calls, over a parameter for the function \<open>direct_allocate_page\<close> that no file defines.
  \<^item> \<open>PageRank\<close> (\<open>policies/pageRank.c\<close>): the policy that keeps a window of addresses around the last major fault
    and prefetches the block behind it. \<open>PageRank_Safe\<close> interprets the contract, \<open>PageRank_Window\<close> refines the
    window scan to a function on lists, \<open>PageRank_System\<close> has the prefetch worker and the runs of this build,
    \<open>PageRank_Reference\<close> its concrete machine.
  \<^item> \<open>Core_Safe\<close>, \<open>Core_Prefetch\<close>, \<open>Core_Handlers\<close>, \<open>Core_Regions\<close>: the correctness of the core for any policy
    that meets the contract, inside the locale. The core is specified by two sets: \<open>mapped\<close>, the addresses the
    library manages, and \<open>in_memory\<close>, those of them that are in DRAM.
  \<^item> \<open>Intercept\<close> (\<open>intercept_layer.c\<close>), \<open>Timer\<close> (\<open>timer.c\<close>). \<open>Polling\<close>: the thread \<open>handle_fault\<close> that a build with
    \<open>USWAP_UFFD\<close> runs in place of the signal handler.
  \<^item> \<open>System\<close>: start-up over any policy that fills its pool (locale \<open>policy_start\<close>), the operations \<open>op\<close> that threads can trigger, and the states \<open>reachable\<close> by them.
    \<open>Liveness\<close>: when operations return. \<open>Limits\<close>: behaviours of the code that look unintended.
    \<open>Reference\<close>: a concrete machine for the instances of the theorems.
  \<^item> \<open>Interleaving\<close>: the handler, the prefetcher, the scans, the evictions and \<open>munmap\<close> as programs of single accesses to the flags
    and the queue of one page, to \<open>handler_lock\<close> and to \<open>allocator_lock\<close>, and a step relation that interleaves any number of threads.
    \<open>First_Touch\<close>: the same for \<open>handle_first_fault\<close> of any number of threads on one address.
  \<^item> \<open>Contents\<close>: the data in the pages. The kernel moves it, so what is known of it are laws on the kernel's calls,
    \<open>data_laws\<close>, over a view of its state (memory, swap device, what a page held when its dirty bit was last clear,
    queued requests); the scalar eviction. \<open>Contents_Swapin\<close>: allocation and swap-in for any policy (locales \<open>data_reclaimer\<close>
    and \<open>data_source\<close>). \<open>Contents_Requests\<close>: batches of requests that complete in any order; \<open>Contents_Vector\<close>: the vector
    eviction. \<open>Contents_Core\<close>: the handlers and the prefetcher for any policy that keeps contents (locale \<open>data_policy\<close>),
    which \<open>Contents_Policy\<close> interprets on both policies. \<open>Contents_System\<close>: states between operations; \<open>Contents_Regions\<close>:
    \<open>mmap\<close> and \<open>munmap\<close> (locale \<open>data_paging\<close>); \<open>Contents_Flat\<close>: runs with stores of the program, against a flat memory;
    \<open>Contents_Reference\<close>: a machine that moves data.

  \<^bold>\<open>What is shown\<close>

  The invariant holds in every reachable state; operations on such states never fail an assertion on the
  library's own data, follow a null pointer, lock a mutex twice or loop for ever; two descriptors never stand
  for the same frame or slot and all places are in range. Faults make the faulting address managed and
  resident, \<open>munmap\<close> forgets exactly its region, \<open>mmap\<close> manages exactly what it populates; with free frames and
  a kernel that does not fail, faults return. The queues refine lists, the index refines a finite map, and the
  reclaim moves pages between queues without losing any. The same holds with the PageRank policy, except that its
  \<open>munmap\<close> waits for the eviction workers; its scan gives up exactly the first pages outside the window, and its
  prefetch worker ends each turn. Paging is transparent: on a kernel that keeps the data laws every page holds what was stored
  there last, or zeros if nothing was since it was mapped, wherever it is, however evictions, swap-ins, prefetching, \<open>mmap\<close> and
  \<open>munmap\<close> follow each other. When single accesses interleave, the
  locks exclude each other and a page is in one pair of hands at a time; first faults on one address meet without harm; and
  three races in the handling of the flags are the only way in which work on a page goes wrong: each of them is
  reachable, and without them no thread fails and every run can settle.

  \<^bold>\<open>Bounds and choices\<close>

  \<^item> Except in \<open>Interleaving\<close> and \<open>First_Touch\<close>, each operation runs to its end before another thread's operation starts; interleavings
    are sequences of whole operations, and a mutex that is held when an operation starts would be a deadlock. A busy wait on a
    flag that only another thread could clear is therefore an endless loop (\<open>Spin\<close>), which the invariant rules
    out.
  \<^item> The prefetcher holds up to 32 frames while it asks for more; the loop of \<open>fetch_free_asynch\<close> makes progress
    only while more than half of the frames are in the active and inactive queues. Theorems about faults that may prefetch assume
    at least 63 frames (252 KiB of DRAM), twice 32 less one, so that the prefetcher's share stays below half.
  \<^item> Loops have structural recursion or a termination proof; where the C loop could go on for ever without a
    change of state the model returns \<open>Spin\<close>.
  \<^item> The policy's loop counters are natural numbers or unbounded integers: they are bounded by the number of
    descriptors, and \<open>lrudisk_init\<close> counts descriptors with an \<open>int\<close>, which is exact for sizes below 8 TiB.
    Sizes, offsets, addresses, flags, hash values and bucket counts are words of their width in the code.
  \<^item> The inner loop of the prefetch worker is given 8194 turns. Every turn that goes on advances by at least one page
    through a block of 8193 page addresses, so the bound is never reached for addresses below \<open>2 ^ 47\<close>.
  \<^item> The data laws say of the kernel: a request takes effect at the latest when its completion is waited for, in any
    order within a ring, and not in part; \<open>UFFDIO_COPY\<close> copies a page and leaves it clean; \<open>MADV_DONTNEED\<close> drops that page
    only; a page whose dirty bit is clear holds what was copied there last; \<open>mmap\<close> without \<open>MAP_FIXED\<close> takes a region that nobody
    uses and \<open>munmap\<close> drops its region only (\<open>region_laws\<close>). The theorems that use them also assume
    (\<open>tidy\<close>) that the threads have their I/O buffers already and that these and the page from which first faults
    copy (\<open>page_cache\<close>) are no pages of the application.
  \<^item> The request for a bucket array of \<open>2 ^ 32\<close> buckets, where the bucket counter itself would wrap to zero,
    is taken to fail; smaller requests of the hash table succeed.

  \<^bold>\<open>Not modelled\<close>

  Printing of statistics and log messages; \<open>elapsed\<close>, which returns a floating-point number; the parts of \<open>uthash.h\<close> that the
  library does not use; interleavings inside operations on more than one page at a time; the contents of pages when a program maps a region
  over another with \<open>MAP_FIXED\<close>.
\<close>

section \<open>The whole library\<close>

text \<open>C1. In every state that a program can reach from start-up by the operations of the library, every DRAM
  frame and every disk slot belongs to exactly one descriptor, every descriptor is in the queue that says what
  it is used for, the index holds exactly the descriptors with an address, and no mutex is left locked.\<close>

theorem reachable_invariant:
  assumes "reachable K getenv s" "mmap_contract K" "63 \<le> frames_requested getenv"
  shows "pool_inv {} s \<and> index_inv s \<and> \<not> held s Allocator_lock \<and> \<not> shrinkage_running s"
  using reachable_good [OF assms] by (simp add: good_def sys_inv_def)

theorem reachable_invariant_witness:
  "reachable ref_kernel ref_getenv ref_state \<and> mmap_contract ref_kernel \<and> 63 \<le> frames_requested ref_getenv \<and>
   pool_inv {} ref_state \<and> index_inv ref_state"
  using reachable_invariant [OF ref_reachable ref_mmap_contract] ref_reachable ref_mmap_contract
  by (simp add: ref_frames_requested)



text \<open>C3. Two descriptors of the pool never stand for the same DRAM frame or disk slot, a resident page lies
  within the DRAM file and a page on disk within the swap space: no page's contents can overwrite another's.\<close>

theorem places_disjoint_and_in_range:
  assumes "reachable K getenv s" "mmap_contract K" "63 \<le> frames_requested getenv" "p < npool s" "q < npool s" "p \<noteq> q"
  shows "frame s p \<noteq> frame s q \<and>
    (if in_dram (heap s p) then virtual_offset (heap s p) + PAGE_SIZE \<le> dramsize s \<and> virtual_offset (heap s p) < dramsize s
     else virtual_offset (heap s p) + PAGE_SIZE \<le> disksize s \<and> virtual_offset (heap s p) < disksize s)"
proof -
  have i: "pool_inv {} s" using reachable_good [OF assms(1-3)] by (simp add: good_def sys_inv_def)
  have "frame s p \<noteq> frame s q" using pool_invD(9) [OF i] assms(4-6) by (auto simp: bij_betw_def inj_on_def)
  then show ?thesis using pool_inv_place [OF i assms(4)] by simp
qed

theorem places_disjoint_and_in_range_witness:
  "frame ref_state 0 \<noteq> frame ref_state 64"
proof -
  have n: "npool ref_state = 71" using ref_init(3,4) by (simp add: npool_def)
  show ?thesis
    using places_disjoint_and_in_range [OF ref_reachable ref_mmap_contract, of 0 64] by (simp add: ref_frames_requested n)
qed

text \<open>C4. The library's own structures are well formed in every reachable state: the consistency check of the hash table finds
  the counter of every bucket and of the table right; every queue is a doubly linked list without repetition whose ends and entry
  counter are those in its head; a page names the queue it is in, and has no neighbours when it is in none.\<close>

theorem structures_well_formed:
  assumes "reachable K getenv s" "mmap_contract K" "63 \<le> frames_requested getenv"
  shows "HASH_FSCK (pages s) \<and> (\<forall>l. fifo_rep (link (lists s)) (queue (lists s) l) (seq (lists s) l)) \<and>
    (\<forall>l p. p \<in> set (seq (lists s) l) \<longleftrightarrow> page_list s p = Some l) \<and>
    (\<forall>p. page_list s p = None \<longrightarrow> next_p (link (lists s) p) = None \<and> prev_p (link (lists s) p) = None)"
proof -
  have i: "pool_inv {} s" "index_inv s" using reachable_good [OF assms] by (simp_all add: good_def sys_inv_def)
  have "table_ok (key_in s) (pages s)" using i(2) by (simp add: index_inv_def index_ok_def)
  then have "HASH_FSCK (pages s)" by (rule table_ok_fsck)
  moreover have "lists_rep (lists s) (seq (lists s))" using pool_invD(1) [OF i(1)] by (simp add: queues_free_def lists_ok_def)
  ultimately show ?thesis unfolding lists_rep_def by blast
qed

theorem structures_well_formed_witness:
  "HASH_FSCK (pages ref_state) \<and> fifo_rep (link (lists ref_state)) (queue (lists ref_state) Active_list) (seq (lists ref_state) Active_list)"
  using structures_well_formed [OF ref_reachable ref_mmap_contract] by (simp add: ref_frames_requested)





section \<open>Interleavings\<close>

text \<open>C7. However the steps of threads that fault on, prefetch, scan, evict and unmap one page interleave, until it is taken for
  another address, \<open>handler_lock\<close> and
  \<open>allocator_lock\<close> are held by the threads inside their critical sections and nobody else, and the page is in no queue exactly
  while one thread, and only one, has it in its hands.\<close>

theorem holders_exclusive:
  assumes "interleaved w"
  shows "(\<forall>t. locked (pcs w t) \<longleftrightarrow> sh_lock (pg w) = Some t) \<and> (\<forall>t. allocating (pcs w t) \<longleftrightarrow> sh_alloc (pg w) = Some t) \<and>
    (sh_list (pg w) = None \<longleftrightarrow> (\<exists>t. carrying (pcs w t))) \<and> (\<forall>t u. carrying (pcs w t) \<longrightarrow> carrying (pcs w u) \<longrightarrow> t = u)"
  using interleaved_exclusive [OF assms] by (simp add: exclusive_def)

theorem holders_exclusive_witness:
  "{t. carrying (pcs (duo (Evict False Set_swapped) (Fetch Reenter) crossed_page) t)} = {0} \<and>
   locked (pcs (duo (Evict False Set_swapped) (Fetch Reenter) crossed_page) 0)"
proof -
  let ?w = "duo (Evict False Set_swapped) (Fetch Reenter) crossed_page"
  have "carrying (pcs ?w 0)" by simp
  then show ?thesis using holders_exclusive [OF interleaved_early] by (auto simp: crossed_page_def page_at_def)
qed

text \<open>C8. As long as no race occurs - the page leaves the inactive queue before the thread that brought it in has cleared its
  flags, the page is claimed before an eviction has made its last store, or the page is unmapped - no thread fails an
  assertion, in whatever order the threads run, and when all are done the flags agree with the queue that the page is in.\<close>

theorem unraced_runs_safe:
  assumes "unraced w"
  shows "\<not> crashes w \<and> (at_rest w \<longrightarrow> coherent (pg w))"
  using unraced_safe [OF assms] by simp

theorem unraced_runs_safe_witness: "\<not> crashes evicting \<and> unraced evicting"
  using unraced_runs_safe [OF unraced_evicting(1)] unraced_evicting(1) by simp

text \<open>C9. Such a run is never stuck: from each of its states the threads can all finish, without a race.\<close>

theorem unraced_runs_settle:
  assumes "unraced w"
  shows "\<exists>w'. rtranclp step w w' \<and> unraced w' \<and> at_rest w' \<and> coherent (pg w')"
  using unraced_settles [OF assms] unraced_safe(2) by blast

theorem unraced_runs_settle_witness: "\<not> at_rest evicting \<and> (\<exists>w'. rtranclp step evicting w' \<and> at_rest w' \<and> coherent (pg w'))"
  using unraced_runs_settle [OF unraced_evicting(1)] unraced_evicting(2) by blast

text \<open>C10. Any number of threads may fault on an address that has no page yet: in every order of their steps no thread fails, in
  particular the kernel is asked only once for the mapping, no two descriptors get the address, and when all are done one frame
  is the page, in memory and in the inactive queue, and every other frame is free again.\<close>

theorem first_touch_once:
  assumes "touching w"
  shows "(\<forall>t fr e. touch_step t fr (tpcs w t) (tsh w) \<noteq> Inl e) \<and> (\<forall>p q. tc_va (tsh w) p \<longrightarrow> tc_va (tsh w) q \<longrightarrow> p = q) \<and>
    (tpcs w = (\<lambda>_. Untouched) \<longrightarrow> untouched (tsh w) \<or>
      (\<exists>p. tc_index (tsh w) = Some p \<and> tc_list (tsh w) p = Some Inactive_list \<and> \<not> tc_migrating (tsh w) p \<and> tc_mapped (tsh w) \<and>
        (\<forall>q. q \<noteq> p \<longrightarrow> \<not> tc_va (tsh w) q \<and> tc_list (tsh w) q = Some Dram_free_list)))"
  using touching_safe [OF assms] touching_done [OF assms] by blast

theorem first_touch_once_witness: "touching \<lparr>tpcs = (\<lambda>_. Untouched), tsh = met\<rparr> \<and> {p. tc_va met p} = {5}"
proof -
  have "tc_va met 5" by (simp add: met_def)
  then have "{p. tc_va met p} = {5}" using first_touch_once [OF touching_met] by auto
  then show ?thesis using touching_met by simp
qed

section \<open>Faults\<close>

text \<open>C11. A first fault at a page-aligned address: the address is managed afterwards, and unless it already was
  it is in DRAM; every other managed address stays managed, and the invariant is kept.\<close>

theorem first_fault_correct:
  assumes "sys_inv {} s" "0 < nframes s" "b \<noteq> 0" "page_aligned b"
  shows "wpE (handle_first_fault K (lru_swap K) b s)
    (\<lambda>s'. sys_inv {} s' \<and> config s s' \<and> mapped s' = insert b (mapped s) \<and> (b \<in> mapped s \<or> b \<in> in_memory s')) stops"
  by (rule disklinux.first_fault_wp [OF assms])

theorem first_fault_correct_witness:
  "wpE (handle_first_fault ref_kernel (lru_swap ref_kernel) 0x7000000000 ref_state)
    (\<lambda>s'. sys_inv {} s' \<and> mapped s' = {0x7000000000} \<and> 0x7000000000 \<in> in_memory s') stops"
proof -
  have "page_aligned 0x7000000000" unfolding page_aligned_unat by simp
  then show ?thesis
    using first_fault_correct [OF ref_started(1), of "0x7000000000" ref_kernel] ref_nframes ref_started(3)
    by (auto elim!: wpE_mono)
qed

text \<open>C12. A major fault on a managed page: the managed addresses stay the same, and the page is in DRAM
  afterwards unless the fault continues a sequential run, in which case the prefetcher runs as well and may
  have to evict it again.\<close>

theorem missing_fault_correct:
  assumes "sys_inv {} s" "63 \<le> nframes s" "p \<in> tracked s" "va (heap s p) \<noteq> 0"
  shows "wpE (handle_missing_fault K (lru_swap K) p s) (\<lambda>s'. sys_inv {} s' \<and> config s s' \<and> mapped s' = mapped s \<and>
     (sequential_fault False (va (heap s p)) (me s) \<or> va (heap s p) \<in> in_memory s')) stops"
  by (rule disklinux.missing_fault_wp [OF assms])

theorem missing_fault_correct_witness:
  "wpE (handle_missing_fault ref_kernel (lru_swap ref_kernel) 63 ref_swapped)
    (\<lambda>s'. sys_inv {} s' \<and> mapped s' = mapped ref_swapped) stops"
  using missing_fault_correct [OF ref_swapped(1), of 63 ref_kernel] ref_swapped
  by (auto elim!: wpE_mono)

text \<open>C13. The signal handler: whatever the state of the page, after a fault outside the page at address 0 the
  page's address is managed.\<close>

theorem signal_handler_correct:
  assumes "sys_inv {} s" "63 \<le> nframes s" "code \<noteq> SIGSEGV" "b = a AND NOT (PAGE_SIZE - 1)" "b \<noteq> 0"
  shows "wpE (uswap_sig_handler K (lru_swap K) code a s) (\<lambda>s'. sys_inv {} s' \<and> config s s' \<and>
     mapped s' = insert b (mapped s) \<and> (sequential_fault False b (me s) \<or> b \<in> in_memory s')) stops"
  by (rule disklinux.sig_handler_wp [OF assms])

theorem signal_handler_correct_witness:
  "wpE (uswap_sig_handler ref_kernel (lru_swap ref_kernel) SIGBUS 0x7000000010 ref_state)
    (\<lambda>s'. sys_inv {} s' \<and> mapped s' = {0x7000000000}) stops"
  using signal_handler_correct [OF ref_started(1), of SIGBUS "0x7000000000" "0x7000000010" ref_kernel] ref_nframes ref_started(3)
  by (auto simp: SIGBUS_def SIGSEGV_def elim!: wpE_mono)

text \<open>C14. On a machine whose system calls succeed, a first fault always returns when a frame is free and the
  index can grow; a page that was not managed is in DRAM afterwards.\<close>

theorem first_fault_live:
  assumes "sys_inv {} s" "0 < nframes s" "b \<noteq> 0" "page_aligned b" "reliable K" "frame_free s" "index_room s"
  shows "\<exists>s'. handle_first_fault K (lru_swap K) b s = Inr s' \<and> sys_inv {} s' \<and> config s s' \<and>
    mapped s' = insert b (mapped s) \<and> (b \<in> mapped s \<or> b \<in> in_memory s')"
  by (rule first_fault_returns [OF assms])

theorem first_fault_live_witness:
  "\<exists>s'. handle_first_fault ref_kernel (lru_swap ref_kernel) 0x7000000000 ref_state = Inr s' \<and>
    mapped s' = {0x7000000000} \<and> 0x7000000000 \<in> in_memory s'"
  using first_fault_live [OF ref_started(1) _ _ ref_aligned ref_reliable ref_frame_free ref_index_room] ref_nframes ref_started(3)
  by auto

text \<open>C15. On such a machine a major fault that does not continue a sequential run always returns when a
  frame is free, with the page in DRAM and the managed addresses unchanged.\<close>

theorem missing_fault_live:
  assumes "sys_inv {} s" "63 \<le> nframes s" "p \<in> tracked s" "va (heap s p) \<noteq> 0" "reliable K" "frame_free s"
    "\<not> sequential_fault False (va (heap s p)) (me s)"
  shows "\<exists>s'. handle_missing_fault K (lru_swap K) p s = Inr s' \<and> sys_inv {} s' \<and> config s s' \<and> mapped s' = mapped s \<and>
    va (heap s p) \<in> in_memory s'"
  by (rule missing_fault_returns [OF assms])

theorem missing_fault_live_witness:
  "\<exists>s'. handle_missing_fault ref_kernel (lru_swap ref_kernel) 63 ref_swapped = Inr s' \<and> 0x7000000000 \<in> in_memory s'"
  using missing_fault_live [OF ref_swapped(1) _ ref_swapped(4) _ ref_reliable ref_swapped_free] ref_swapped(2,5) ref_swapped_run
  by auto





section \<open>Regions\<close>

text \<open>C18. \<open>munmap\<close> of a page-aligned region below the last page of the address space forgets exactly the
  managed addresses of the region, gives back their frames, slots and reserves, and keeps the invariant.\<close>

theorem munmap_correct:
  assumes "sys_inv {} s" "region_ok addr (addr + len)"
  shows "wpE (extmem_munmap K (lru_swap K) addr len s)
    (\<lambda>s'. sys_inv {} s' \<and> config s s' \<and> mapped s' = mapped s - region addr (addr + len)) stops"
  by (rule disklinux.extmem_munmap_wp [OF assms])

theorem munmap_correct_witness:
  "wpE (extmem_munmap ref_kernel (lru_swap ref_kernel) 0x7000000000 0x10000 ref_swapped)
    (\<lambda>s'. 0x7000000000 \<in> mapped ref_swapped \<and> 0x7000000000 \<notin> mapped s') stops"
proof -
  have r: "region_ok 0x7000000000 (0x7000000000 + 0x10000)"
    using ref_aligned by (simp add: region_ok_def word_le_nat_alt)
  have m: "0x7000000000 \<in> region 0x7000000000 (0x7000000000 + 0x10000)"
    using ref_aligned by (simp add: region_def)
  have i: "0x7000000000 \<in> mapped ref_swapped" using ref_swapped(4,5) by (force simp: mapped_def)
  show ?thesis by (rule wpE_mono [OF munmap_correct [OF ref_swapped(1) r]]) (use m i in auto)
qed

text \<open>C19. \<open>mmap\<close> manages new addresses only when the caller asks for a populated mapping, and then exactly
  those of the mapping that the kernel returns.\<close>

theorem mmap_correct:
  assumes "sys_inv {} s" "0 < nframes s" "is_init s" "len \<noteq> 0" "mmap_contract K"
  shows "wpE (extmem_mmap K (lru_swap K) addr len prot flags off s) (\<lambda>r. sys_inv {} (snd r) \<and> config s (snd r) \<and>
     mapped (snd r) = mapped s \<union> (if snd (mmap_flags flags) then region (fst r) (fst r + PAGE_ROUND_UP len) else {})) stops"
  by (rule disklinux.extmem_mmap_wp [OF assms])

theorem mmap_correct_witness:
  "wpE (extmem_mmap ref_kernel (lru_swap ref_kernel) 0 0x80000000 3 MAP_ANONYMOUS 0 ref_state)
     (\<lambda>r. sys_inv {} (snd r) \<and> mapped (snd r) = {}) stops"
proof -
  have "\<not> snd (mmap_flags MAP_ANONYMOUS)" by (simp add: mmap_flags_spec(2) [of 0] flag_bits)
  then show ?thesis
    using mmap_correct [OF ref_started(1) _ ref_started(2) _ ref_mmap_contract, of "0x80000000" 0 3 MAP_ANONYMOUS 0] ref_nframes ref_started(3)
    by (auto elim!: wpE_mono)
qed

text \<open>C20. The rewritten flags of a mapping: always anonymous and without reservation, private when the
  caller asked for a shared mapping, never shared, populated or of huge pages, and every other bit as
  requested; population is requested exactly when the caller's \<open>MAP_POPULATE\<close> bit is set.\<close>

theorem mmap_flags_correct:
  assumes "i < 32"
  shows "(bit (fst (mmap_flags f)) i \<longleftrightarrow> i \<in> {5, 14} \<or> i = 1 \<and> bit f 0 \<or> i \<notin> {0, 15, 18} \<and> bit f i) \<and>
    (snd (mmap_flags f) \<longleftrightarrow> bit f 15)"
  using mmap_flags_spec [OF assms] by simp

theorem mmap_flags_correct_witness: "\<not> bit (fst (mmap_flags (MAP_SHARED OR MAP_POPULATE))) 0 \<and> snd (mmap_flags (MAP_SHARED OR MAP_POPULATE))"
  using mmap_flags_correct [of 0 "MAP_SHARED OR MAP_POPULATE"] by (simp add: bit_or_iff flag_bits)

section \<open>The paging policy\<close>

text \<open>C21. An allocation returns a descriptor of a DRAM frame that no page and no other descriptor uses,
  taken out of every queue; no page changes its address, and the allocation never waits for ever as long
  as the caller holds less than half of the frames.\<close>

theorem pagefault_returns_free_frame:
  assumes "pool_inv F s" "can_alloc F s"
  shows "wpE (lrudisk_pagefault K s)
    (\<lambda>r. free_frame F (snd r) (fst r) \<and> pres F s (snd r) \<and> migrating (heap (snd r) (fst r))) stops"
  by (rule pagefault_wp [OF assms])

theorem pagefault_returns_free_frame_witness:
  "wpE (lrudisk_pagefault ref_kernel ref_state) (\<lambda>r. free_frame {} (snd r) (fst r)) stops"
proof -
  have "can_alloc {} ref_state" using ref_nframes sys_invD(4) [OF ref_started(1)] by (simp add: can_alloc_def frames_held_def)
  then show ?thesis using pagefault_returns_free_frame [OF sys_invD(1) [OF ref_started(1)], of ref_kernel] by (auto elim!: wpE_mono)
qed


text \<open>C23. A turn of \<open>kswapd\<close> always ends: it keeps the invariant and every page's address, and it stops only
  when the kernel fails.\<close>

theorem kswapd_correct:
  assumes "pool_inv F s"
  shows "wpE (lrudisk_synchkswapd K s) (\<lambda>s'. pool_inv F s' \<and> pres F s s') (\<lambda>e. e = Kernel_failed)"
  by (rule kswapd_wp [OF assms]) simp

theorem kswapd_correct_witness:
  "wpE (lrudisk_synchkswapd ref_kernel ref_state) (pool_inv {}) (\<lambda>e. e = Kernel_failed)"
  using kswapd_correct [OF sys_invD(1) [OF ref_started(1)], of ref_kernel] by (auto elim!: wpE_mono)

section \<open>Queues\<close>

text \<open>C24. A queue refines a list: adding a page that is in no queue puts it at the head of that list, keeps
  every other queue, and changes nothing else in the state.\<close>

theorem enqueue_refines:
  assumes "queues_free s" "page_list s p = None"
  shows "\<exists>s'. enqueue_fifo l p s = Inr s' \<and> queues_free s' \<and>
    seq (lists s') = (seq (lists s))(l := p # seq (lists s) l) \<and> other_state s' = other_state s"
  by (rule fifo.enq_spec [OF assms])

theorem enqueue_refines_witness:
  "\<exists>s'. enqueue_fifo Active_list 71 ref_state = Inr s' \<and> queues_free s' \<and> hd (seq (lists s') Active_list) = 71"
  using enqueue_refines [OF ref_queues(1,2), of Active_list] by auto

text \<open>C25. Taking a page returns the last one of the list, which is the one that was added first, or nothing if
  the list is empty, in which case the state does not change.\<close>

theorem dequeue_refines:
  assumes "queues_free s"
  shows "(seq (lists s) l = [] \<longrightarrow> dequeue_fifo l s = Inr (None, s)) \<and>
    (\<forall>xs x. seq (lists s) l = xs @ [x] \<longrightarrow> (\<exists>s'. dequeue_fifo l s = Inr (Some x, s') \<and> queues_free s' \<and>
      seq (lists s') = (seq (lists s))(l := xs) \<and> other_state s' = other_state s))"
  using fifo.deq_empty [OF assms] fifo.deq_spec [OF assms] by blast

theorem dequeue_refines_witness: "dequeue_fifo Active_list ref_state = Inr (None, ref_state)"
  using dequeue_refines [OF ref_queues(1), of Active_list] ref_queues(3) by simp

text \<open>C26. Taking up to \<open>n\<close> pages under one lock gives the same pages and the same state as \<open>n\<close> single calls that
  stop at the first empty answer.\<close>

theorem dequeue_vector_equivalent:
  assumes "\<not> held s (List_lock l)"
  shows "dequeue_fifo_vector l n s = dequeue_repeat n l s"
  by (rule dequeue_vector_is_repeat [OF assms])

theorem dequeue_vector_equivalent_witness:
  "dequeue_fifo_vector Eviction_list 8 ref_state = dequeue_repeat 8 Eviction_list ref_state"
  using dequeue_vector_equivalent [of ref_state Eviction_list 8] ref_queues(1) by (simp add: queues_free_def)

section \<open>The index\<close>

text \<open>C27. A lookup after an insertion finds the new page at its address and the old answer everywhere else.\<close>

theorem find_after_add:
  assumes "index_ok s" "\<forall>q \<in> tracked s. va (heap s q) \<noteq> va (heap s p)" "add_page p s = Inr s'"
  shows "find_page a s' = Inr (if a = va (heap s p) then Some p else fst (projr (find_page a s)), s')"
  by (rule index.find_add [OF assms])

theorem find_after_add_witness:
  "\<exists>s'. add_page 63 (upd_page 63 (\<lambda>h. h\<lparr>va := 0x7000000000\<rparr>) ref_state) = Inr s' \<and>
    find_page 0x7000000000 s' = Inr (Some 63, s')"
proof -
  let ?s = "upd_page 63 (\<lambda>h. h\<lparr>va := 0x7000000000\<rparr>) ref_state"
  obtain s' where s': "add_page 63 ?s = Inr s'" using ref_addable(3) by blast
  show ?thesis using s' find_after_add [OF ref_addable(1,2) s', of "0x7000000000"] by simp
qed

text \<open>C28. A lookup after a removal finds nothing at the address of the page and the old answer elsewhere.\<close>

theorem find_after_remove:
  assumes "index_ok s" "p \<in> tracked s" "remove_page p s = Inr s'"
  shows "find_page a s' = Inr (if a = va (heap s p) then None else fst (projr (find_page a s)), s')"
  by (rule index.find_del [OF assms])

theorem find_after_remove_witness:
  "\<exists>s'. remove_page 63 ref_swapped = Inr s' \<and> find_page 0x7000000000 s' = Inr (None, s')"
proof -
  have i: "index_ok ref_swapped" using sys_invD(2) [OF ref_swapped(1)] by (simp add: index_inv_def)
  obtain s' where s': "remove_page 63 ref_swapped = Inr s'" using index.del_spec [OF i ref_swapped(4)] by blast
  show ?thesis using s' find_after_remove [OF i ref_swapped(4) s', of "0x7000000000"] ref_swapped(5) by simp
qed

section \<open>Interception and start-up\<close>

text \<open>C29. The hook takes a system call away from the kernel only outside the library's own code, and only a
  \<open>munmap\<close> or, after start-up, an \<open>mmap\<close> of at least 2 GiB of anonymous memory that is not a stack;
  otherwise it changes nothing.\<close>

theorem hook_handles_only:
  assumes "hook K P n a0 a1 a2 a3 a4 a5 s = Inr (r, s')"
  shows "r = Forward \<and> s' = s \<or> \<not> internal_call (me s) \<and>
    (n = SYS_munmap \<or> n = SYS_mmap \<and> is_init s \<and> 2 ^ 31 \<le> unat a1 \<and> bit a3 5 \<and> \<not> bit a3 17)"
proof -
  have e: "ucast a3 AND MAP_ANONYMOUS = MAP_ANONYMOUS \<longleftrightarrow> bit a3 5" "ucast a3 AND MAP_STACK = MAP_STACK \<longleftrightarrow> bit a3 17"
    using flag_set [of 5 "ucast a3"] flag_set [of 17 "ucast a3"] by (simp_all add: mmap_consts bit_simps)
  show ?thesis using assms
    by (auto simp: hook_def mmap_filter_def munmap_filter_def e bindE_Inr_iff word_le_nat_alt not_less split: if_splits)
qed

theorem hook_handles_only_witness:
  "hook ref_kernel (lru_swap ref_kernel) SYS_mmap 0 4096 3 0x22 0 0 ref_state = Inr (Forward, ref_state)"
proof -
  have "hook ref_kernel (lru_swap ref_kernel) SYS_mmap 0 4096 3 0x22 0 0 ref_state = Inr (Forward, ref_state)"
    by (simp add: hook_def mmap_filter_def)
  from hook_handles_only [OF this] this show ?thesis by simp
qed

section \<open>Limits\<close>

text \<open>C30. An allocation gives up with ``Out of memory'' when the free, inactive and eviction queues are empty and
  more than half of the frames hold pages of the active queue, although those pages could be evicted: the
  reclaim looks at the active queue only while the inactive one has pages.\<close>

theorem reclaim_ignores_active_queue:
  assumes "pool_inv F s" "seq (lists s) Dram_free_list = []" "seq (lists s) Eviction_list = []" "seq (lists s) Inactive_list = []"
    "\<not> shrinkage_running s" "resident s > dramsize s div (PAGE_SIZE * 2)"
  shows "fetch_free_asynch K s = Inl Out_of_memory"
  by (rule active_pages_unused [OF assms])

theorem reclaim_ignores_active_queue_witness: "fetch_free_asynch ref_kernel ref_hot = Inl Out_of_memory"
  by (rule reclaim_ignores_active_queue [OF ref_hot])

text \<open>C31. A \<open>munmap\<close> of a region that starts at address 0 never returns: it finds the descriptor that start-up
  puts in the index for that address, which is in no queue, and waits for it.\<close>

theorem munmap_at_zero_hangs:
  assumes "sys_inv {} s" "len \<noteq> 0"
  shows "extmem_munmap K (lru_swap K) 0 len s = Inl Spin"
  by (rule munmap_zero_spins [OF assms])

theorem munmap_at_zero_hangs_witness: "extmem_munmap ref_kernel (lru_swap ref_kernel) 0 4096 ref_state = Inl Spin"
  using munmap_at_zero_hangs [OF ref_started(1), of 4096] by simp

text \<open>C32. The last store of an eviction by a worker comes after it has released the page. A fault in between brings the page back, and
  the store then marks the resident page as swapped out; the process stops when it is prefetched or evicted next.\<close>

theorem late_store_loses_page:
  "\<exists>w. interleaved w \<and> at_rest w \<and> sh_swapped_out (pg w) \<and> sh_in_dram (pg w) \<and> sh_list (pg w) = Some Inactive_list \<and>
     (\<exists>w'. rtranclp step w w' \<and> crashes w')"
proof -
  have "at_rest (duo Idle Idle lost_page)" by (simp add: lost_page_def page_at_def)
  moreover have "sh_swapped_out lost_page \<and> sh_in_dram lost_page \<and> sh_list lost_page = Some Inactive_list" by (simp add: lost_page_def page_at_def)
  ultimately show ?thesis using interleaved_late lost_page_fails by (intro exI [of _ "duo Idle Idle lost_page"]) simp
qed

text \<open>C33. The handler puts a page into the inactive queue before it has cleared the page's flags. An eviction that gets hold of the
  page first finds it swapped out already and stops the process.\<close>

theorem early_filing_stops_eviction:
  "\<exists>w t u. interleaved w \<and> pcs w t = Fetch Reenter \<and> pcs w u = Evict False Set_swapped \<and>
     thread_step u (pcs w u) (pg w) = Inl Assert_failed"
  using interleaved_early
  by (intro exI [of _ "duo (Evict False Set_swapped) (Fetch Reenter) crossed_page"] exI [of _ "Suc 0"] exI [of _ 0])
    (simp add: crossed_page_def page_at_def check_def)

text \<open>C34. \<open>munmap\<close> does not look at the flag again after it has waited for a migration. If the prefetcher has claimed the page
  meanwhile, the page ends up in memory and yet in the queue of the free disk slots.\<close>

theorem unchecked_claim_misfiles_page:
  "\<exists>w. interleaved w \<and> at_rest w \<and> sh_in_dram (pg w) \<and> \<not> sh_swapped_out (pg w) \<and> sh_list (pg w) = Some Disk_free_list"
  using interleaved_misfiled by (intro exI [of _ "duo Idle Idle misfiled_page"]) (simp add: misfiled_page_def page_at_def)



section \<open>The PageRank policy\<close>

text \<open>C36. Built with the PageRank policy, the library keeps the same invariant in every state that a program can
  reach, and the address of the last major fault that the policy works with is always page-aligned.\<close>

theorem pr_reachable_invariant:
  assumes "pr_reachable K getenv s" "mmap_contract K" "63 \<le> frames_requested getenv"
  shows "pool_inv {} s \<and> index_inv s \<and> \<not> held s Allocator_lock \<and> \<not> shrinkage_running s \<and> page_aligned (safe_to_free s)"
  using pr_reachable_good [OF assms] by (simp add: pr_good_def good_def sys_inv_def)

theorem pr_reachable_invariant_witness:
  "pr_reachable ref_kernel ref_getenv pr_ref_state \<and> mmap_contract ref_kernel \<and> 63 \<le> frames_requested ref_getenv \<and>
   pool_inv {} pr_ref_state \<and> index_inv pr_ref_state"
  using pr_reachable_invariant [OF pr_ref_reachable ref_mmap_contract] pr_ref_reachable ref_mmap_contract
  by (simp add: ref_frames_requested)





text \<open>C39. After a major fault the inactive scan of the PageRank policy always returns. It moves to the eviction
  queue exactly the first pages, in the order in which they entered the inactive queue, that lie outside the window
  around the faulting address: as many as requested, among the pages that it may look at. It loses no page and
  changes no other queue.\<close>

theorem window_scan_correct:
  assumes "pool_inv F s" "safe_to_free s \<noteq> 0" "q = seq (lists s) Inactive_list"
    "n = (if nr = 0 \<or> length q < nr then length q else nr)"
  shows "\<exists>e s'. pr_shrink_inactive_list K nr s = Inr (length e, s') \<and>
     e = take n (filter (\<lambda>p. \<not> in_window (safe_to_free s) (va (heap s p))) (take (n * 100) (rev q))) \<and>
     pool_inv F s' \<and> heap s' = heap s \<and> seq (lists s') Eviction_list = rev e @ seq (lists s) Eviction_list \<and>
     mset e + mset (seq (lists s') Inactive_list) = mset q \<and>
     (\<forall>l. l \<noteq> Inactive_list \<longrightarrow> l \<noteq> Eviction_list \<longrightarrow> seq (lists s') l = seq (lists s) l)"
  by (rule pr_shrink_inactive_returns [OF assms])

theorem window_scan_correct_witness:
  "\<exists>s'. pr_shrink_inactive_list ref_kernel 32 pr_ref_cold = Inr (1, s') \<and> seq (lists s') Eviction_list = [0] \<and>
     seq (lists s') Inactive_list = []"
proof -
  have e: "seq (lists pr_ref_cold) Eviction_list = []" by (simp add: pr_ref_cold_def ref_one_seq)
  have w: "\<not> in_window 0x7000000000 0x7000000000" by (simp add: in_window_def)
  show ?thesis
    using window_scan_correct [OF pr_ref_cold(1,2) refl refl, of ref_kernel 32] e w
    by (auto simp: pr_ref_cold(3-5))
qed



section \<open>Parts on their own\<close>

text \<open>
  Facts on single operations that the theorems above contain or use.
\<close>

text \<open>Lengths are rounded up to the next page boundary, by less than a page, whenever the result fits
  64 bits.\<close>

theorem page_round_up_correct:
  assumes "unat x + 4096 \<le> 2 ^ 64"
  shows "4096 dvd unat (PAGE_ROUND_UP x) \<and> unat x \<le> unat (PAGE_ROUND_UP x) \<and> unat (PAGE_ROUND_UP x) < unat x + 4096"
  using PAGE_ROUND_UP_bounds [OF assms] by simp

theorem page_round_up_correct_witness: "unat (PAGE_ROUND_UP 4097) = 8192"
  using page_round_up_correct [of 4097] by (auto elim!: dvdE)

text \<open>A turn of an eviction worker keeps the invariant and every page's address, and it stops only when
  the kernel fails or swap space has run out.\<close>

theorem evictionworker_correct:
  assumes "pool_inv F s"
  shows "wpE (lrudisk_evictionworker K s) (\<lambda>s'. pool_inv F s' \<and> pres F s s') (\<lambda>e. e \<in> {Kernel_failed, No_disk_page})"
  by (rule evictionworker_wp [OF assms]) simp_all

theorem evictionworker_correct_witness:
  "wpE (lrudisk_evictionworker ref_kernel ref_state) (pool_inv {}) (\<lambda>e. e \<in> {Kernel_failed, No_disk_page})"
  using evictionworker_correct [OF sys_invD(1) [OF ref_started(1)], of ref_kernel] by (auto elim!: wpE_mono)

text \<open>So does a turn of the worker that evicts up to eight pages at once.\<close>

theorem evictionworker_vector_correct:
  assumes "pool_inv F s"
  shows "wpE (lrudisk_evictionworker_vector K s) (\<lambda>s'. pool_inv F s' \<and> pres F s s') (\<lambda>e. e \<in> {Kernel_failed, No_disk_page})"
  by (rule evictionworker_vector_wp [OF assms]) simp_all

theorem evictionworker_vector_correct_witness:
  "wpE (lrudisk_evictionworker_vector ref_kernel ref_state) (pool_inv {}) (\<lambda>e. e \<in> {Kernel_failed, No_disk_page})"
  using evictionworker_vector_correct [OF sys_invD(1) [OF ref_started(1)], of ref_kernel] by (auto elim!: wpE_mono)

text \<open>A page on disk that a fault asks for ends up in a DRAM frame, with its disk slot kept as its
  reserve: the invariant holds once the core has cleared its flags, and no page changes its address.\<close>

theorem swapin_correct:
  assumes "pool_inv F (unmark p s)" "page_list s p = Some Disk_active_list" "can_alloc F s"
  shows "wpE (lrudisk_swapin_external_async K p s) (\<lambda>s'. pool_inv F (settle p s') \<and> pres F s (settle p s')) stops"
  by (rule swapin_external_async_wp [OF assms])

theorem swapin_correct_witness:
  "wpE (lrudisk_swapin_external_async ref_kernel 63 (mark 63 ref_swapped)) (\<lambda>s'. pool_inv {} (settle 63 s')) stops"
  using swapin_correct [OF ref_marked, of ref_kernel] by (auto elim!: wpE_mono)

text \<open>Removing a page that a queue holds always returns: the page has no address afterwards, its frame
  or slot and its reserve are free again, and no other page changes its address.\<close>

theorem remove_page_correct:
  assumes "pool_inv F (unmark p s)" "page_list s p = Some l" "l \<in> {Active_list, Inactive_list, Eviction_list, Disk_active_list}"
  shows "\<exists>s'. lrudisk_remove_page p s = Inr s' \<and> pool_inv F s' \<and> only_changes F p s s' \<and> va (heap s' p) = 0"
  using remove_page_wp [OF assms, where E = "\<lambda>_. False"] by (simp add: wpE_returns)

theorem remove_page_correct_witness:
  "\<exists>s'. lrudisk_remove_page 63 (mark 63 ref_swapped) = Inr s' \<and> pool_inv {} s' \<and> va (heap s' 63) = 0"
  using remove_page_correct [OF ref_marked(1,2)] by auto

text \<open>The prefetcher keeps the invariant and every page's address, brings in at most 32 pages, and never
  waits for ever when there are at least 63 frames.\<close>

theorem prefetch_correct:
  assumes "sys_inv {} s" "63 \<le> nframes s" "b \<noteq> 0"
  shows "wpE (core_try_prefetch K (lru_swap K) b s) (\<lambda>r. sys_inv {} (snd r) \<and> mapped (snd r) = mapped s \<and> fst r \<le> CORE_PREFETCH_RATE) stops"
  by (rule wpE_mono [OF disklinux.prefetch_wp [OF sys_invD(1,2,4) [OF assms(1)] assms(2,3)]])
     (auto intro: sys_inv_pres [OF assms(1)] simp: mapped_pres)

theorem prefetch_correct_witness:
  "wpE (core_try_prefetch ref_kernel (lru_swap ref_kernel) 0x6FFFFFF000 ref_swapped)
    (\<lambda>r. sys_inv {} (snd r) \<and> mapped (snd r) = mapped ref_swapped) stops"
  using prefetch_correct [OF ref_swapped(1), of "0x6FFFFFF000" ref_kernel] ref_swapped(2) by (auto elim!: wpE_mono)

text \<open>Removing a given page from a queue takes it out of the list wherever it stands; if the page is not in
  that queue the call reports \<open>-1\<close> and changes nothing.\<close>

theorem tryremove_refines:
  assumes "queues_free s"
  shows "if page_list s p = Some l
    then \<exists>s'. page_list_tryremove_page (Some l) p s = Inr (0, s') \<and> queues_free s' \<and>
      seq (lists s') = (seq (lists s))(l := remove1 p (seq (lists s) l)) \<and> other_state s' = other_state s
    else page_list_tryremove_page (Some l) p s = Inr (- 1, s)"
  using fifo.del_spec [OF assms, of p l] fifo.del_other [OF assms, of p l] by simp

theorem tryremove_refines_witness:
  "page_list_tryremove_page (Some Active_list) 71 ref_state = Inr (- 1, ref_state)"
  using tryremove_refines [OF ref_queues(1), of 71 Active_list] ref_queues(2) by simp

text \<open>Doubling the buckets keeps every element in the chain that its hash value selects among the new
  buckets, once, and adds no element.\<close>

theorem expansion_keeps_elements:
  assumes "chains_ok hv X tb" "HASH_EXPAND_BUCKETS hv tb = Inr tb'"
  shows "chains_ok hv X tb' \<and> num_buckets tb' = num_buckets tb * 2"
  using expand_ok [OF assms] assms(2) by (auto simp: HASH_EXPAND_BUCKETS_def Let_def case_prod_beta split: if_splits)

theorem expansion_keeps_elements_witness:
  "\<exists>tb'. HASH_EXPAND_BUCKETS (\<lambda>_. 0) HASH_MAKE_TABLE = Inr tb' \<and> chains_ok (\<lambda>_. 0) {} tb' \<and> num_buckets tb' = 4194304"
proof -
  obtain tb' where t: "HASH_EXPAND_BUCKETS (\<lambda>_. 0) HASH_MAKE_TABLE = Inr tb'"
    by (simp add: HASH_EXPAND_BUCKETS_def HASH_MAKE_TABLE_def HASH_INITIAL_NUM_BUCKETS_def Let_def case_prod_beta)
  have c: "chains_ok (\<lambda>_. 0) {} HASH_MAKE_TABLE"
    by (simp add: chains_ok_def HASH_MAKE_TABLE_def HASH_INITIAL_NUM_BUCKETS_def empty_bucket_def)
  show ?thesis using t expansion_keeps_elements [OF c t] by (simp add: HASH_MAKE_TABLE_def HASH_INITIAL_NUM_BUCKETS_def)
qed

text \<open>The inactive scan loses no page: as many pages as it reports go to the eviction queue, at most as
  many as requested, some go to the active queue, and no other queue changes in length.\<close>

theorem shrink_inactive_conserves:
  "wpE (shrink_inactive_list K n s) (\<lambda>r. fst r \<le> entries s Inactive_list \<and> (n \<noteq> 0 \<longrightarrow> fst r \<le> n) \<and>
     scanned (fst r) (cnt s) (cnt (snd r))) (\<lambda>_. True)"
  by (rule shrink_inactive_list_cnt)

theorem shrink_inactive_conserves_witness:
  "wpE (shrink_inactive_list ref_kernel 32 ref_state) (\<lambda>r. fst r \<le> 32 \<and> scanned (fst r) (cnt ref_state) (cnt (snd r))) (\<lambda>_. True)"
  using shrink_inactive_conserves [of ref_kernel 32 ref_state] by (auto elim!: wpE_mono)

end
